(* ===== verification/Prelude.thy ===== *)
theory Prelude
  imports Main "HOL-Library.Word" "HOL-Library.AList"
begin

text \<open>
  Shared material of the development: the machine types of the C++ sources, the conversions
  between \<open>int32_t\<close> and \<open>uint64_t\<close> that the Raft code performs implicitly, the in-memory
  (little-endian) representation of integers that the code copies byte by byte, and
  \<open>std::unordered_map\<close> as an association list with distinct keys.
  Nothing here models a function of the repository; the component theories do.
\<close>

section \<open>Machine types\<close>

type_synonym u8 = "8 word"
type_synonym u32 = "32 word"
type_synonym u64 = "64 word"
type_synonym bytes = "8 word list"

named_theorems machine_simps \<open>reading machine conversions inside their range\<close>
named_theorems umap_simps \<open>rewriting of unordered maps\<close>

text \<open>
  C++20 integral conversions: to a 32-bit signed integer and to a 64-bit unsigned integer,
  on mathematical integers with the wrap-around written out.
\<close>

definition to_i32 :: "int \<Rightarrow> int" where
  "to_i32 x = (x + 2 ^ 31) mod 2 ^ 32 - 2 ^ 31"

definition to_u64 :: "int \<Rightarrow> int" where
  "to_u64 x = x mod 2 ^ 64"

definition to_i64 :: "int \<Rightarrow> int" where
  "to_i64 x = (x + 2 ^ 63) mod 2 ^ 64 - 2 ^ 63"

lemma to_i64_id [machine_simps]: "- (2 ^ 63) \<le> x \<Longrightarrow> x < 2 ^ 63 \<Longrightarrow> to_i64 x = x"
  by (simp add: to_i64_def)

lemma to_i32_id [machine_simps]: "- (2 ^ 31) \<le> x \<Longrightarrow> x < 2 ^ 31 \<Longrightarrow> to_i32 x = x"
  by (simp add: to_i32_def)

lemma to_u64_id [machine_simps]: "0 \<le> x \<Longrightarrow> x < 2 ^ 64 \<Longrightarrow> to_u64 x = x"
  by (simp add: to_u64_def)

lemma to_u64_small [machine_simps]: "0 \<le> x \<Longrightarrow> x < 2 ^ 31 \<Longrightarrow> to_u64 x = x"
  by (simp add: to_u64_def)

lemma to_i32_range: "- (2 ^ 31) \<le> to_i32 x \<and> to_i32 x < 2 ^ 31"
proof -
  have "0 \<le> (x + 2 ^ 31) mod 2 ^ 32 \<and> (x + 2 ^ 31) mod 2 ^ 32 < (2 ^ 32 :: int)"
    by simp
  then show ?thesis unfolding to_i32_def by simp
qed

lemma to_u64_range: "0 \<le> to_u64 x \<and> to_u64 x < 2 ^ 64"
  by (simp add: to_u64_def)

text \<open>
  Signed overflow has no defined result in C++: an operation on 32-bit signed integers gives its
  mathematical value inside the range and nothing outside.
\<close>

definition in_i32 :: "int \<Rightarrow> bool" where
  "in_i32 x \<longleftrightarrow> - (2 ^ 31) \<le> x \<and> x < 2 ^ 31"

lemma in_i32_simps [machine_simps]: "0 \<le> x \<Longrightarrow> x < 2 ^ 31 \<Longrightarrow> in_i32 x"
  by (simp add: in_i32_def)

section \<open>Failing computations\<close>

text \<open>Sequencing of computations that may fail: an error ends the computation.\<close>

definition rbind :: "'e + 'a \<Rightarrow> ('a \<Rightarrow> 'e + 'b) \<Rightarrow> 'e + 'b" where
  "rbind m k = (case m of Inl err \<Rightarrow> Inl err | Inr v \<Rightarrow> k v)"

lemma rbind_simps [simp]: "rbind (Inl err) k = Inl err" "rbind (Inr v) k = k v"
  by (simp_all add: rbind_def)

lemma rbind_Inr_iff: "rbind m k = Inr y \<longleftrightarrow> (\<exists>v. m = Inr v \<and> k v = Inr y)"
  by (cases m) simp_all

lemma rbind_split: "P (rbind m k) \<longleftrightarrow> (\<forall>e. m = Inl e \<longrightarrow> P (Inl e)) \<and> (\<forall>v. m = Inr v \<longrightarrow> P (k v))"
  by (cases m) simp_all

section \<open>Integers as bytes in memory\<close>

text \<open>The \<open>n\<close> bytes of an unsigned integer in little-endian order, and the value they spell.\<close>

primrec le_bytes :: "nat \<Rightarrow> nat \<Rightarrow> bytes" where
  "le_bytes 0 v = []"
| "le_bytes (Suc n) v = word_of_nat v # le_bytes n (v div 256)"

primrec le_val :: "bytes \<Rightarrow> nat" where
  "le_val [] = 0"
| "le_val (b # bs) = unat b + 256 * le_val bs"

lemma length_le_bytes [simp]: "length (le_bytes n v) = n"
  by (induction n arbitrary: v) simp_all

lemma le_val_le_bytes: "le_val (le_bytes n v) = v mod 256 ^ n"
proof (induction n arbitrary: v)
  case 0
  show ?case by simp
next
  case (Suc n)
  have "unat (word_of_nat v :: u8) = v mod 256"
    by (simp add: unat_of_nat)
  with Suc.IH show ?case by (simp add: mod_mult2_eq)
qed

lemma le_val_le_bytes_id [machine_simps]: "v < 256 ^ n \<Longrightarrow> le_val (le_bytes n v) = v"
  by (simp add: le_val_le_bytes)

lemma le_bytes_le_val: "le_bytes (length bs) (le_val bs) = bs"
proof (induction bs)
  case Nil
  show ?case by simp
next
  case (Cons b bs)
  have lt: "unat b < 256"
    using unsigned_less [where ?'a = nat, of b] by simp
  then have "(unat b + 256 * le_val bs) div 256 = le_val bs" by simp
  moreover have "word_of_nat (unat b + 256 * le_val bs) = b"
  proof -
    have "(256 :: u8) = 0" by simp
    then have "256 * (word_of_nat (le_val bs) :: u8) = 0" by (metis mult_zero_left)
    then show ?thesis by simp
  qed
  ultimately show ?case using Cons.IH by simp
qed

section \<open>Decimal numbers\<close>

text \<open>\<open>std::to_string\<close> of an unsigned integer.\<close>

fun to_string :: "nat \<Rightarrow> string" where
  "to_string n = (if n < 10 then [char_of (48 + n)] else to_string (n div 10) @ [char_of (48 + n mod 10)])"

declare to_string.simps [simp del]

lemma to_string_digits: "c \<in> set (to_string n) \<Longrightarrow> \<exists>d < (10 :: nat). c = char_of (48 + d)"
proof (induction n rule: to_string.induct)
  case (1 n)
  show ?case
  proof (cases "n < 10")
    case True
    then show ?thesis using "1.prems" by (subst (asm) to_string.simps) auto
  next
    case False
    then have "c \<in> set (to_string (n div 10)) \<or> c = char_of (48 + n mod 10)"
      using "1.prems" by (subst (asm) to_string.simps) auto
    then show ?thesis using "1.IH" False by (auto intro: exI [of _ "n mod 10"])
  qed
qed

lemma to_string_nonempty [simp]: "to_string n \<noteq> []"
  by (subst to_string.simps) simp

lemma distinct_map_head: "distinct (map f (x # xs)) \<Longrightarrow> y \<in> set xs \<Longrightarrow> f y \<noteq> f x"
  by (metis distinct.simps(2) image_eqI list.map(2) list.set_map)

section \<open>Concatenated chunks\<close>

lemma concat_drop_take:
  assumes "i < length xs"
  shows "take (length (xs ! i)) (drop (length (concat (take i xs))) (concat xs)) = xs ! i"
proof -
  have "concat xs = concat (take i xs) @ xs ! i @ concat (drop (Suc i) xs)"
    by (metis assms concat.simps(2) concat_append id_take_nth_drop)
  then show ?thesis by simp
qed

lemma concat_take_prefix: "take (length (concat (take i xs))) (concat xs) = concat (take i xs)"
  by (metis append_eq_conv_conj append_take_drop_id concat_append)

lemma length_concat_const:
  "\<forall>x \<in> set xs. length x = k \<Longrightarrow> length (concat xs) = k * length xs"
  by (induction xs) simp_all

lemma concat_chunk:
  assumes "\<forall>x \<in> set xs. length x = k" and "i < length xs"
  shows "take k (drop (k * i) (concat xs)) = xs ! i"
proof -
  have "\<forall>x \<in> set (take i xs). length x = k" using assms(1) by (auto dest: in_set_takeD)
  from length_concat_const [OF this] have "length (concat (take i xs)) = k * i"
    using assms(2) by (simp add: min_def)
  moreover have "length (xs ! i) = k" using assms by simp
  ultimately show ?thesis using concat_drop_take [OF assms(2)] by simp
qed

lemma concat_chunk_prefix:
  assumes "\<forall>x \<in> set xs. length x = k" and "i \<le> length xs"
  shows "take (k * i) (concat xs) = concat (take i xs)"
proof -
  have "\<forall>x \<in> set (take i xs). length x = k" using assms(1) by (auto dest: in_set_takeD)
  from length_concat_const [OF this] have "length (concat (take i xs)) = k * i"
    using assms(2) by (simp add: min_def)
  then show ?thesis using concat_take_prefix [of i xs] by simp
qed

section \<open>Unordered maps\<close>

text \<open>
  \<open>std::unordered_map\<close> keeps one value per key and iterates in an order the standard leaves
  open. It is an association list with distinct keys; the list order is the iteration order,
  and the theorems about code that iterates speak of the set of pairs.
\<close>

type_synonym ('k, 'v) umap = "('k \<times> 'v) list"

abbreviation um_ok :: "('k, 'v) umap \<Rightarrow> bool" where
  "um_ok m \<equiv> distinct (map fst m)"

abbreviation um_find :: "('k, 'v) umap \<Rightarrow> 'k \<Rightarrow> 'v option" where
  "um_find m k \<equiv> map_of m k"

abbreviation um_put :: "'k \<Rightarrow> 'v \<Rightarrow> ('k, 'v) umap \<Rightarrow> ('k, 'v) umap" where
  "um_put k v m \<equiv> AList.update k v m"

abbreviation um_erase :: "'k \<Rightarrow> ('k, 'v) umap \<Rightarrow> ('k, 'v) umap" where
  "um_erase k m \<equiv> AList.delete k m"

lemma um_find_put [umap_simps]: "um_find (um_put k v m) = (um_find m)(k \<mapsto> v)"
  by (rule update_conv')

lemma um_find_erase [umap_simps]: "um_find (um_erase k m) = (um_find m)(k := None)"
  by (rule delete_conv')

lemma um_ok_put [umap_simps]: "um_ok m \<Longrightarrow> um_ok (um_put k v m)"
  by (rule distinct_update)

lemma um_ok_erase [umap_simps]: "um_ok m \<Longrightarrow> um_ok (um_erase k m)"
  by (rule distinct_delete)

lemma um_put_fresh: "um_find m k = None \<Longrightarrow> um_put k v m = m @ [(k, v)]"
  by (induction m) (auto split: if_splits)

lemma um_size_put_fresh [umap_simps]:
  "um_find m k = None \<Longrightarrow> length (um_put k v m) = Suc (length m)"
  by (simp add: um_put_fresh)

lemma um_size_erase:
  "um_ok m \<Longrightarrow> um_find m k = Some v \<Longrightarrow> Suc (length (um_erase k m)) = length m"
proof (induction m)
  case Nil
  then show ?case by simp
next
  case (Cons p m)
  then show ?case by (cases "fst p = k") (auto simp: map_of_eq_None_iff rev_image_eqI)
qed

lemma um_values: "um_ok m \<Longrightarrow> set (map snd m) = ran (um_find m)"
  by (force simp: ran_def map_of_eq_Some_iff)

lemma um_keys: "fst ` set m = dom (um_find m)"
  by (simp add: dom_map_of_conv_image_fst)

lemma um_find_None: "um_find m k = None \<longleftrightarrow> k \<notin> fst ` set m"
  by (rule map_of_eq_None_iff)

end
