(* ===== verification/Witness.thy ===== *)
theory Witness
  imports Prelude
begin

text \<open>
  The CURP witness (\<^verbatim>\<open>include/curp/witness.h\<close>, \<^verbatim>\<open>src/curp/witness.cpp\<close>): a store of requests that
  are durable but not yet ordered, at most one per key. Every public method runs under the
  witness's mutex (or is one atomic store), so each is one function from the old state to the
  result and the new state. Log lines and tracing spans have no effect on the state and are
  left out; the steady clock is the argument \<open>now\<close>.
\<close>

section \<open>Data\<close>

record WitnessRecord =
  wr_rpc_id :: u64
  wr_key :: string
  wr_request_data :: bytes
  wr_client_id :: u64
  wr_timestamp :: u64

datatype RecordResult =
    ACCEPTED
  | REJECTED_NOT_COMMUTATIVE
  | REJECTED_NO_SPACE
  | REJECTED_STOPPED
  | REJECTED_WRONG_MASTER

record GCEntry =
  gc_key :: string
  gc_rpc_id :: u64

record WitnessStatus =
  st_master_id :: string
  st_accepting :: bool
  st_request_count :: u32
  st_oldest_timestamp :: "u64 option"

record Witness =
  w_master_id :: string
  w_accepting :: bool
  w_records :: "(string, WitnessRecord) umap"
  w_rpc_ids :: "u64 set"
  w_storage_dir :: string
  w_total_recorded :: u64
  w_total_rejected :: u64
  w_total_gc :: u64

definition kMaxRecords :: nat where
  "kMaxRecords = 10000"

section \<open>Operations\<close>

definition new_WitnessRecord :: "u64 \<Rightarrow> u64 \<Rightarrow> string \<Rightarrow> bytes \<Rightarrow> u64 \<Rightarrow> WitnessRecord" where
  "new_WitnessRecord now rpc_id key data client_id =
     \<lparr>wr_rpc_id = rpc_id, wr_key = key, wr_request_data = data,
      wr_client_id = client_id, wr_timestamp = now\<rparr>"

definition new_Witness :: "string \<Rightarrow> Witness" where
  "new_Witness dir =
     \<lparr>w_master_id = [], w_accepting = True, w_records = [], w_rpc_ids = {}, w_storage_dir = dir,
      w_total_recorded = 0, w_total_rejected = 0, w_total_gc = 0\<rparr>"

definition witness_reject :: "RecordResult \<Rightarrow> Witness \<Rightarrow> RecordResult \<times> Witness" where
  "witness_reject r w = (r, w\<lparr>w_total_rejected := w_total_rejected w + 1\<rparr>)"

definition witness_record ::
  "u64 \<Rightarrow> Witness \<Rightarrow> string \<Rightarrow> u64 \<Rightarrow> string \<Rightarrow> bytes \<Rightarrow> u64 \<Rightarrow> RecordResult \<times> Witness" where
  "witness_record now w master_id rpc_id key data client_id =
     (if \<not> w_accepting w then witness_reject REJECTED_STOPPED w
      else if w_master_id w \<noteq> [] \<and> master_id \<noteq> w_master_id w
      then witness_reject REJECTED_WRONG_MASTER w
      else if kMaxRecords \<le> length (w_records w) then witness_reject REJECTED_NO_SPACE w
      else if rpc_id \<in> w_rpc_ids w then (ACCEPTED, w)
      else if um_find (w_records w) key \<noteq> None
      then witness_reject REJECTED_NOT_COMMUTATIVE w
      else (ACCEPTED,
        w\<lparr>w_records := um_put key (new_WitnessRecord now rpc_id key data client_id) (w_records w),
          w_rpc_ids := insert rpc_id (w_rpc_ids w),
          w_master_id := (if w_master_id w = [] then master_id else w_master_id w),
          w_total_recorded := w_total_recorded w + 1\<rparr>))"

text \<open>The body of the loop over the entries, then the loop, with \<open>dropped\<close> as its counter.\<close>

definition witness_gc_entry :: "GCEntry \<Rightarrow> u32 \<times> Witness \<Rightarrow> u32 \<times> Witness" where
  "witness_gc_entry e = (\<lambda>(dropped, w).
     (case um_find (w_records w) (gc_key e) of
        None \<Rightarrow> (dropped, w)
      | Some r \<Rightarrow>
          if wr_rpc_id r = gc_rpc_id e
          then (dropped + 1,
                w\<lparr>w_rpc_ids := w_rpc_ids w - {wr_rpc_id r},
                  w_records := um_erase (gc_key e) (w_records w)\<rparr>)
          else (dropped, w)))"

definition witness_garbage_collect :: "Witness \<Rightarrow> string \<Rightarrow> GCEntry list \<Rightarrow> u32 \<times> Witness" where
  "witness_garbage_collect w master_id entries =
     (if w_master_id w \<noteq> [] \<and> master_id \<noteq> w_master_id w then (0, w)
      else
        let (dropped, w') = fold witness_gc_entry entries (0, w)
        in (dropped, w'\<lparr>w_total_gc := w_total_gc w' + ucast dropped\<rparr>))"

definition witness_get_recovery_data :: "Witness \<Rightarrow> string \<Rightarrow> WitnessRecord list \<times> Witness" where
  "witness_get_recovery_data w master_id =
     (if w_master_id w \<noteq> [] \<and> master_id \<noteq> w_master_id w then ([], w)
      else (map snd (w_records w), w\<lparr>w_accepting := False\<rparr>))"

definition witness_stop_accepting :: "Witness \<Rightarrow> Witness" where
  "witness_stop_accepting w = w\<lparr>w_accepting := False\<rparr>"

definition witness_reset :: "Witness \<Rightarrow> string \<Rightarrow> Witness" where
  "witness_reset w new_master_id =
     w\<lparr>w_records := [], w_rpc_ids := {}, w_master_id := new_master_id, w_accepting := True\<rparr>"

definition oldest_of :: "(string, WitnessRecord) umap \<Rightarrow> u64" where
  "oldest_of rs =
     fold (\<lambda>(k, r) oldest. if wr_timestamp r < oldest then wr_timestamp r else oldest) rs
       (- 1)"

definition witness_get_status :: "Witness \<Rightarrow> WitnessStatus" where
  "witness_get_status w =
     \<lparr>st_master_id = w_master_id w, st_accepting = w_accepting w,
      st_request_count = word_of_nat (length (w_records w)),
      st_oldest_timestamp =
        (if w_records w = [] then None else Some (oldest_of (w_records w)))\<rparr>"

definition witness_has_key_conflict :: "Witness \<Rightarrow> string \<Rightarrow> bool" where
  "witness_has_key_conflict w key \<longleftrightarrow> um_find (w_records w) key \<noteq> None"

definition witness_size :: "Witness \<Rightarrow> nat" where
  "witness_size w = length (w_records w)"

definition witness_is_accepting :: "Witness \<Rightarrow> bool" where
  "witness_is_accepting w = w_accepting w"

section \<open>The witness as a state machine\<close>

text \<open>One rule per public method that writes the state, for any caller and any arguments.\<close>

inductive witness_step :: "Witness \<Rightarrow> Witness \<Rightarrow> bool" where
  ws_record: "witness_step w (snd (witness_record now w m i k d c))"
| ws_gc: "witness_step w (snd (witness_garbage_collect w m es))"
| ws_recover: "witness_step w (snd (witness_get_recovery_data w m))"
| ws_stop: "witness_step w (witness_stop_accepting w)"
| ws_reset: "witness_step w (witness_reset w m)"

inductive witness_reachable :: "Witness \<Rightarrow> bool" where
  wr_start: "witness_reachable (new_Witness dir)"
| wr_step: "witness_reachable w \<Longrightarrow> witness_step w w' \<Longrightarrow> witness_reachable w'"

text \<open>
  The well-formedness invariant: the map has one record per key and files each record under
  its own key; the identifier set is exactly the identifiers of the stored records, no two of
  which agree; the capacity is respected.
\<close>

definition witness_inv :: "Witness \<Rightarrow> bool" where
  "witness_inv w \<longleftrightarrow>
     um_ok (w_records w)
   \<and> (\<forall>(k, r) \<in> set (w_records w). wr_key r = k)
   \<and> w_rpc_ids w = (wr_rpc_id \<circ> snd) ` set (w_records w)
   \<and> distinct (map (wr_rpc_id \<circ> snd) (w_records w))
   \<and> length (w_records w) \<le> kMaxRecords"


section \<open>Lemmas\<close>

lemmas witness_op_defs = witness_record_def witness_reject_def witness_get_recovery_data_def
  witness_stop_accepting_def witness_reset_def new_WitnessRecord_def

lemma witness_invI:
  assumes "um_ok (w_records w)" and "\<And>k r. (k, r) \<in> set (w_records w) \<Longrightarrow> wr_key r = k"
    and "w_rpc_ids w = (wr_rpc_id \<circ> snd) ` set (w_records w)"
    and "distinct (map (wr_rpc_id \<circ> snd) (w_records w))"
    and "length (w_records w) \<le> kMaxRecords"
  shows "witness_inv w"
  using assms unfolding witness_inv_def by blast

lemma witness_inv_frame [simp]:
  "witness_inv (w\<lparr>w_total_rejected := x\<rparr>) = witness_inv w"
  "witness_inv (w\<lparr>w_total_gc := x\<rparr>) = witness_inv w"
  "witness_inv (w\<lparr>w_accepting := b\<rparr>) = witness_inv w"
  by (simp_all add: witness_inv_def)

lemma witness_inv_cong:
  "w_records w = w_records v \<Longrightarrow> w_rpc_ids w = w_rpc_ids v \<Longrightarrow> witness_inv w = witness_inv v"
  by (simp add: witness_inv_def)

lemma witness_inv_new: "witness_inv (new_Witness dir)"
  by (simp add: witness_inv_def new_Witness_def)

lemma witness_inv_reset: "witness_inv (witness_reset w m)"
  by (simp add: witness_inv_def witness_reset_def)

text \<open>The exact effect of \<open>record\<close> on the stored requests.\<close>

lemma witness_record_records:
  assumes "witness_record now w m i k d c = (res, w')"
  shows "w_records w' =
      (if res = ACCEPTED \<and> i \<notin> w_rpc_ids w
       then w_records w @ [(k, new_WitnessRecord now i k d c)] else w_records w)"
    and "w_rpc_ids w' =
      (if res = ACCEPTED \<and> i \<notin> w_rpc_ids w then insert i (w_rpc_ids w) else w_rpc_ids w)"
    and "res = ACCEPTED \<Longrightarrow> i \<notin> w_rpc_ids w \<Longrightarrow>
      um_find (w_records w) k = None \<and> length (w_records w) < kMaxRecords"
  using assms
  by (auto simp: witness_record_def witness_reject_def um_put_fresh split: if_splits)

lemma witness_inv_record: "witness_inv w \<Longrightarrow> witness_inv (snd (witness_record now w m i k d c))"
proof -
  assume inv: "witness_inv w"
  obtain res w' where rec: "witness_record now w m i k d c = (res, w')" by fastforce
  note eff = witness_record_records [OF rec]
  show ?thesis
  proof (cases "res = ACCEPTED \<and> i \<notin> w_rpc_ids w")
    case True
    with eff have "w_records w' = w_records w @ [(k, new_WitnessRecord now i k d c)]"
      and "w_rpc_ids w' = insert i (w_rpc_ids w)"
      and "k \<notin> fst ` set (w_records w)" and "length (w_records w) < kMaxRecords"
      by (simp_all add: um_find_None)
    moreover have "i \<notin> (wr_rpc_id \<circ> snd) ` set (w_records w)"
      using inv True by (simp add: witness_inv_def)
    ultimately show ?thesis
      using inv rec by (auto simp: witness_inv_def new_WitnessRecord_def)
  next
    case False
    with eff have "w_records w' = w_records w" and "w_rpc_ids w' = w_rpc_ids w" by auto
    with inv rec show ?thesis by (simp add: witness_inv_def)
  qed
qed

text \<open>Garbage collection: one entry removes exactly the record it names.\<close>

definition gc_names :: "GCEntry list \<Rightarrow> string \<times> WitnessRecord \<Rightarrow> bool" where
  "gc_names es = (\<lambda>(k, r). \<exists>e \<in> set es. gc_key e = k \<and> gc_rpc_id e = wr_rpc_id r)"

lemma um_erase_filter: "um_erase k m = filter (\<lambda>(k', v). k' \<noteq> k) m"
  by (auto simp: AList.delete_eq intro: filter_cong)

lemma gc_entry_records:
  assumes "witness_inv w"
  shows "w_records (snd (witness_gc_entry e (n, w))) =
    filter (\<lambda>p. \<not> gc_names [e] p) (w_records w)"
proof (cases "um_find (w_records w) (gc_key e)")
  case None
  then have "filter (\<lambda>p. \<not> gc_names [e] p) (w_records w) = w_records w"
    by (force simp: gc_names_def um_find_None intro!: filter_True)
  with None show ?thesis by (simp add: witness_gc_entry_def)
next
  case (Some r)
  have only: "r' = r" if "(gc_key e, r') \<in> set (w_records w)" for r'
    using that Some assms by (simp add: witness_inv_def)
  show ?thesis
    using Some only
    by (auto simp: witness_gc_entry_def gc_names_def um_erase_filter
        intro!: filter_cong filter_True [symmetric])
qed

lemma gc_entry_inv:
  assumes "witness_inv w"
  shows "witness_inv (snd (witness_gc_entry e (n, w)))"
proof (cases "\<exists>r. um_find (w_records w) (gc_key e) = Some r \<and> wr_rpc_id r = gc_rpc_id e")
  case True
  then obtain r where r: "um_find (w_records w) (gc_key e) = Some r" "wr_rpc_id r = gc_rpc_id e"
    by blast
  let ?rs = "um_erase (gc_key e) (w_records w)"
  have ok: "um_ok (w_records w)" and inj: "distinct (map (wr_rpc_id \<circ> snd) (w_records w))"
    and ids: "w_rpc_ids w = (wr_rpc_id \<circ> snd) ` set (w_records w)"
    using assms by (auto simp: witness_inv_def)
  have mem: "(gc_key e, r) \<in> set (w_records w)" using r ok by simp
  have only: "r' = r" if "(gc_key e, r') \<in> set (w_records w)" for r'
    using that mem ok by (metis map_of_is_SomeI option.inject)
  have "set ?rs = set (w_records w) - {(gc_key e, r)}"
    using only by (auto simp: um_erase_filter)
  then have "(wr_rpc_id \<circ> snd) ` set ?rs = w_rpc_ids w - {wr_rpc_id r}"
    unfolding ids
    using inj mem inj_on_image_set_diff [of "wr_rpc_id \<circ> snd" "set (w_records w)"
        "set (w_records w)" "{(gc_key e, r)}"]
    by (simp add: distinct_map)
  moreover have "um_ok ?rs" using ok by (rule distinct_delete)
  moreover have "distinct (map (wr_rpc_id \<circ> snd) ?rs)"
    using inj by (simp add: um_erase_filter distinct_map_filter)
  moreover have "length ?rs \<le> kMaxRecords"
    using assms length_delete_le [of "gc_key e" "w_records w"] by (simp add: witness_inv_def)
  moreover have "\<forall>(k, r) \<in> set ?rs. wr_key r = k"
    using assms by (auto simp: witness_inv_def um_erase_filter)
  ultimately show ?thesis
    using r by (auto simp: witness_gc_entry_def witness_inv_def)
next
  case False
  then have "snd (witness_gc_entry e (n, w)) = w"
    by (auto simp: witness_gc_entry_def split: option.splits)
  with assms show ?thesis by simp
qed

lemma gc_entry_count:
  assumes "witness_inv w"
  shows "fst (witness_gc_entry e (n, w)) + word_of_nat (length (w_records (snd (witness_gc_entry e (n, w)))))
    = n + word_of_nat (length (w_records w))"
proof (cases "um_find (w_records w) (gc_key e)")
  case None
  then show ?thesis by (simp add: witness_gc_entry_def)
next
  case (Some r)
  have "um_ok (w_records w)" using assms by (simp add: witness_inv_def)
  from um_size_erase [OF this Some]
  have "word_of_nat (length (w_records w)) =
      1 + (word_of_nat (length (um_erase (gc_key e) (w_records w))) :: u32)"
    by (metis of_nat_Suc)
  with Some show ?thesis by (simp add: witness_gc_entry_def)
qed

lemma gc_entry_frame:
  "w_master_id (snd (witness_gc_entry e p)) = w_master_id (snd p)"
  "w_accepting (snd (witness_gc_entry e p)) = w_accepting (snd p)"
  by (auto simp: witness_gc_entry_def split: option.splits prod.splits)

lemma gc_fold:
  assumes "witness_inv w"
  shows "witness_inv (snd (fold witness_gc_entry es (n, w)))
    \<and> w_records (snd (fold witness_gc_entry es (n, w))) =
        filter (\<lambda>p. \<not> gc_names es p) (w_records w)
    \<and> fst (fold witness_gc_entry es (n, w))
        + word_of_nat (length (w_records (snd (fold witness_gc_entry es (n, w)))))
        = n + word_of_nat (length (w_records w))"
  using assms
proof (induction es arbitrary: n w)
  case Nil
  then show ?case by (simp add: gc_names_def)
next
  case (Cons e es)
  obtain n1 w1 where st: "witness_gc_entry e (n, w) = (n1, w1)" by fastforce
  have inv1: "witness_inv w1" using gc_entry_inv [OF Cons.prems, of e n] st by simp
  have rs1: "w_records w1 = filter (\<lambda>p. \<not> gc_names [e] p) (w_records w)"
    using gc_entry_records [OF Cons.prems, of e n] st by simp
  have ct1: "n1 + word_of_nat (length (w_records w1)) = n + word_of_nat (length (w_records w))"
    using gc_entry_count [OF Cons.prems, of e n] st by simp
  have "(\<lambda>p. gc_names (e # es) p) = (\<lambda>p. gc_names [e] p \<or> gc_names es p)"
    by (auto simp: gc_names_def fun_eq_iff)
  then have "filter (\<lambda>p. \<not> gc_names (e # es) p) (w_records w)
      = filter (\<lambda>p. \<not> gc_names es p) (w_records w1)"
    unfolding rs1 by (auto intro: filter_cong)
  then show ?case
    using Cons.IH [OF inv1, of n1] st ct1 by auto
qed

lemma witness_gc_records:
  assumes "witness_inv w" and "w_master_id w = [] \<or> m = w_master_id w"
  shows "w_records (snd (witness_garbage_collect w m es)) =
    filter (\<lambda>p. \<not> gc_names es p) (w_records w)"
  using gc_fold [OF assms(1), of es 0] assms(2)
  by (auto simp: witness_garbage_collect_def split: prod.splits)

lemma witness_inv_gc: "witness_inv w \<Longrightarrow> witness_inv (snd (witness_garbage_collect w m es))"
  using gc_fold [of w es 0]
  by (auto simp: witness_garbage_collect_def split: prod.splits)

lemma witness_inv_recover: "witness_inv w \<Longrightarrow> witness_inv (snd (witness_get_recovery_data w m))"
  by (auto simp: witness_get_recovery_data_def)

lemma witness_inv_stop: "witness_inv w \<Longrightarrow> witness_inv (witness_stop_accepting w)"
  by (simp add: witness_stop_accepting_def)

lemmas witness_inv_ops = witness_inv_record witness_inv_gc witness_inv_recover
  witness_inv_stop witness_inv_reset

lemma witness_step_inv: "witness_step w w' \<Longrightarrow> witness_inv w \<Longrightarrow> witness_inv w'"
  by (induction rule: witness_step.induct) (simp_all add: witness_inv_ops)

lemma reachable_inv: "witness_reachable w \<Longrightarrow> witness_inv w"
  by (induction rule: witness_reachable.induct)
    (auto simp: witness_inv_new intro: witness_step_inv)


section \<open>What a client of a witness relies on\<close>

text \<open>
  The contract between a witness and the CURP client and master that use it: which requests a
  store holds after \<open>record\<close>, and that \<open>get_recovery_data\<close> hands out exactly those. The
  in-process witness provides it here; the remote one provides it through its RPC stub in the
  theory of the witness service.
\<close>

locale request_store =
  fixes ok :: "'w \<Rightarrow> bool"
    and saved :: "'w \<Rightarrow> string \<Rightarrow> WitnessRecord option"
    and bound :: "'w \<Rightarrow> string"
    and rec :: "u64 \<Rightarrow> 'w \<Rightarrow> string \<Rightarrow> u64 \<Rightarrow> string \<Rightarrow> bytes \<Rightarrow> u64 \<Rightarrow> RecordResult \<times> 'w"
    and recover :: "'w \<Rightarrow> string \<Rightarrow> WitnessRecord list \<times> 'w"
  assumes ok_rec: "ok w \<Longrightarrow> ok (snd (rec now w m i k d c))"
    and rec_saved: "ok w \<Longrightarrow> rec now w m i k d c = (res, w') \<Longrightarrow>
      saved w' = (if res = ACCEPTED \<and> i \<notin> wr_rpc_id ` ran (saved w)
                  then (saved w)(k \<mapsto> new_WitnessRecord now i k d c) else saved w)"
    and rec_fresh: "ok w \<Longrightarrow> rec now w m i k d c = (ACCEPTED, w') \<Longrightarrow>
      i \<notin> wr_rpc_id ` ran (saved w) \<Longrightarrow> saved w k = None"
    and recover_saved: "ok w \<Longrightarrow> bound w = [] \<or> m = bound w \<Longrightarrow>
      set (fst (recover w m)) = ran (saved w)"
begin

definition traffic :: "(u64 \<times> string \<times> u64 \<times> string \<times> bytes \<times> u64) list \<Rightarrow> 'w \<Rightarrow> 'w" where
  "traffic = fold (\<lambda>(now, m, i, k, d, c) w. snd (rec now w m i k d c))"

lemma rec_keeps:
  assumes "ok w" and "saved w k' = Some r"
  shows "saved (snd (rec now w m i k d c)) k' = Some r"
proof -
  obtain res w' where st: "rec now w m i k d c = (res, w')" by fastforce
  note eff = rec_saved [OF assms(1) st]
  show ?thesis
  proof (cases "res = ACCEPTED \<and> i \<notin> wr_rpc_id ` ran (saved w)")
    case True
    then have "saved w k = None" using rec_fresh [OF assms(1)] st by blast
    then have "k' \<noteq> k" using assms(2) by auto
    moreover have "saved w' = (saved w)(k \<mapsto> new_WitnessRecord now i k d c)"
      unfolding eff if_P [OF True] ..
    ultimately show ?thesis using assms(2) st by simp
  next
    case False
    have "saved w' = saved w" unfolding eff if_not_P [OF False] ..
    then show ?thesis using assms(2) st by simp
  qed
qed

lemma traffic_keeps:
  "ok w \<Longrightarrow> saved w k = Some r \<Longrightarrow> ok (traffic ts w) \<and> saved (traffic ts w) k = Some r"
proof (induction ts arbitrary: w)
  case Nil
  then show ?case by (simp add: traffic_def)
next
  case (Cons t ts)
  obtain now m i k' d c where t: "t = (now, m, i, k', d, c)" by (cases t)
  let ?w = "snd (rec now w m i k' d c)"
  have "ok ?w" and "saved ?w k = Some r"
    using Cons.prems by (simp_all add: ok_rec rec_keeps)
  from Cons.IH [OF this] show ?case by (simp add: traffic_def t)
qed

lemma accepted_saved:
  assumes "ok w" and "rec now w m i k d c = (ACCEPTED, w')"
  shows "\<exists>k' r. saved w' k' = Some r \<and> wr_rpc_id r = i"
proof (cases "i \<in> wr_rpc_id ` ran (saved w)")
  case True
  then have "saved w' = saved w" by (simp add: rec_saved [OF assms])
  moreover obtain r where "r \<in> ran (saved w)" and "wr_rpc_id r = i" using True by blast
  ultimately show ?thesis by (auto simp: ran_def)
next
  case False
  then have "saved w' k = Some (new_WitnessRecord now i k d c)" by (simp add: rec_saved [OF assms])
  moreover have "wr_rpc_id (new_WitnessRecord now i k d c) = i"
    by (simp add: new_WitnessRecord_def)
  ultimately show ?thesis by blast
qed

lemma accepted_recoverable:
  assumes "ok w" and "rec now w m i k d c = (ACCEPTED, w')"
    and "bound (traffic ts w') = [] \<or> m' = bound (traffic ts w')"
  shows "i \<in> wr_rpc_id ` set (fst (recover (traffic ts w') m'))"
proof -
  have ok': "ok w'" using ok_rec [OF assms(1), of now m i k d c] assms(2) by simp
  obtain k' r where sv: "saved w' k' = Some r" and id: "wr_rpc_id r = i"
    using accepted_saved [OF assms(1,2)] by blast
  have okt: "ok (traffic ts w')" and "r \<in> ran (saved (traffic ts w'))"
    using traffic_keeps [OF ok' sv, of ts] by (auto intro: ranI)
  then have "r \<in> set (fst (recover (traffic ts w') m'))"
    by (simp only: recover_saved [OF okt assms(3)])
  with id show ?thesis by (metis image_eqI)
qed

end

lemma witness_ids_ran:
  "witness_inv w \<Longrightarrow> w_rpc_ids w = wr_rpc_id ` ran (um_find (w_records w))"
  unfolding witness_inv_def by (metis image_comp image_set list.map_comp um_values)

interpretation wit: request_store witness_inv "\<lambda>w. um_find (w_records w)" w_master_id
  witness_record witness_get_recovery_data
proof unfold_locales
  fix w now m i k d c
  show "witness_inv w \<Longrightarrow> witness_inv (snd (witness_record now w m i k d c))"
    by (rule witness_inv_record)
next
  fix w now m i k d c res w'
  assume inv: "witness_inv w" and st: "witness_record now w m i k d c = (res, w')"
  show "um_find (w_records w') =
      (if res = ACCEPTED \<and> i \<notin> wr_rpc_id ` ran (um_find (w_records w))
       then (um_find (w_records w))(k \<mapsto> new_WitnessRecord now i k d c)
       else um_find (w_records w))"
  proof (cases "res = ACCEPTED \<and> i \<notin> w_rpc_ids w")
    case True
    with witness_record_records [OF st]
    have "w_records w' = um_put k (new_WitnessRecord now i k d c) (w_records w)"
      by (simp add: um_put_fresh)
    then have "um_find (w_records w') = (um_find (w_records w))(k \<mapsto> new_WitnessRecord now i k d c)"
      by (simp only: um_find_put)
    moreover have "res = ACCEPTED \<and> i \<notin> wr_rpc_id ` ran (um_find (w_records w))"
      using True witness_ids_ran [OF inv] by simp
    ultimately show ?thesis by (simp only: if_True simp_thms)
  next
    case False
    with witness_record_records [OF st] have "w_records w' = w_records w" by metis
    with False show ?thesis by (auto simp flip: witness_ids_ran [OF inv])
  qed
next
  fix w now m i k d c w'
  assume inv: "witness_inv w" and st: "witness_record now w m i k d c = (ACCEPTED, w')"
    and new: "i \<notin> wr_rpc_id ` ran (um_find (w_records w))"
  then show "um_find (w_records w) k = None"
    using witness_record_records(3) [OF st] witness_ids_ran [OF inv] by simp
next
  fix w m
  assume "witness_inv w" and "w_master_id w = [] \<or> m = w_master_id w"
  then show "set (fst (witness_get_recovery_data w m)) = ran (um_find (w_records w))"
    using um_values [of "w_records w"]
    by (auto simp: witness_get_recovery_data_def witness_inv_def)
qed


section \<open>Properties\<close>

text \<open>
  A request the witness has accepted is in the data it hands out for recovery, whatever
  further requests arrive in between and whoever sends them, as long as the recovering master
  gives the identifier the witness is bound to.
\<close>

theorem accepted_request_recoverable:
  assumes "witness_reachable w"
    and "witness_record now w m i k d c = (ACCEPTED, w')"
    and "w2 = fold (\<lambda>(now, m, i, k, d, c) w. snd (witness_record now w m i k d c)) ts w'"
    and "w_master_id w2 = [] \<or> m' = w_master_id w2"
  shows "i \<in> wr_rpc_id ` set (fst (witness_get_recovery_data w2 m'))"
  using wit.accepted_recoverable [OF reachable_inv [OF assms(1)] assms(2), of ts m'] assms(3,4)
  by (simp add: wit.traffic_def)

text \<open>Two further requests arrive, one of them refused because its key is taken.\<close>

theorem accepted_request_recoverable_witness:
  "7 \<in> wr_rpc_id ` set (fst (witness_get_recovery_data
      (fold (\<lambda>(now, m, i, k, d, c) w. snd (witness_record now w m i k d c))
        [(2, ''m'', 8, ''a'', [], 3), (3, ''m'', 9, ''b'', [1], 3)]
        (snd (witness_record 1 (new_Witness []) ''m'' 7 ''a'' [5] 3))) ''m''))"
  by (rule accepted_request_recoverable [where now = 1 and w = "new_Witness []" and m = "''m''"
        and k = "''a''" and d = "[5]" and c = 3
        and w' = "snd (witness_record 1 (new_Witness []) ''m'' 7 ''a'' [5] 3)"
        and ts = "[(2, ''m'', 8, ''a'', [], 3), (3, ''m'', 9, ''b'', [1], 3)]"])
    (rule witness_reachable.wr_start,
      simp_all add: witness_record_def witness_reject_def new_Witness_def kMaxRecords_def)

text \<open>
  C19. The data a witness hands out commutes: no two of the requests concern the same key, no
  two have the same identifier, and there are at most \<open>kMaxRecords\<close> of them.
\<close>

theorem recovery_data_commutes:
  assumes "witness_reachable w" and "rs = fst (witness_get_recovery_data w m)"
  shows "distinct (map wr_key rs) \<and> distinct (map wr_rpc_id rs) \<and> length rs \<le> kMaxRecords"
proof -
  from reachable_inv [OF assms(1)]
  have inv: "um_ok (w_records w)" "distinct (map (wr_rpc_id \<circ> snd) (w_records w))"
    "length (w_records w) \<le> kMaxRecords" "\<forall>p \<in> set (w_records w). wr_key (snd p) = fst p"
    by (auto simp: witness_inv_def)
  then have "map (wr_key \<circ> snd) (w_records w) = map fst (w_records w)" by simp
  then have "distinct (map (wr_key \<circ> snd) (w_records w))" using inv(1) by metis
  with inv assms(2) show ?thesis
    by (auto simp: witness_get_recovery_data_def)
qed

theorem recovery_data_commutes_witness:
  "distinct (map wr_key (fst (witness_get_recovery_data
     (snd (witness_record 1 (new_Witness []) ''m'' 7 ''a'' [5] 3)) ''m'')))"
  by (rule recovery_data_commutes [OF witness_reachable.wr_step
        [OF witness_reachable.wr_start witness_step.ws_record] refl, THEN conjunct1])

text \<open>
  C20. Garbage collection by the bound master removes exactly the requests it names by key and
  identifier and keeps the order of the rest; the 32-bit count it reports is the number of
  requests removed; the identifiers of the removed requests are forgotten with them.
\<close>

theorem garbage_collect_exact:
  assumes "witness_reachable w" and "w_master_id w = [] \<or> m = w_master_id w"
    and "witness_garbage_collect w m es = (n, w')"
  shows "w_records w' =
      filter (\<lambda>(k, r). \<not> (\<exists>e \<in> set es. gc_key e = k \<and> gc_rpc_id e = wr_rpc_id r)) (w_records w)
    \<and> unat n = length (w_records w) - length (w_records w')
    \<and> w_rpc_ids w' = (wr_rpc_id \<circ> snd) ` set (w_records w')"
proof -
  have inv: "witness_inv w" using assms(1) by (rule reachable_inv)
  have inv': "witness_inv w'" using witness_inv_gc [OF inv, of m es] assms(3) by simp
  have rs: "w_records w' = filter (\<lambda>p. \<not> gc_names es p) (w_records w)"
    using witness_gc_records [OF inv assms(2), of es] assms(3) by simp
  have le: "length (w_records w') \<le> length (w_records w)" "length (w_records w) \<le> kMaxRecords"
    using inv rs by (simp_all add: witness_inv_def)
  have "n + word_of_nat (length (w_records w')) = word_of_nat (length (w_records w))"
    using gc_fold [OF inv, of es 0] assms(2,3) rs
    by (auto simp: witness_garbage_collect_def split: prod.splits if_splits)
  then have "n = word_of_nat (length (w_records w) - length (w_records w'))"
    using le by (simp add: of_nat_diff algebra_simps)
  then have "unat n = length (w_records w) - length (w_records w')"
    using le by (simp add: unat_of_nat kMaxRecords_def del: of_nat_diff)
  moreover have "(\<lambda>p. \<not> gc_names es p)
      = (\<lambda>(k, r). \<not> (\<exists>e \<in> set es. gc_key e = k \<and> gc_rpc_id e = wr_rpc_id r))"
    by (auto simp: gc_names_def fun_eq_iff)
  ultimately show ?thesis using rs inv' by (simp add: witness_inv_def)
qed

theorem garbage_collect_exact_witness:
  "fst (witness_garbage_collect
     (snd (witness_record 1 (new_Witness []) ''m'' 7 ''a'' [5] 3)) ''m''
     [\<lparr>gc_key = ''a'', gc_rpc_id = 7\<rparr>, \<lparr>gc_key = ''a'', gc_rpc_id = 7\<rparr>]) = 1"
proof -
  let ?w = "snd (witness_record 1 (new_Witness []) ''m'' 7 ''a'' [5] 3)"
  let ?es = "[\<lparr>gc_key = ''a'', gc_rpc_id = 7\<rparr>, \<lparr>gc_key = ''a'', gc_rpc_id = 7\<rparr>]"
  let ?g = "witness_garbage_collect ?w ''m'' ?es"
  have "w_records (snd ?g) = [] \<and> unat (fst ?g) = 1"
    using garbage_collect_exact [of ?w "''m''" ?es "fst ?g" "snd ?g",
        OF witness_reachable.wr_step [OF witness_reachable.wr_start witness_step.ws_record]]
    by (simp add: witness_record_def new_Witness_def kMaxRecords_def new_WitnessRecord_def)
  then show ?thesis by (metis unat_1 word_unat_eq_iff)
qed

text \<open>
  A stopped witness (one that was asked for recovery data, or told to stop) starts to accept
  requests again through \<open>reset\<close> only, and a reset has dropped every stored request.
\<close>

theorem only_reset_reopens:
  assumes "witness_step w w'" and "\<not> w_accepting w" and "w_accepting w'"
  shows "\<exists>m. w' = witness_reset w m \<and> w_records w' = [] \<and> w_rpc_ids w' = {}"
  using assms
proof (induction rule: witness_step.induct)
  case (ws_gc w m es)
  have "w_accepting (snd (fold witness_gc_entry es p)) = w_accepting (snd p)" for p
    by (induction es arbitrary: p) (auto simp: gc_entry_frame)
  with ws_gc have False
    by (auto simp: witness_garbage_collect_def split: prod.splits if_splits
        dest!: arg_cong [of _ _ snd])
  then show ?case ..
qed (auto simp: witness_op_defs split: if_splits)

theorem only_reset_reopens_witness:
  "\<exists>m. witness_reset (witness_stop_accepting (new_Witness [])) ''n''
     = witness_reset (witness_stop_accepting (new_Witness [])) m"
  using only_reset_reopens [OF witness_step.ws_reset
      [of "witness_stop_accepting (new_Witness [])" "''n''"]]
  by (simp add: witness_stop_accepting_def new_Witness_def witness_reset_def)

lemma oldest_fold:
  "fold (\<lambda>(k, r) oldest. if wr_timestamp r < oldest then wr_timestamp r else oldest) rs t
   = Min (insert t ((wr_timestamp \<circ> snd) ` set rs))"
proof (induction rs arbitrary: t)
  case Nil
  show ?case by simp
next
  case (Cons p rs)
  obtain k r where p: "p = (k, r)" by fastforce
  have "(if wr_timestamp r < t then wr_timestamp r else t) = min t (wr_timestamp r)"
    by (auto simp: min_def)
  with Cons.IH p show ?case
    by (cases "rs = []") (simp_all add: min.assoc)
qed

text \<open>
  The status report is exact: the 32-bit request count is the number of stored requests and
  the oldest timestamp is the least timestamp among them, absent exactly when there is none.
\<close>

theorem status_exact:
  assumes "witness_reachable w"
  shows "unat (st_request_count (witness_get_status w)) = witness_size w
    \<and> st_oldest_timestamp (witness_get_status w) =
        (if witness_size w = 0 then None
         else Some (Min (wr_timestamp ` ran (um_find (w_records w)))))"
proof -
  have inv: "witness_inv w" using assms by (rule reachable_inv)
  then have "length (w_records w) < 2 ^ 32" by (simp add: witness_inv_def kMaxRecords_def)
  then have count: "unat (word_of_nat (length (w_records w)) :: u32) = length (w_records w)"
    by (simp add: unat_of_nat)
  have "(wr_timestamp \<circ> snd) ` set (w_records w) = wr_timestamp ` ran (um_find (w_records w))"
    using inv um_values [of "w_records w"] unfolding witness_inv_def
    by (metis image_comp image_set)
  moreover have "(- 1 :: u64) \<ge> x" for x by (rule word_order.extremum)
  ultimately have "w_records w \<noteq> [] \<Longrightarrow>
      oldest_of (w_records w) = Min (wr_timestamp ` ran (um_find (w_records w)))"
    unfolding oldest_of_def oldest_fold
    by (metis (no_types, lifting) List.finite_set Min_in Min_insert finite_imageI image_is_empty
        min.absorb2 set_empty)
  with count show ?thesis by (simp add: witness_get_status_def witness_size_def)
qed

theorem status_exact_witness:
  "st_oldest_timestamp (witness_get_status
     (snd (witness_record 1 (new_Witness []) ''m'' 7 ''a'' [5] 3))) = Some 1"
proof -
  have "witness_reachable (snd (witness_record 1 (new_Witness []) ''m'' 7 ''a'' [5] 3))"
    by (rule witness_reachable.wr_step [OF witness_reachable.wr_start witness_step.ws_record])
  from status_exact [OF this] show ?thesis
    by (simp add: witness_record_def new_Witness_def kMaxRecords_def new_WitnessRecord_def
        witness_size_def)
qed

end
