(* ===== verification/Witness_Service.thy ===== *)
theory Witness_Service
  imports Witness
begin

text \<open>
  The gRPC service in front of a witness and the stub that clients and masters call
  (\<^verbatim>\<open>include/grpc/witness_service_impl.h\<close>, \<^verbatim>\<open>src/grpc/witness_service_impl.cpp\<close>).
  A service method is a function from the witness and the request to the reply and the new
  witness. What gRPC does with one call is the argument \<open>rpc_outcome\<close> of the stub's methods: the
  call never reaches the server, reaches it but the reply is lost, or completes; in the first
  two cases the status is not OK.
\<close>

section \<open>Messages\<close>

record RecordRequest =
  rq_master_id :: string
  rq_rpc_id :: u64
  rq_key :: string
  rq_request_data :: bytes
  rq_client_id :: u64

record RecordReply =
  rp_accepted :: bool
  rp_reject_reason :: int
  rp_message :: string

record GCRequest =
  gq_master_id :: string
  gq_entries :: "(string \<times> u64) list"

record GCReply =
  gp_success :: bool
  gp_dropped_count :: u32

record SavedRequest =
  sv_rpc_id :: u64
  sv_key :: string
  sv_request_data :: bytes
  sv_client_id :: u64
  sv_timestamp :: u64

record RecoveryData =
  rd_success :: bool
  rd_requests :: "SavedRequest list"

record StopReply =
  sp_success :: bool
  sp_request_count :: u32

record ResetRequest =
  xq_master_id :: string
  xq_new_master_id :: string

record StatusReply =
  tp_master_id :: string
  tp_accepting :: bool
  tp_request_count :: u32
  tp_oldest_timestamp :: u64

section \<open>The service\<close>

definition svc_Record :: "u64 \<Rightarrow> Witness \<Rightarrow> RecordRequest \<Rightarrow> RecordReply \<times> Witness" where
  "svc_Record now w rq =
     (let (result, w') = witness_record now w (rq_master_id rq) (rq_rpc_id rq) (rq_key rq)
                           (rq_request_data rq) (rq_client_id rq)
      in (\<lparr>rp_accepted = (result = ACCEPTED),
           rp_reject_reason =
             (case result of ACCEPTED \<Rightarrow> 0 | REJECTED_NOT_COMMUTATIVE \<Rightarrow> 1
              | REJECTED_NO_SPACE \<Rightarrow> 2 | REJECTED_STOPPED \<Rightarrow> 3 | REJECTED_WRONG_MASTER \<Rightarrow> 4),
           rp_message =
             (case result of ACCEPTED \<Rightarrow> ''accepted'' | REJECTED_NOT_COMMUTATIVE \<Rightarrow> ''key conflict''
              | REJECTED_NO_SPACE \<Rightarrow> ''no space'' | REJECTED_STOPPED \<Rightarrow> ''stopped''
              | REJECTED_WRONG_MASTER \<Rightarrow> ''wrong master'')\<rparr>, w'))"

definition svc_GarbageCollect :: "Witness \<Rightarrow> GCRequest \<Rightarrow> GCReply \<times> Witness" where
  "svc_GarbageCollect w rq =
     (let entries = map (\<lambda>(k, i). \<lparr>gc_key = k, gc_rpc_id = i\<rparr>) (gq_entries rq);
          (dropped, w') = witness_garbage_collect w (gq_master_id rq) entries
      in (\<lparr>gp_success = True, gp_dropped_count = dropped\<rparr>, w'))"

definition svc_GetRecoveryData :: "Witness \<Rightarrow> string \<Rightarrow> RecoveryData \<times> Witness" where
  "svc_GetRecoveryData w master_id =
     (let (records, w') = witness_get_recovery_data w master_id
      in (\<lparr>rd_success = True,
           rd_requests =
             map (\<lambda>r. \<lparr>sv_rpc_id = wr_rpc_id r, sv_key = wr_key r,
                        sv_request_data = wr_request_data r, sv_client_id = wr_client_id r,
                        sv_timestamp = wr_timestamp r\<rparr>) records\<rparr>, w'))"

definition svc_Stop :: "Witness \<Rightarrow> string \<Rightarrow> StopReply \<times> Witness" where
  "svc_Stop w master_id =
     (let w' = witness_stop_accepting w
      in (\<lparr>sp_success = True, sp_request_count = st_request_count (witness_get_status w')\<rparr>, w'))"

definition svc_Reset :: "Witness \<Rightarrow> ResetRequest \<Rightarrow> bool \<times> Witness" where
  "svc_Reset w rq = (True, witness_reset w (xq_new_master_id rq))"

definition svc_GetStatus :: "Witness \<Rightarrow> StatusReply" where
  "svc_GetStatus w =
     (let status = witness_get_status w
      in \<lparr>tp_master_id = st_master_id status, tp_accepting = st_accepting status,
          tp_request_count = st_request_count status,
          tp_oldest_timestamp =
            (case st_oldest_timestamp status of Some t \<Rightarrow> t | None \<Rightarrow> 0)\<rparr>)"

section \<open>The stub\<close>

datatype rpc_outcome = Lost | ReplyLost | Delivered

text \<open>One unary call: \<open>None\<close> stands for a status that is not OK.\<close>

definition rpc_call :: "rpc_outcome \<Rightarrow> ('w \<Rightarrow> 'q \<Rightarrow> 'r \<times> 'w) \<Rightarrow> 'w \<Rightarrow> 'q \<Rightarrow> 'r option \<times> 'w" where
  "rpc_call out f w q =
     (case out of
        Lost \<Rightarrow> (None, w)
      | ReplyLost \<Rightarrow> (None, snd (f w q))
      | Delivered \<Rightarrow> (Some (fst (f w q)), snd (f w q)))"

definition decode_record_reply :: "RecordReply \<Rightarrow> RecordResult" where
  "decode_record_reply rp =
     (if rp_accepted rp then ACCEPTED
      else if rp_reject_reason rp = 1 then REJECTED_NOT_COMMUTATIVE
      else if rp_reject_reason rp = 2 then REJECTED_NO_SPACE
      else if rp_reject_reason rp = 3 then REJECTED_STOPPED
      else if rp_reject_reason rp = 4 then REJECTED_WRONG_MASTER
      else REJECTED_STOPPED)"

definition WitnessClient_record ::
  "rpc_outcome \<Rightarrow> u64 \<Rightarrow> Witness \<Rightarrow> string \<Rightarrow> u64 \<Rightarrow> string \<Rightarrow> bytes \<Rightarrow> u64 \<Rightarrow> RecordResult \<times> Witness"
  where
  "WitnessClient_record out now w master_id rpc_id key data client_id =
     (let rq = \<lparr>rq_master_id = master_id, rq_rpc_id = rpc_id, rq_key = key,
                rq_request_data = data, rq_client_id = client_id\<rparr>;
          (reply, w') = rpc_call out (svc_Record now) w rq
      in ((case reply of None \<Rightarrow> REJECTED_STOPPED | Some rp \<Rightarrow> decode_record_reply rp), w'))"

definition WitnessClient_garbage_collect ::
  "rpc_outcome \<Rightarrow> Witness \<Rightarrow> string \<Rightarrow> GCEntry list \<Rightarrow> u32 \<times> Witness" where
  "WitnessClient_garbage_collect out w master_id entries =
     (let rq = \<lparr>gq_master_id = master_id,
                gq_entries = map (\<lambda>e. (gc_key e, gc_rpc_id e)) entries\<rparr>;
          (reply, w') = rpc_call out svc_GarbageCollect w rq
      in ((case reply of None \<Rightarrow> 0 | Some rp \<Rightarrow> gp_dropped_count rp), w'))"

definition WitnessClient_get_recovery_data ::
  "rpc_outcome \<Rightarrow> Witness \<Rightarrow> string \<Rightarrow> WitnessRecord list \<times> Witness" where
  "WitnessClient_get_recovery_data out w master_id =
     (let (reply, w') = rpc_call out svc_GetRecoveryData w master_id
      in ((case reply of
             None \<Rightarrow> []
           | Some rp \<Rightarrow>
               map (\<lambda>q. \<lparr>wr_rpc_id = sv_rpc_id q, wr_key = sv_key q,
                          wr_request_data = sv_request_data q, wr_client_id = sv_client_id q,
                          wr_timestamp = sv_timestamp q\<rparr>) (rd_requests rp)), w'))"

definition WitnessClient_stop :: "rpc_outcome \<Rightarrow> Witness \<Rightarrow> string \<Rightarrow> bool \<times> Witness" where
  "WitnessClient_stop out w master_id =
     (let (reply, w') = rpc_call out svc_Stop w master_id
      in ((case reply of None \<Rightarrow> False | Some rp \<Rightarrow> sp_success rp), w'))"

definition WitnessClient_reset :: "rpc_outcome \<Rightarrow> Witness \<Rightarrow> string \<Rightarrow> bool \<times> Witness" where
  "WitnessClient_reset out w new_master_id =
     (let rq = \<lparr>xq_master_id = [], xq_new_master_id = new_master_id\<rparr>;
          (reply, w') = rpc_call out svc_Reset w rq
      in ((case reply of None \<Rightarrow> False | Some ok \<Rightarrow> ok), w'))"

text \<open>
  \<open>WitnessClient::get_status\<close>; the value-initialised status it returns when the call fails has
  an empty master, does not accept, counts nothing and has no timestamp.
\<close>

definition WitnessClient_get_status :: "rpc_outcome \<Rightarrow> Witness \<Rightarrow> WitnessStatus" where
  "WitnessClient_get_status out w =
     (case fst (rpc_call out (\<lambda>w (q :: unit). (svc_GetStatus w, w)) w ()) of
        None \<Rightarrow> \<lparr>st_master_id = [], st_accepting = False, st_request_count = 0,
                 st_oldest_timestamp = None\<rparr>
      | Some rp \<Rightarrow>
          \<lparr>st_master_id = tp_master_id rp, st_accepting = tp_accepting rp,
           st_request_count = tp_request_count rp,
           st_oldest_timestamp =
             (if tp_oldest_timestamp rp \<noteq> 0 then Some (tp_oldest_timestamp rp) else None)\<rparr>)"

section \<open>Lemmas\<close>

lemmas stub_defs = rpc_call_def Let_def

lemma remote_record_delivered:
  "WitnessClient_record Delivered now w m i k d c = witness_record now w m i k d c"
  by (auto simp: WitnessClient_record_def svc_Record_def decode_record_reply_def stub_defs
      split: prod.splits RecordResult.splits)

lemma remote_recovery_delivered:
  "WitnessClient_get_recovery_data Delivered w m = witness_get_recovery_data w m"
  by (auto simp: WitnessClient_get_recovery_data_def svc_GetRecoveryData_def stub_defs
      split: prod.splits intro!: map_idI)

lemma remote_gc_delivered:
  "WitnessClient_garbage_collect Delivered w m es = witness_garbage_collect w m es"
proof -
  have "map (\<lambda>(k, i). \<lparr>gc_key = k, gc_rpc_id = i\<rparr>) (map (\<lambda>e. (gc_key e, gc_rpc_id e)) es) = es"
    by (simp add: map_idI)
  then show ?thesis
    by (simp add: WitnessClient_garbage_collect_def svc_GarbageCollect_def stub_defs
        split: prod.splits del: map_map)
qed

text \<open>A status reply has no way to tell a timestamp 0 from an absent one.\<close>

lemma remote_status:
  "WitnessClient_get_status Delivered w = witness_get_status w
   \<longleftrightarrow> st_oldest_timestamp (witness_get_status w) \<noteq> Some 0"
  by (auto simp: WitnessClient_get_status_def svc_GetStatus_def witness_get_status_def stub_defs)

lemma remote_failed:
  assumes "out \<noteq> Delivered"
  shows "WitnessClient_record out now w m i k d c
      = (REJECTED_STOPPED, if out = Lost then w else snd (witness_record now w m i k d c))"
    and "WitnessClient_garbage_collect out w m es
      = (0, if out = Lost then w else snd (witness_garbage_collect w m es))"
    and "WitnessClient_get_recovery_data out w m
      = ([], if out = Lost then w else snd (witness_get_recovery_data w m))"
proof -
  have "map (\<lambda>(k, i). \<lparr>gc_key = k, gc_rpc_id = i\<rparr>) (map (\<lambda>e. (gc_key e, gc_rpc_id e)) es) = es"
    by (simp add: map_idI)
  with assms show "WitnessClient_garbage_collect out w m es
      = (0, if out = Lost then w else snd (witness_garbage_collect w m es))"
    by (cases out) (simp_all add: WitnessClient_garbage_collect_def svc_GarbageCollect_def stub_defs split_beta
        del: map_map)
qed (use assms in \<open>cases out; simp add: WitnessClient_record_def svc_Record_def WitnessClient_get_recovery_data_def
    svc_GetRecoveryData_def stub_defs split_beta\<close>)+

text \<open>The stub provides the same contract as the witness behind it.\<close>

interpretation rwit: request_store witness_inv "\<lambda>w. um_find (w_records w)" w_master_id
  "WitnessClient_record Delivered" "WitnessClient_get_recovery_data Delivered"
  using wit.request_store_axioms
  by (simp add: remote_record_delivered [abs_def] remote_recovery_delivered [abs_def])

section \<open>Properties\<close>

text \<open>
  C37. The stub is transparent: when a call completes, recording, garbage collection, recovery, stopping and
  resetting through the service return what the witness itself returns (\<open>true\<close> where it returns
  nothing) and leave it in the same state; every reason for a refusal survives its numeric encoding. The
  status is the witness's own exactly when its oldest request is not stamped 0, since the reply cannot tell
  a timestamp 0 from none. A call that fails looks like a refusal, a count of 0, no records or \<open>false\<close>; the witness
  is unchanged when the request was lost and changed as by the call when only the reply was.
\<close>

theorem stub_transparent:
  "WitnessClient_record Delivered now w m i k d c = witness_record now w m i k d c
   \<and> WitnessClient_garbage_collect Delivered w m es = witness_garbage_collect w m es
   \<and> WitnessClient_get_recovery_data Delivered w m = witness_get_recovery_data w m
   \<and> WitnessClient_stop Delivered w m = (True, witness_stop_accepting w)
   \<and> WitnessClient_reset Delivered w m' = (True, witness_reset w m')
   \<and> (WitnessClient_get_status Delivered w = witness_get_status w
        \<longleftrightarrow> st_oldest_timestamp (witness_get_status w) \<noteq> Some 0)
   \<and> (out = Delivered \<or>
        (let kept = (\<lambda>v. if out = Lost then w else v) in
         WitnessClient_record out now w m i k d c = (REJECTED_STOPPED, kept (snd (witness_record now w m i k d c)))
       \<and> WitnessClient_garbage_collect out w m es = (0, kept (snd (witness_garbage_collect w m es)))
       \<and> WitnessClient_get_recovery_data out w m = ([], kept (snd (witness_get_recovery_data w m)))
       \<and> WitnessClient_stop out w m = (False, kept (witness_stop_accepting w))
       \<and> WitnessClient_reset out w m' = (False, kept (witness_reset w m'))))"
proof -
  have stop: "WitnessClient_stop out w m =
      (out = Delivered, if out = Lost then w else witness_stop_accepting w)" for out
    by (cases out) (simp_all add: WitnessClient_stop_def svc_Stop_def stub_defs)
  have reset: "WitnessClient_reset out w m' =
      (out = Delivered, if out = Lost then w else witness_reset w m')" for out
    by (cases out) (simp_all add: WitnessClient_reset_def svc_Reset_def stub_defs)
  show ?thesis
    by (cases "out = Delivered")
      (simp_all add: remote_record_delivered remote_gc_delivered remote_recovery_delivered remote_status
        remote_failed stop reset Let_def)
qed

text \<open>
  Whatever the network does, a client that is told ACCEPTED can rely on it: the request is
  in the recovery data of the remote witness after any further recorded requests.
\<close>

theorem remote_accept_durable:
  assumes "witness_reachable w"
    and "WitnessClient_record out now w m i k d c = (ACCEPTED, w')"
    and "w2 = fold (\<lambda>(now, m, i, k, d, c) w. snd (WitnessClient_record Delivered now w m i k d c)) ts w'"
    and "w_master_id w2 = [] \<or> m' = w_master_id w2"
  shows "i \<in> wr_rpc_id ` set (fst (WitnessClient_get_recovery_data Delivered w2 m'))"
proof -
  have "out = Delivered"
    using assms(2)
    by (cases out) (auto simp: WitnessClient_record_def stub_defs split: prod.splits)
  with assms(2) have "WitnessClient_record Delivered now w m i k d c = (ACCEPTED, w')" by simp
  from rwit.accepted_recoverable [OF reachable_inv [OF assms(1)] this, of ts m'] assms(3,4)
  show ?thesis by (simp add: rwit.traffic_def)
qed

theorem remote_accept_durable_witness:
  "7 \<in> wr_rpc_id ` set (fst (WitnessClient_get_recovery_data Delivered
      (fold (\<lambda>(now, m, i, k, d, c) w. snd (WitnessClient_record Delivered now w m i k d c))
        [(2, ''m'', 8, ''a'', [], 3)]
        (snd (witness_record 1 (new_Witness []) ''m'' 7 ''a'' [5] 3))) ''m''))"
  by (rule remote_accept_durable [where now = 1 and w = "new_Witness []" and m = "''m''"
        and k = "''a''" and d = "[5]" and c = 3 and out = Delivered
        and w' = "snd (witness_record 1 (new_Witness []) ''m'' 7 ''a'' [5] 3)"
        and ts = "[(2, ''m'', 8, ''a'', [], 3)]"])
    (rule witness_reachable.wr_start,
      simp_all add: remote_record_delivered witness_record_def witness_reject_def
        new_Witness_def kMaxRecords_def)

end
