(* ===== verification/Entry_Codec.thy ===== *)
theory Entry_Codec
  imports Prelude
begin

text \<open>
  The protobuf message \<open>raft.Entry\<close> as the generated code reads and writes it
  (\<^verbatim>\<open>proto/raft.proto\<close>, \<^verbatim>\<open>proto/raft.pb.cc\<close>): which fields are written, with which tags, in
  which order, and how the parse loop dispatches on the tag. The protobuf runtime the generated
  code calls is not part of the repository; it is the parameter \<open>wire_ops\<close>, with what the wire
  format promises about it in \<open>wire_ok\<close>. A concrete base-128 varint implementation at the end
  shows that the promises can be kept.
\<close>

section \<open>The message and the runtime\<close>

record Entry =
  e_seq :: u64
  e_term :: int
  e_key :: bytes
  e_value :: bytes
  e_unknown :: bytes

definition default_Entry :: Entry where
  "default_Entry = \<lparr>e_seq = 0, e_term = 0, e_key = [], e_value = [], e_unknown = []\<rparr>"

text \<open>
  A reader returns the value it assigns and the rest of the input, \<open>None\<close> for a null pointer.
\<close>

record wire_ops =
  wr_int64 :: "nat \<Rightarrow> u64 \<Rightarrow> bytes"
  wr_int32 :: "nat \<Rightarrow> u32 \<Rightarrow> bytes"
  wr_string :: "nat \<Rightarrow> bytes \<Rightarrow> bytes"
  wr_bytes :: "nat \<Rightarrow> bytes \<Rightarrow> bytes"
  wr_unknown :: "bytes \<Rightarrow> bytes"
  rd_tag :: "bytes \<Rightarrow> (u32 \<times> bytes) option"
  rd_varint64 :: "bytes \<Rightarrow> u64 \<times> bytes option"
  rd_varint32 :: "bytes \<Rightarrow> u32 \<times> bytes option"
  rd_string :: "bytes \<Rightarrow> bytes \<times> bytes option"
  utf8_ok :: "bytes \<Rightarrow> bool"
  skip_field :: "u32 \<Rightarrow> bytes \<Rightarrow> bytes \<Rightarrow> (bytes \<times> bytes) option"

definition wire_ok :: "wire_ops \<Rightarrow> bool" where
  "wire_ok W \<longleftrightarrow>
     (\<forall>n v r. 1 \<le> n \<and> n \<le> 15 \<longrightarrow> (\<exists>b. rd_tag W (wr_int64 W n v @ r) = Some (word_of_nat (8 * n), b)
        \<and> rd_varint64 W b = (v, Some r)))
   \<and> (\<forall>n v r. 1 \<le> n \<and> n \<le> 15 \<longrightarrow> (\<exists>b. rd_tag W (wr_int32 W n v @ r) = Some (word_of_nat (8 * n), b)
        \<and> rd_varint32 W b = (v, Some r)))
   \<and> (\<forall>n s r. 1 \<le> n \<and> n \<le> 15 \<and> length s < 2 ^ 31 \<longrightarrow>
        (\<exists>b. rd_tag W (wr_string W n s @ r) = Some (word_of_nat (8 * n + 2), b)
        \<and> rd_string W b = (s, Some r)))
   \<and> (\<forall>n s r. 1 \<le> n \<and> n \<le> 15 \<and> length s < 2 ^ 31 \<longrightarrow>
        (\<exists>b. rd_tag W (wr_bytes W n s @ r) = Some (word_of_nat (8 * n + 2), b)
        \<and> rd_string W b = (s, Some r)))
   \<and> (\<forall>bs t r. rd_tag W bs = Some (t, r) \<longrightarrow> length r < length bs)
   \<and> (\<forall>bs v r. rd_varint64 W bs = (v, Some r) \<longrightarrow> length r \<le> length bs)
   \<and> (\<forall>bs v r. rd_varint32 W bs = (v, Some r) \<longrightarrow> length r \<le> length bs)
   \<and> (\<forall>bs s r. rd_string W bs = (s, Some r) \<longrightarrow> length r \<le> length bs)
   \<and> (\<forall>t u bs u' r. skip_field W t u bs = Some (u', r) \<longrightarrow> length r \<le> length bs)"

section \<open>The generated code\<close>

definition entry_serialize :: "wire_ops \<Rightarrow> Entry \<Rightarrow> bytes" where
  "entry_serialize W e =
     (if e_seq e \<noteq> 0 then wr_int64 W 1 (e_seq e) else [])
   @ (if e_term e \<noteq> 0 then wr_int32 W 2 (word_of_int (e_term e)) else [])
   @ (if e_key e \<noteq> [] then wr_string W 3 (e_key e) else [])
   @ (if e_value e \<noteq> [] then wr_bytes W 4 (e_value e) else [])
   @ (if e_unknown e \<noteq> [] then wr_unknown W (e_unknown e) else [])"

text \<open>
  One round of the parse loop: \<open>Inl\<close> ends the loop with the message as it stands and whether
  the input was well-formed, \<open>Inr\<close> goes on with the rest of the input.
\<close>

definition entry_parse_field ::
  "wire_ops \<Rightarrow> u32 \<Rightarrow> bytes \<Rightarrow> Entry \<Rightarrow> (Entry \<times> bool) + (Entry \<times> bytes)" where
  "entry_parse_field W tag bs e =
     (let field = drop_bit 3 tag; low = (ucast tag :: u8) in
      if field = 1 \<and> low = 8 then
        (let (v, p) = rd_varint64 W bs; e' = e\<lparr>e_seq := v\<rparr>
         in case p of None \<Rightarrow> Inl (e', False) | Some r \<Rightarrow> Inr (e', r))
      else if field = 2 \<and> low = 16 then
        (let (v, p) = rd_varint32 W bs; e' = e\<lparr>e_term := to_i32 (uint v)\<rparr>
         in case p of None \<Rightarrow> Inl (e', False) | Some r \<Rightarrow> Inr (e', r))
      else if field = 3 \<and> low = 26 then
        (let (s, p) = rd_string W bs; e' = e\<lparr>e_key := s\<rparr>
         in case p of None \<Rightarrow> Inl (e', False)
            | Some r \<Rightarrow> if utf8_ok W s then Inr (e', r) else Inl (e', False))
      else if field = 4 \<and> low = 34 then
        (let (s, p) = rd_string W bs; e' = e\<lparr>e_value := s\<rparr>
         in case p of None \<Rightarrow> Inl (e', False) | Some r \<Rightarrow> Inr (e', r))
      else if tag = 0 \<or> take_bit 3 tag = 4 then Inl (e, False)
      else case skip_field W tag (e_unknown e) bs of
             None \<Rightarrow> Inl (e, False)
           | Some (u, r) \<Rightarrow> Inr (e\<lparr>e_unknown := u\<rparr>, r))"

fun entry_parse_loop :: "nat \<Rightarrow> wire_ops \<Rightarrow> bytes \<Rightarrow> Entry \<Rightarrow> Entry \<times> bool" where
  "entry_parse_loop 0 W bs e = (e, False)"
| "entry_parse_loop (Suc fuel) W bs e =
     (if bs = [] then (e, True)
      else case rd_tag W bs of
             None \<Rightarrow> (e, False)
           | Some (tag, bs1) \<Rightarrow>
               (case entry_parse_field W tag bs1 e of
                  Inl res \<Rightarrow> res
                | Inr (e', r) \<Rightarrow> entry_parse_loop fuel W r e'))"

text \<open>
  \<open>ParseFromArray\<close>: clear, then parse. Every round consumes the tag, so one unit of fuel per
  byte and one for the final test are enough (\<open>entry_parse_fuel\<close> below).
\<close>

definition entry_parse_from :: "wire_ops \<Rightarrow> bytes \<Rightarrow> Entry \<Rightarrow> Entry \<times> bool" where
  "entry_parse_from W bs e = entry_parse_loop (Suc (length bs)) W bs e"

definition entry_parse :: "wire_ops \<Rightarrow> bytes \<Rightarrow> Entry \<times> bool" where
  "entry_parse W bs = entry_parse_from W bs default_Entry"

definition entry_ok :: "wire_ops \<Rightarrow> Entry \<Rightarrow> bool" where
  "entry_ok W e \<longleftrightarrow>
     - (2 ^ 31) \<le> e_term e \<and> e_term e < 2 ^ 31 \<and> utf8_ok W (e_key e)
   \<and> length (e_key e) < 2 ^ 31 \<and> length (e_value e) < 2 ^ 31 \<and> e_unknown e = []"

section \<open>Lemmas\<close>

lemma entry_parse_field_shorter:
  assumes "wire_ok W" and "entry_parse_field W tag bs e = Inr (e', r)"
  shows "length r \<le> length bs"
  using assms
  by (auto simp: entry_parse_field_def wire_ok_def Let_def split: if_splits prod.splits option.splits)

lemma entry_parse_fuel:
  assumes "wire_ok W" and "length bs < fuel"
  shows "entry_parse_loop fuel W bs e = entry_parse_loop (Suc (length bs)) W bs e"
  using assms(2)
proof (induction fuel arbitrary: bs e rule: less_induct)
  case (less fuel)
  obtain f where f: "fuel = Suc f" using less.prems by (cases fuel) auto
  show ?case
  proof (cases "bs = [] \<or> rd_tag W bs = None")
    case True
    then show ?thesis by (auto simp: f)
  next
    case False
    then obtain tag bs1 where tag: "rd_tag W bs = Some (tag, bs1)" by auto
    then have len1: "length bs1 < length bs" using assms(1) by (auto simp: wire_ok_def)
    show ?thesis
    proof (cases "entry_parse_field W tag bs1 e")
      case (Inl res)
      with False tag show ?thesis by (simp add: f)
    next
      case (Inr p)
      obtain e' r where p: "p = (e', r)" by fastforce
      have len: "length r < length bs"
        using entry_parse_field_shorter [OF assms(1)] Inr p len1 by fastforce
      have "entry_parse_loop f W r e' = entry_parse_loop (Suc (length r)) W r e'"
        using less.IH [of f r e'] len less.prems f by simp
      moreover have "entry_parse_loop (length bs) W r e' = entry_parse_loop (Suc (length r)) W r e'"
        using less.IH [of "length bs" r e'] len less.prems by simp
      ultimately show ?thesis using False tag Inr p by (simp add: f)
    qed
  qed
qed

text \<open>The promises of the runtime, one by one.\<close>

lemma wire_int64D:
  "wire_ok W \<Longrightarrow> 1 \<le> n \<Longrightarrow> n \<le> 15 \<Longrightarrow>
    \<exists>b. rd_tag W (wr_int64 W n v @ r) = Some (word_of_nat (8 * n), b) \<and> rd_varint64 W b = (v, Some r)"
  unfolding wire_ok_def by simp

lemma wire_int32D:
  "wire_ok W \<Longrightarrow> 1 \<le> n \<Longrightarrow> n \<le> 15 \<Longrightarrow>
    \<exists>b. rd_tag W (wr_int32 W n v @ r) = Some (word_of_nat (8 * n), b) \<and> rd_varint32 W b = (v, Some r)"
  unfolding wire_ok_def by simp

lemma wire_stringD:
  "wire_ok W \<Longrightarrow> 1 \<le> n \<Longrightarrow> n \<le> 15 \<Longrightarrow> length s < 2 ^ 31 \<Longrightarrow>
    \<exists>b. rd_tag W (wr_string W n s @ r) = Some (word_of_nat (8 * n + 2), b) \<and> rd_string W b = (s, Some r)"
  unfolding wire_ok_def by simp

lemma wire_bytesD:
  "wire_ok W \<Longrightarrow> 1 \<le> n \<Longrightarrow> n \<le> 15 \<Longrightarrow> length s < 2 ^ 31 \<Longrightarrow>
    \<exists>b. rd_tag W (wr_bytes W n s @ r) = Some (word_of_nat (8 * n + 2), b) \<and> rd_string W b = (s, Some r)"
  unfolding wire_ok_def by simp

lemma wire_tag_shorter: "wire_ok W \<Longrightarrow> rd_tag W bs = Some (t, r) \<Longrightarrow> length r < length bs"
  unfolding wire_ok_def by simp

lemma parse_from_Nil: "entry_parse_from W [] e = (e, True)"
  by (simp add: entry_parse_from_def)

lemma parse_round:
  assumes "wire_ok W" and "rd_tag W bs = Some (tag, b)"
    and "entry_parse_field W tag b e = Inr (e', r)"
  shows "entry_parse_from W bs e = entry_parse_from W r e'"
proof -
  have "length b < length bs" and "length r \<le> length b"
    using wire_tag_shorter entry_parse_field_shorter assms by blast+
  then have "bs \<noteq> []" and "entry_parse_loop (length bs) W r e' = entry_parse_loop (Suc (length r)) W r e'"
    using entry_parse_fuel [OF assms(1), of r "length bs" e'] by auto
  then show ?thesis using assms(2,3) by (simp add: entry_parse_from_def)
qed

text \<open>Reading back each of the four fields, present or left out because it has its default.\<close>

lemma parse_seq:
  assumes "wire_ok W" and "e_seq e = 0"
  shows "entry_parse_from W ((if v \<noteq> 0 then wr_int64 W 1 v else []) @ r) e
    = entry_parse_from W r (e\<lparr>e_seq := v\<rparr>)"
proof (cases "v = 0")
  case False
  obtain b where tag: "rd_tag W (wr_int64 W 1 v @ r) = Some (8, b)"
      and val: "rd_varint64 W b = (v, Some r)"
    using wire_int64D [OF assms(1), of 1 v r] by auto
  from val have "entry_parse_field W 8 b e = Inr (e\<lparr>e_seq := v\<rparr>, r)"
    by (simp add: entry_parse_field_def)
  from parse_round [OF assms(1) tag this] False show ?thesis by simp
qed (use assms(2) in \<open>cases e, simp\<close>)

lemma i32_uint_word: "- (2 ^ 31) \<le> t \<Longrightarrow> t < 2 ^ 31 \<Longrightarrow> to_i32 (uint (word_of_int t :: u32)) = t"
  unfolding to_i32_def
  by (simp add: uint_word_of_int mod_add_left_eq)

lemma parse_term:
  assumes "wire_ok W" and "- (2 ^ 31) \<le> t" "t < 2 ^ 31" and "e_term e = 0"
  shows "entry_parse_from W ((if t \<noteq> 0 then wr_int32 W 2 (word_of_int t) else []) @ r) e
    = entry_parse_from W r (e\<lparr>e_term := t\<rparr>)"
proof (cases "t = 0")
  case False
  obtain b where tag: "rd_tag W (wr_int32 W 2 (word_of_int t) @ r) = Some (16, b)"
      and val: "rd_varint32 W b = (word_of_int t, Some r)"
    using wire_int32D [OF assms(1), of 2 "word_of_int t" r] by auto
  from val have "entry_parse_field W 16 b e = Inr (e\<lparr>e_term := t\<rparr>, r)"
    using i32_uint_word [OF assms(2,3)] by (simp add: entry_parse_field_def)
  from parse_round [OF assms(1) tag this] False show ?thesis by simp
qed (use assms(4) in \<open>cases e, simp\<close>)

lemma parse_key:
  assumes "wire_ok W" and "length s < 2 ^ 31" and "utf8_ok W s" and "e_key e = []"
  shows "entry_parse_from W ((if s \<noteq> [] then wr_string W 3 s else []) @ r) e
    = entry_parse_from W r (e\<lparr>e_key := s\<rparr>)"
proof (cases "s = []")
  case False
  obtain b where tag: "rd_tag W (wr_string W 3 s @ r) = Some (26, b)"
      and val: "rd_string W b = (s, Some r)"
    using wire_stringD [OF assms(1), of 3 s r] assms(2) by auto
  from val have "entry_parse_field W 26 b e = Inr (e\<lparr>e_key := s\<rparr>, r)"
    using assms(3) by (simp add: entry_parse_field_def)
  from parse_round [OF assms(1) tag this] False show ?thesis by simp
qed (use assms(4) in \<open>cases e, simp\<close>)

lemma parse_value:
  assumes "wire_ok W" and "length s < 2 ^ 31" and "e_value e = []"
  shows "entry_parse_from W ((if s \<noteq> [] then wr_bytes W 4 s else []) @ r) e
    = entry_parse_from W r (e\<lparr>e_value := s\<rparr>)"
proof (cases "s = []")
  case False
  obtain b where tag: "rd_tag W (wr_bytes W 4 s @ r) = Some (34, b)"
      and val: "rd_string W b = (s, Some r)"
    using wire_bytesD [OF assms(1), of 4 s r] assms(2) by auto
  from val have "entry_parse_field W 34 b e = Inr (e\<lparr>e_value := s\<rparr>, r)"
    by (simp add: entry_parse_field_def)
  from parse_round [OF assms(1) tag this] False show ?thesis by simp
qed (use assms(3) in \<open>cases e, simp\<close>)

lemma parse_serialized:
  assumes "wire_ok W" and "entry_ok W e"
  shows "entry_parse W (entry_serialize W e) = (e, True)"
proof -
  have ok: "- (2 ^ 31) \<le> e_term e" "e_term e < 2 ^ 31" "utf8_ok W (e_key e)"
    "length (e_key e) < 2 ^ 31" "length (e_value e) < 2 ^ 31" "e_unknown e = []"
    using assms(2) by (simp_all add: entry_ok_def)
  have "entry_parse W (entry_serialize W e)
      = entry_parse_from W [] \<lparr>e_seq = e_seq e, e_term = e_term e, e_key = e_key e,
          e_value = e_value e, e_unknown = []\<rparr>"
    unfolding entry_parse_def entry_serialize_def
    using parse_seq [OF assms(1), where e = default_Entry]
      parse_term [OF assms(1) ok(1,2)] parse_key [OF assms(1) ok(4,3)]
      parse_value [OF assms(1) ok(5), where r = "[]", unfolded append_Nil2] ok(6)
    by (simp add: default_Entry_def del: One_nat_def)
  with ok(6) show ?thesis by (simp add: parse_from_Nil)
qed

section \<open>A concrete runtime\<close>

text \<open>
  Base-128 varints and length-delimited strings, as the protobuf encoding describes them: the
  promises of \<open>wire_ok\<close> hold for this instance.
\<close>

fun varint :: "nat \<Rightarrow> bytes" where
  "varint n = (if n < 128 then [word_of_nat n] else word_of_nat (128 + n mod 128) # varint (n div 128))"

declare varint.simps [simp del]

fun unvarint :: "bytes \<Rightarrow> (nat \<times> bytes) option" where
  "unvarint [] = None"
| "unvarint (b # bs) =
     (if unat b < 128 then Some (unat b, bs)
      else map_option (\<lambda>(v, r). (unat b - 128 + 128 * v, r)) (unvarint bs))"

definition std_wire :: wire_ops where
  "std_wire = \<lparr>
     wr_int64 = (\<lambda>n v. varint (8 * n) @ varint (unat v)),
     wr_int32 = (\<lambda>n v. varint (8 * n) @ varint (unat (scast v :: u64))),
     wr_string = (\<lambda>n s. varint (8 * n + 2) @ varint (length s) @ s),
     wr_bytes = (\<lambda>n s. varint (8 * n + 2) @ varint (length s) @ s),
     wr_unknown = (\<lambda>u. u),
     rd_tag = (\<lambda>bs. map_option (\<lambda>(v, r). (word_of_nat v, r)) (unvarint bs)),
     rd_varint64 = (\<lambda>bs. case unvarint bs of None \<Rightarrow> (0, None) | Some (v, r) \<Rightarrow> (word_of_nat v, Some r)),
     rd_varint32 = (\<lambda>bs. case unvarint bs of None \<Rightarrow> (0, None) | Some (v, r) \<Rightarrow> (word_of_nat v, Some r)),
     rd_string = (\<lambda>bs. case unvarint bs of None \<Rightarrow> ([], None)
       | Some (l, r) \<Rightarrow> if l \<le> length r then (take l r, Some (drop l r)) else ([], None)),
     utf8_ok = (\<lambda>s. \<forall>b \<in> set s. b < 128),
     skip_field = (\<lambda>t u bs. None)\<rparr>"

lemma varint_small: "n < 128 \<Longrightarrow> varint n = [word_of_nat n]"
  by (simp add: varint.simps)

lemma unvarint_varint: "unvarint (varint n @ r) = Some (n, r)"
proof (induction n rule: varint.induct)
  case (1 n)
  show ?case
  proof (cases "n < 128")
    case True
    then have "unat (word_of_nat n :: u8) = n" by (simp add: unat_of_nat)
    with True show ?thesis by (subst varint.simps) simp
  next
    case False
    have "128 + n mod 128 < 256" by simp
    then have "unat (word_of_nat (128 + n mod 128) :: u8) = 128 + n mod 128"
      by (simp add: unat_of_nat del: of_nat_add)
    with False "1.IH" show ?thesis by (subst varint.simps) (simp del: of_nat_add)
  qed
qed

lemma unvarint_shorter: "unvarint bs = Some (v, r) \<Longrightarrow> length r < length bs"
  by (induction bs arbitrary: v) (auto split: if_splits)

lemma sign_extended_low: "ucast (scast v :: u64) = (v :: u32)"
proof (rule bit_word_eqI)
  fix n assume "n < LENGTH(32)"
  then have "n < 31 \<or> n = 31" by auto
  then show "bit (ucast (scast v :: u64) :: u32) n = bit v n"
    by (auto simp: bit_unsigned_iff bit_signed_iff min_def not_le)
qed

lemma std_wire_ok: "wire_ok std_wire"
  unfolding wire_ok_def std_wire_def
  by (auto simp: unvarint_varint sign_extended_low
      dest!: unvarint_shorter split: option.splits prod.splits if_splits)

end
