(* ===== verification/LogVec.thy ===== *)
theory LogVec
  imports Entry_Codec
begin

text \<open>
  The persistent log (\<^verbatim>\<open>include/storage/log_vec.h\<close>, \<^verbatim>\<open>src/storage/log_vec.cpp\<close>): entries are
  serialised one after the other into a data file, and a meta file holds the 64-bit offset at
  which each of them starts. The file object is \<open>tiny_lsm::FileObj\<close>, a git submodule that is
  not part of the repository; it is the parameter \<open>store_env\<close> (together with the protobuf
  runtime), with its documented behaviour in \<open>file_ok\<close>. A failed assertion and an exception are
  the value \<open>None\<close>. The representation predicate \<open>logvec_rep\<close> relates the two files to the list
  of entries they hold, and the locale \<open>entry_log\<close> is the contract Raft relies on.
\<close>

section \<open>The environment\<close>

record 'f store_env =
  f_open :: "string \<Rightarrow> bool \<Rightarrow> 'f"
  f_exists :: "string \<Rightarrow> bool"
  f_size :: "'f \<Rightarrow> nat"
  f_append :: "'f \<Rightarrow> bytes \<Rightarrow> 'f"
  f_read_to_slice :: "'f \<Rightarrow> nat \<Rightarrow> nat \<Rightarrow> bytes"
  f_read_uint64 :: "'f \<Rightarrow> nat \<Rightarrow> u64"
  f_truncate :: "'f \<Rightarrow> nat \<Rightarrow> 'f"
  f_sync :: "'f \<Rightarrow> 'f"
  f_content :: "'f \<Rightarrow> bytes"
  e_wire :: wire_ops

text \<open>
  \<open>f_content\<close> is the contents a file object stands for; no definition below reads it.
\<close>

definition file_ok :: "'f store_env \<Rightarrow> bool" where
  "file_ok E \<longleftrightarrow>
     (\<forall>f. f_size E f = length (f_content E f))
   \<and> (\<forall>f bs. f_content E (f_append E f bs) = f_content E f @ bs)
   \<and> (\<forall>f off n. off + n \<le> length (f_content E f) \<longrightarrow>
        f_read_to_slice E f off n = take n (drop off (f_content E f)))
   \<and> (\<forall>f off. off + 8 \<le> length (f_content E f) \<longrightarrow>
        f_read_uint64 E f off = word_of_nat (le_val (take 8 (drop off (f_content E f)))))
   \<and> (\<forall>f n. n \<le> length (f_content E f) \<longrightarrow> f_content E (f_truncate E f n) = take n (f_content E f))
   \<and> (\<forall>f. f_content E (f_sync E f) = f_content E f)"

record 'f LogVec =
  lv_dir :: string
  lv_data_path :: string
  lv_meta_path :: string
  lv_data_file :: 'f
  lv_meta_file :: 'f
  lv_entry_count :: nat

section \<open>Operations\<close>

definition path_join :: "string \<Rightarrow> string \<Rightarrow> string" where
  "path_join dir name = (if last dir = CHR ''/'' then dir @ name else dir @ ''/'' @ name)"

definition get_data_path :: "string \<Rightarrow> string" where
  "get_data_path dir = (if dir = [] then ''log.data'' else path_join dir ''log.data'')"

definition get_meta_path :: "string \<Rightarrow> string" where
  "get_meta_path dir = (if dir = [] then ''meta.data'' else path_join dir ''meta.data'')"

definition new_LogVec :: "'f store_env \<Rightarrow> string \<Rightarrow> 'f LogVec" where
  "new_LogVec E dir =
     (let data_path = get_data_path dir; meta_path = get_meta_path dir;
          need_create = (\<not> f_exists E data_path \<or> \<not> f_exists E meta_path);
          data_file = f_open E data_path need_create;
          meta_file = f_open E meta_path need_create
      in \<lparr>lv_dir = dir, lv_data_path = data_path, lv_meta_path = meta_path,
          lv_data_file = data_file, lv_meta_file = meta_file,
          lv_entry_count = f_size E meta_file div 8\<rparr>)"

definition encode_entry :: "'f store_env \<Rightarrow> Entry \<Rightarrow> bytes" where
  "encode_entry E e = entry_serialize (e_wire E) e"

definition decode_entry :: "'f store_env \<Rightarrow> bytes \<Rightarrow> Entry" where
  "decode_entry E buf = fst (entry_parse (e_wire E) buf)"

definition logvec_push_back :: "'f store_env \<Rightarrow> 'f LogVec \<Rightarrow> Entry \<Rightarrow> 'f LogVec" where
  "logvec_push_back E lv value =
     (let buf = encode_entry E value;
          offset = (word_of_nat (f_size E (lv_data_file lv)) :: u64)
      in lv\<lparr>lv_data_file := f_append E (lv_data_file lv) buf,
            lv_meta_file := f_append E (lv_meta_file lv) (le_bytes 8 (unat offset)),
            lv_entry_count := lv_entry_count lv + 1\<rparr>)"

definition get_offset :: "'f store_env \<Rightarrow> 'f LogVec \<Rightarrow> nat \<Rightarrow> u64" where
  "get_offset E lv idx = f_read_uint64 E (lv_meta_file lv) (idx * 8)"

definition logvec_index :: "'f store_env \<Rightarrow> 'f LogVec \<Rightarrow> nat \<Rightarrow> Entry option" where
  "logvec_index E lv idx =
     (if idx < lv_entry_count lv then
        let offset = get_offset E lv idx;
            next_offset = (if idx + 1 < lv_entry_count lv then get_offset E lv (idx + 1)
                           else word_of_nat (f_size E (lv_data_file lv)));
            len = next_offset - offset;
            buf = f_read_to_slice E (lv_data_file lv) (unat offset) (unat len)
        in Some (decode_entry E buf)
      else None)"

definition logvec_size :: "'f LogVec \<Rightarrow> nat" where
  "logvec_size lv = lv_entry_count lv"

definition logvec_sync :: "'f store_env \<Rightarrow> 'f LogVec \<Rightarrow> 'f LogVec" where
  "logvec_sync E lv =
     lv\<lparr>lv_data_file := f_sync E (lv_data_file lv), lv_meta_file := f_sync E (lv_meta_file lv)\<rparr>"

definition logvec_truncate_from :: "'f store_env \<Rightarrow> 'f LogVec \<Rightarrow> nat \<Rightarrow> 'f LogVec" where
  "logvec_truncate_from E lv idx =
     (if lv_entry_count lv \<le> idx then lv
      else
        let new_data_size = (if 0 < idx then get_offset E lv idx else 0)
        in lv\<lparr>lv_data_file := f_truncate E (lv_data_file lv) (unat new_data_size),
              lv_meta_file := f_truncate E (lv_meta_file lv) (idx * 8),
              lv_entry_count := idx\<rparr>)"

section \<open>Iterators\<close>

text \<open>
  An iterator keeps a pointer to its log; all iterators here are into one log, which is an
  argument of the operations that read it, so two of them are equal when their indices are.
\<close>

record LogVecIterator =
  it_idx :: int
  it_reverse :: bool
  it_cache :: Entry
  it_cache_valid :: bool

definition new_LogVecIterator :: "int \<Rightarrow> bool \<Rightarrow> LogVecIterator" where
  "new_LogVecIterator idx reverse =
     \<lparr>it_idx = to_i64 idx, it_reverse = reverse, it_cache = default_Entry, it_cache_valid = False\<rparr>"

definition logvec_begin :: "'f LogVec \<Rightarrow> LogVecIterator" where
  "logvec_begin lv = new_LogVecIterator 0 False"

definition logvec_end :: "'f LogVec \<Rightarrow> LogVecIterator" where
  "logvec_end lv = new_LogVecIterator (int (logvec_size lv)) False"

definition logvec_rbegin :: "'f LogVec \<Rightarrow> LogVecIterator" where
  "logvec_rbegin lv = new_LogVecIterator (to_u64 (int (logvec_size lv) - 1)) True"

definition logvec_rend :: "'f LogVec \<Rightarrow> LogVecIterator" where
  "logvec_rend lv = new_LogVecIterator (to_u64 (- 1)) True"

text \<open>
  \<open>fetch\<close>: the index is compared as an unsigned 64-bit number, so a negative index is out of
  range too; \<open>None\<close> is the \<open>std::out_of_range\<close> exception.
\<close>

definition iter_fetch :: "'f store_env \<Rightarrow> 'f LogVec \<Rightarrow> LogVecIterator \<Rightarrow> LogVecIterator option" where
  "iter_fetch E lv it =
     (if int (logvec_size lv) \<le> to_u64 (it_idx it) \<or> it_idx it < 0 then None
      else if it_cache_valid it then Some it
      else case logvec_index E lv (nat (it_idx it)) of
             None \<Rightarrow> None
           | Some e \<Rightarrow> Some (it\<lparr>it_cache := e, it_cache_valid := True\<rparr>))"

definition iter_deref :: "'f store_env \<Rightarrow> 'f LogVec \<Rightarrow> LogVecIterator \<Rightarrow> Entry option" where
  "iter_deref E lv it = map_option it_cache (iter_fetch E lv it)"

definition iter_distance :: "LogVecIterator \<Rightarrow> LogVecIterator \<Rightarrow> int" where
  "iter_distance a b = it_idx a - it_idx b"

definition iter_dec :: "LogVecIterator \<Rightarrow> LogVecIterator" where
  "iter_dec it =
     it\<lparr>it_idx := (if it_reverse it then it_idx it + 1 else it_idx it - 1), it_cache_valid := False\<rparr>"

definition iter_inc :: "LogVecIterator \<Rightarrow> LogVecIterator" where
  "iter_inc it =
     it\<lparr>it_idx := (if it_reverse it then it_idx it - 1 else it_idx it + 1), it_cache_valid := False\<rparr>"

text \<open>The postfix operators return the old iterator and the iterator as they leave it.\<close>

definition iter_post_dec :: "LogVecIterator \<Rightarrow> LogVecIterator \<times> LogVecIterator" where
  "iter_post_dec it = (it, if it_reverse it then iter_inc it else iter_dec it)"

definition iter_post_inc :: "LogVecIterator \<Rightarrow> LogVecIterator \<times> LogVecIterator" where
  "iter_post_inc it = (it, if it_reverse it then iter_dec it else iter_inc it)"

definition iter_plus :: "LogVecIterator \<Rightarrow> int \<Rightarrow> LogVecIterator" where
  "iter_plus it n = it\<lparr>it_idx := it_idx it + n, it_cache_valid := False\<rparr>"

definition iter_minus :: "LogVecIterator \<Rightarrow> int \<Rightarrow> LogVecIterator" where
  "iter_minus it n = it\<lparr>it_idx := it_idx it - n, it_cache_valid := False\<rparr>"

definition iter_add_assign :: "LogVecIterator \<Rightarrow> int \<Rightarrow> LogVecIterator" where
  "iter_add_assign it n = it\<lparr>it_idx := it_idx it + n, it_cache_valid := False\<rparr>"

definition iter_sub_assign :: "LogVecIterator \<Rightarrow> int \<Rightarrow> LogVecIterator" where
  "iter_sub_assign it n = it\<lparr>it_idx := it_idx it - n, it_cache_valid := False\<rparr>"

definition iter_eq :: "LogVecIterator \<Rightarrow> LogVecIterator \<Rightarrow> bool" where
  "iter_eq a b \<longleftrightarrow> it_idx a = it_idx b"

definition iter_neq :: "LogVecIterator \<Rightarrow> LogVecIterator \<Rightarrow> bool" where
  "iter_neq a b \<longleftrightarrow> \<not> iter_eq a b"

text \<open>
  The loop \<open>for (it = first; it != last; ++it) use(*it)\<close> of the range-based \<open>for\<close> statement, of
  \<open>RepeatedPtrField::Assign\<close> and of the reverse traversals; \<open>fuel\<close> bounds the rounds.
\<close>

fun iter_collect ::
  "nat \<Rightarrow> 'f store_env \<Rightarrow> 'f LogVec \<Rightarrow> LogVecIterator \<Rightarrow> LogVecIterator \<Rightarrow> Entry list option" where
  "iter_collect 0 E lv it stop = (if iter_neq it stop then None else Some [])"
| "iter_collect (Suc fuel) E lv it stop =
     (if iter_neq it stop then
        case iter_deref E lv it of
          None \<Rightarrow> None
        | Some e \<Rightarrow> map_option ((#) e) (iter_collect fuel E lv (iter_inc it) stop)
      else Some [])"

section \<open>The list of entries a log represents\<close>

definition entry_off :: "'f store_env \<Rightarrow> Entry list \<Rightarrow> nat \<Rightarrow> nat" where
  "entry_off E es i = length (concat (take i (map (encode_entry E) es)))"

definition logvec_rep :: "'f store_env \<Rightarrow> 'f LogVec \<Rightarrow> Entry list \<Rightarrow> bool" where
  "logvec_rep E lv es \<longleftrightarrow>
     file_ok E \<and> wire_ok (e_wire E) \<and> (\<forall>e \<in> set es. entry_ok (e_wire E) e)
   \<and> lv_entry_count lv = length es
   \<and> f_content E (lv_data_file lv) = concat (map (encode_entry E) es)
   \<and> f_content E (lv_meta_file lv) = concat (map (\<lambda>i. le_bytes 8 (entry_off E es i)) [0..<length es])
   \<and> length (concat (map (encode_entry E) es)) < 2 ^ 64"

definition logvec_room :: "'f store_env \<Rightarrow> 'f LogVec \<Rightarrow> Entry list \<Rightarrow> bool" where
  "logvec_room E lv fs \<longleftrightarrow>
     (\<forall>e \<in> set fs. entry_ok (e_wire E) e)
   \<and> length (f_content E (lv_data_file lv)) + length (concat (map (encode_entry E) fs)) < 2 ^ 64"


section \<open>Lemmas\<close>

lemma file_okD:
  assumes "file_ok E"
  shows "f_size E f = length (f_content E f)"
    and "f_content E (f_append E f bs) = f_content E f @ bs"
    and "off + n \<le> length (f_content E f) \<Longrightarrow>
        f_read_to_slice E f off n = take n (drop off (f_content E f))"
    and "off + 8 \<le> length (f_content E f) \<Longrightarrow>
        f_read_uint64 E f off = word_of_nat (le_val (take 8 (drop off (f_content E f))))"
    and "n \<le> length (f_content E f) \<Longrightarrow> f_content E (f_truncate E f n) = take n (f_content E f)"
    and "f_content E (f_sync E f) = f_content E f"
  using assms by (simp_all add: file_ok_def)

lemma decode_encode: "wire_ok (e_wire E) \<Longrightarrow> entry_ok (e_wire E) e \<Longrightarrow> decode_entry E (encode_entry E e) = e"
  by (simp add: decode_entry_def encode_entry_def parse_serialized)

lemma entry_off_le: "entry_off E es i \<le> length (concat (map (encode_entry E) es))"
  unfolding entry_off_def using concat_take_prefix [of i "map (encode_entry E) es"]
  by (metis length_take min.cobounded1)

lemma entry_off_Suc:
  "i < length es \<Longrightarrow> entry_off E es (Suc i) = entry_off E es i + length (encode_entry E (es ! i))"
  by (simp add: entry_off_def take_Suc_conv_app_nth)

lemma entry_off_all: "length es \<le> i \<Longrightarrow> entry_off E es i = length (concat (map (encode_entry E) es))"
  by (simp add: entry_off_def)

lemma entry_off_take: "j \<le> i \<Longrightarrow> entry_off E (take i es) j = entry_off E es j"
  by (simp add: entry_off_def take_map min_def)

lemma entry_off_append: "j \<le> length es \<Longrightarrow> entry_off E (es @ fs) j = entry_off E es j"
  by (simp add: entry_off_def)

lemma rep_facts:
  assumes "logvec_rep E lv es"
  shows "file_ok E" and "wire_ok (e_wire E)" and "lv_entry_count lv = length es"
    and "f_content E (lv_data_file lv) = concat (map (encode_entry E) es)"
    and "f_content E (lv_meta_file lv) = concat (map (\<lambda>i. le_bytes 8 (entry_off E es i)) [0..<length es])"
    and "length (concat (map (encode_entry E) es)) < 2 ^ 64"
    and "e \<in> set es \<Longrightarrow> entry_ok (e_wire E) e"
  using assms by (simp_all add: logvec_rep_def)

lemma rep_get_offset:
  assumes "logvec_rep E lv es" and "i < length es"
  shows "unat (get_offset E lv i) = entry_off E es i"
proof -
  note rep = rep_facts [OF assms(1)]
  let ?cs = "map (\<lambda>i. le_bytes 8 (entry_off E es i)) [0..<length es]"
  have cs: "\<forall>x \<in> set ?cs. length x = 8" by simp
  then have "length (concat ?cs) = 8 * length es" using length_concat_const by fastforce
  then have "i * 8 + 8 \<le> length (f_content E (lv_meta_file lv))"
    using assms(2) rep(5) by simp
  then have "get_offset E lv i = word_of_nat (le_val (take 8 (drop (8 * i) (concat ?cs))))"
    using file_okD(4) [OF rep(1)] rep(5) by (simp add: get_offset_def mult.commute)
  moreover have "take 8 (drop (8 * i) (concat ?cs)) = le_bytes 8 (entry_off E es i)"
    using concat_chunk [OF cs, of i] assms(2) by simp
  moreover have "entry_off E es i < 2 ^ 64"
    using entry_off_le [of E es i] rep(6) by simp
  ultimately show ?thesis by (simp add: machine_simps unat_of_nat)
qed

lemma rep_next_offset:
  assumes "logvec_rep E lv es" and "i < length es"
  shows "unat (if i + 1 < lv_entry_count lv then get_offset E lv (i + 1)
      else word_of_nat (f_size E (lv_data_file lv)) :: u64) = entry_off E es (Suc i)"
proof (cases "i + 1 < length es")
  case True
  with rep_get_offset [OF assms(1) True] rep_facts(3) [OF assms(1)] show ?thesis by simp
next
  case False
  with assms(2) have "entry_off E es (Suc i) = length (concat (map (encode_entry E) es))"
    by (simp add: entry_off_all)
  with False rep_facts [OF assms(1)] show ?thesis
    by (simp add: file_okD(1) unat_of_nat)
qed

lemma rep_index:
  assumes "logvec_rep E lv es"
  shows "logvec_index E lv i = (if i < length es then Some (es ! i) else None)"
proof (cases "i < length es")
  case False
  then show ?thesis using rep_facts(3) [OF assms] by (simp add: logvec_index_def)
next
  case True
  note rep = rep_facts [OF assms]
  let ?a = "get_offset E lv i"
  let ?b = "if i + 1 < lv_entry_count lv then get_offset E lv (i + 1)
      else word_of_nat (f_size E (lv_data_file lv)) :: u64"
  let ?enc = "map (encode_entry E) es"
  have a: "unat ?a = entry_off E es i" by (rule rep_get_offset [OF assms True])
  have b: "unat ?b = entry_off E es i + length (encode_entry E (es ! i))"
    using rep_next_offset [OF assms True] entry_off_Suc [OF True] by simp
  then have "?a \<le> ?b" using a by (simp add: word_le_nat_alt)
  then have len: "unat (?b - ?a) = length (encode_entry E (es ! i))"
    using a b by (simp add: unat_sub)
  have "entry_off E es i + length (encode_entry E (es ! i)) \<le> length (f_content E (lv_data_file lv))"
    using entry_off_le [of E es "Suc i"] rep(4) by (simp only: entry_off_Suc [OF True])
  then have "f_read_to_slice E (lv_data_file lv) (unat ?a) (unat (?b - ?a))
      = take (length (?enc ! i)) (drop (length (concat (take i ?enc))) (concat ?enc))"
    unfolding a len using file_okD(3) [OF rep(1)] rep(4) True by (simp add: entry_off_def)
  also have "\<dots> = encode_entry E (es ! i)"
    using concat_drop_take [of i ?enc] True by simp
  finally have "decode_entry E (f_read_to_slice E (lv_data_file lv) (unat ?a) (unat (?b - ?a))) = es ! i"
    by (simp add: decode_encode [OF rep(2) rep(7)] True)
  then show ?thesis using True rep(3) by (simp add: logvec_index_def Let_def)
qed

lemma rep_push:
  assumes "logvec_rep E lv es" and "logvec_room E lv (e # fs)"
  shows "logvec_rep E (logvec_push_back E lv e) (es @ [e])
    \<and> logvec_room E (logvec_push_back E lv e) fs"
proof -
  note rep = rep_facts [OF assms(1)]
  have room: "entry_ok (e_wire E) e" "\<forall>e \<in> set fs. entry_ok (e_wire E) e"
    "length (concat (map (encode_entry E) es)) + length (encode_entry E e)
       + length (concat (map (encode_entry E) fs)) < 2 ^ 64"
    using assms(2) rep(4) by (auto simp: logvec_room_def)
  have off: "unat (word_of_nat (f_size E (lv_data_file lv)) :: u64) = entry_off E (es @ [e]) (length es)"
    using rep(1,4,6) by (simp add: file_okD(1) unat_of_nat entry_off_append entry_off_all)
  have old: "concat (map (\<lambda>i. le_bytes 8 (entry_off E (es @ [e]) i)) [0..<length es])
      = f_content E (lv_meta_file lv)"
    unfolding rep(5) by (intro arg_cong [of _ _ concat] map_cong) (simp_all add: entry_off_append)
  have "f_content E (lv_meta_file (logvec_push_back E lv e))
      = concat (map (\<lambda>i. le_bytes 8 (entry_off E (es @ [e]) i)) [0..<length (es @ [e])])"
    using off file_okD(2) [OF rep(1)] by (simp add: logvec_push_back_def Let_def old)
  moreover have "f_content E (lv_data_file (logvec_push_back E lv e))
      = concat (map (encode_entry E) (es @ [e]))"
    using rep(4) file_okD(2) [OF rep(1)] by (simp add: logvec_push_back_def Let_def)
  moreover have "lv_entry_count (logvec_push_back E lv e) = length (es @ [e])"
    using rep(3) by (simp add: logvec_push_back_def Let_def)
  ultimately show ?thesis
    using rep room assms(1) by (auto simp: logvec_rep_def logvec_room_def)
qed

lemma rep_truncate:
  assumes "logvec_rep E lv es"
  shows "logvec_rep E (logvec_truncate_from E lv i) (take i es)"
proof (cases "length es \<le> i")
  case True
  then show ?thesis using assms rep_facts(3) [OF assms] by (simp add: logvec_truncate_from_def)
next
  case False
  note rep = rep_facts [OF assms]
  let ?lv = "logvec_truncate_from E lv i"
  let ?enc = "map (encode_entry E) es"
  let ?cs = "map (\<lambda>j. le_bytes 8 (entry_off E es j)) [0..<length es]"
  have new: "unat (if 0 < i then get_offset E lv i else 0) = entry_off E es i"
    using rep_get_offset [OF assms, of i] False by (auto simp: entry_off_def)
  have "f_content E (lv_data_file ?lv) = take (entry_off E es i) (concat ?enc)"
    using file_okD(5) [OF rep(1)] rep(3,4) new entry_off_le [of E es i] False
    by (simp add: logvec_truncate_from_def Let_def)
  then have data: "f_content E (lv_data_file ?lv) = concat (map (encode_entry E) (take i es))"
    using concat_take_prefix [of i ?enc] by (simp add: entry_off_def take_map)
  have cs: "\<forall>x \<in> set ?cs. length x = 8" by simp
  have "i * 8 \<le> length (concat ?cs)"
    using length_concat_const [OF cs] False by simp
  then have "f_content E (lv_meta_file ?lv) = take (8 * i) (concat ?cs)"
    using file_okD(5) [OF rep(1)] rep(3,5) False
    by (simp add: logvec_truncate_from_def Let_def mult.commute)
  also have "\<dots> = concat (take i ?cs)" using concat_chunk_prefix [OF cs, of i] False by simp
  also have "take i ?cs = map (\<lambda>j. le_bytes 8 (entry_off E (take i es) j)) [0..<length (take i es)]"
    using False by (simp add: take_map entry_off_take min_def)
  finally have meta: "f_content E (lv_meta_file ?lv)
      = concat (map (\<lambda>j. le_bytes 8 (entry_off E (take i es) j)) [0..<length (take i es)])" .
  have "length (concat (map (encode_entry E) (take i es))) < 2 ^ 64"
    using entry_off_le [of E es i] rep(6) by (simp add: entry_off_def take_map)
  moreover have "lv_entry_count ?lv = length (take i es)"
    using False rep(3) by (simp add: logvec_truncate_from_def Let_def min_def)
  moreover have "\<forall>e \<in> set (take i es). entry_ok (e_wire E) e"
    using rep(7) by (auto dest: in_set_takeD)
  ultimately show ?thesis using rep(1,2) data meta by (simp add: logvec_rep_def)
qed

lemma rep_truncate_room:
  assumes "logvec_rep E lv es" and "logvec_room E lv fs"
  shows "logvec_room E (logvec_truncate_from E lv i) fs"
proof -
  have "length (f_content E (lv_data_file (logvec_truncate_from E lv i)))
      \<le> length (f_content E (lv_data_file lv))"
    using rep_facts(4) [OF rep_truncate [OF assms(1), of i]] rep_facts(4) [OF assms(1)]
      entry_off_le [of E es i] by (simp add: entry_off_def take_map)
  with assms(2) show ?thesis by (simp add: logvec_room_def)
qed

lemma rep_sync: "logvec_rep E lv es \<Longrightarrow> logvec_rep E (logvec_sync E lv) es"
  by (simp add: logvec_rep_def logvec_sync_def file_okD(6))

section \<open>What a client of the log relies on\<close>

locale entry_log =
  fixes rep :: "'s \<Rightarrow> Entry list \<Rightarrow> bool"
    and room :: "'s \<Rightarrow> Entry list \<Rightarrow> bool"
    and size_of :: "'s \<Rightarrow> nat"
    and index :: "'s \<Rightarrow> nat \<Rightarrow> Entry option"
    and push :: "'s \<Rightarrow> Entry \<Rightarrow> 's"
    and trunc :: "'s \<Rightarrow> nat \<Rightarrow> 's"
  assumes size_rep: "rep s es \<Longrightarrow> size_of s = length es"
    and index_rep: "rep s es \<Longrightarrow> index s i = (if i < length es then Some (es ! i) else None)"
    and push_rep: "rep s es \<Longrightarrow> room s (e # fs) \<Longrightarrow> rep (push s e) (es @ [e]) \<and> room (push s e) fs"
    and trunc_rep: "rep s es \<Longrightarrow> rep (trunc s i) (take i es)"
    and trunc_room: "rep s es \<Longrightarrow> room s fs \<Longrightarrow> room (trunc s i) fs"
begin

lemma push_all: "rep s es \<Longrightarrow> room s fs \<Longrightarrow> rep (fold (\<lambda>e s. push s e) fs s) (es @ fs)"
proof (induction fs arbitrary: s es)
  case Nil
  then show ?case by simp
next
  case (Cons e fs)
  have "rep (push s e) (es @ [e])" and "room (push s e) fs"
    using push_rep [OF Cons.prems] by simp_all
  from Cons.IH [OF this] show ?case by simp
qed

lemma replace_tail:
  assumes "rep s es" and "room s fs"
  shows "rep (fold (\<lambda>e s. push s e) fs (trunc s i)) (take i es @ fs)"
  using push_all [OF trunc_rep [OF assms(1)] trunc_room [OF assms]] .

lemma rep_unique: "rep s es \<Longrightarrow> rep s es' \<Longrightarrow> es = es'"
proof (rule nth_equalityI)
  assume a: "rep s es" "rep s es'"
  then show len: "length es = length es'" using size_rep by metis
  fix i assume "i < length es"
  then show "es ! i = es' ! i"
    using index_rep [OF a(1), of i] index_rep [OF a(2), of i] len by simp
qed

end

interpretation lv: entry_log "logvec_rep E" "logvec_room E" logvec_size "logvec_index E"
  "logvec_push_back E" "logvec_truncate_from E" for E :: "'f store_env"
proof unfold_locales
  show "logvec_rep E s es \<Longrightarrow> logvec_size s = length es" for s es
    by (simp add: logvec_size_def rep_facts(3))
qed (simp_all add: rep_index rep_push rep_truncate rep_truncate_room)


subsection \<open>Traversals\<close>

lemma rep_deref:
  assumes "logvec_rep E lv es" and "it_idx it = int i" and "\<not> it_cache_valid it"
    and "i < length es" and "length es < 2 ^ 63"
  shows "iter_deref E lv it = Some (es ! i)"
proof -
  have "to_u64 (it_idx it) = int i" using assms by (simp add: to_u64_def)
  then show ?thesis
    using assms lv.size_rep [OF assms(1)] rep_index [OF assms(1), of i]
    by (simp add: iter_deref_def iter_fetch_def)
qed

lemma rep_deref_outside:
  assumes "logvec_rep E lv es" and "it_idx it < 0 \<or> int (length es) \<le> it_idx it"
    and "it_idx it < 2 ^ 63"
  shows "iter_deref E lv it = None"
proof -
  have "\<not> it_idx it < 0 \<Longrightarrow> to_u64 (it_idx it) = it_idx it"
    using assms(3) by (simp add: to_u64_def)
  then show ?thesis
    using assms lv.size_rep [OF assms(1)] by (auto simp: iter_deref_def iter_fetch_def)
qed

lemma collect_forward:
  assumes "logvec_rep E lv es" and "length es < 2 ^ 63"
  shows "it_idx it = int k \<Longrightarrow> \<not> it_reverse it \<Longrightarrow> \<not> it_cache_valid it \<Longrightarrow> k \<le> length es \<Longrightarrow>
    iter_collect (length es - k) E lv it (logvec_end lv) = Some (drop k es)"
proof (induction "length es - k" arbitrary: k it)
  case 0
  then show ?case
    using assms lv.size_rep [OF assms(1)]
    by (simp add: iter_neq_def iter_eq_def logvec_end_def new_LogVecIterator_def machine_simps)
next
  case (Suc n)
  then have k: "k < length es" by simp
  have neq: "iter_neq it (logvec_end lv)"
    using Suc.prems k assms lv.size_rep [OF assms(1)]
    by (simp add: iter_neq_def iter_eq_def logvec_end_def new_LogVecIterator_def machine_simps)
  have n: "n = length es - Suc k" and len: "length es - k = Suc n" using Suc.hyps(2) by simp_all
  have "iter_collect n E lv (iter_inc it) (logvec_end lv) = Some (drop (Suc k) es)"
    unfolding n using Suc.prems k by (intro Suc.hyps(1) [OF n]) (simp_all add: iter_inc_def)
  with neq rep_deref [OF assms(1) Suc.prems(1,3) k assms(2)] show ?case
    by (simp add: len Cons_nth_drop_Suc [OF k])
qed

lemma collect_reverse:
  assumes "logvec_rep E lv es" and "length es < 2 ^ 63"
  shows "it_idx it = int k - 1 \<Longrightarrow> it_reverse it \<Longrightarrow> \<not> it_cache_valid it \<Longrightarrow> k \<le> length es \<Longrightarrow>
    iter_collect k E lv it (logvec_rend lv) = Some (rev (take k es))"
proof (induction k arbitrary: it)
  case 0
  then show ?case
    by (simp add: iter_neq_def iter_eq_def logvec_rend_def new_LogVecIterator_def to_i64_def to_u64_def)
next
  case (Suc k)
  then have k: "k < length es" and idx: "it_idx it = int k" by simp_all
  have neq: "iter_neq it (logvec_rend lv)"
    using idx
    by (simp add: iter_neq_def iter_eq_def logvec_rend_def new_LogVecIterator_def to_i64_def to_u64_def)
  have "iter_collect k E lv (iter_inc it) (logvec_rend lv) = Some (rev (take k es))"
    using Suc.IH [of "iter_inc it"] Suc.prems k by (simp add: iter_inc_def)
  with neq rep_deref [OF assms(1) idx Suc.prems(3) k assms(2)] k show ?case
    by (simp add: take_Suc_conv_app_nth)
qed

lemma rbegin_idx:
  assumes "logvec_rep E lv es" and "length es < 2 ^ 63"
  shows "it_idx (logvec_rbegin lv) = int (length es) - 1"
proof (cases "es = []")
  case True
  then show ?thesis using lv.size_rep [OF assms(1)]
    by (simp add: logvec_rbegin_def new_LogVecIterator_def to_i64_def to_u64_def)
next
  case False
  then have "1 \<le> length es" by (simp add: Suc_leI)
  then have "to_u64 (int (length es) - 1) = int (length es) - 1" using assms(2) False
    by (intro to_u64_id) simp_all
  then show ?thesis using lv.size_rep [OF assms(1)] assms(2)
    by (simp add: logvec_rbegin_def new_LogVecIterator_def to_i64_def)
qed

lemma rep_rbegin_deref:
  assumes "logvec_rep E lv es" and "length es < 2 ^ 63"
  shows "iter_deref E lv (logvec_rbegin lv) = (if es = [] then None else Some (last es))"
proof (cases "es = []")
  case True
  then show ?thesis
    using rep_deref_outside [OF assms(1), of "logvec_rbegin lv"] rbegin_idx [OF assms] by simp
next
  case False
  then have "it_idx (logvec_rbegin lv) = int (length es - 1)"
    using rbegin_idx [OF assms] by (simp add: Suc_leI)
  from rep_deref [OF assms(1) this _ _ assms(2)] False show ?thesis
    by (simp add: logvec_rbegin_def new_LogVecIterator_def last_conv_nth)
qed

text \<open>
  A log survives a restart: a log opened in a directory whose two files have the contents of a
  log's files represents the same list of entries.
\<close>

lemma reopen_preserves_entries:
  assumes "logvec_rep E lv es"
    and "f_exists E (get_data_path dir)" "f_exists E (get_meta_path dir)"
    and "f_content E (f_open E (get_data_path dir) False) = f_content E (lv_data_file lv)"
    and "f_content E (f_open E (get_meta_path dir) False) = f_content E (lv_meta_file lv)"
  shows "logvec_rep E (new_LogVec E dir) es"
proof -
  note rep = rep_facts [OF assms(1)]
  let ?cs = "map (\<lambda>i. le_bytes 8 (entry_off E es i)) [0..<length es]"
  have cs: "\<forall>x \<in> set ?cs. length x = 8" by simp
  have "length (f_content E (lv_meta_file lv)) div 8 = length es"
    using length_concat_const [OF cs] rep(5) by simp
  then have "lv_entry_count (new_LogVec E dir) = length es"
    using file_okD(1) [OF rep(1)] assms(2,3,5) by (simp add: new_LogVec_def Let_def)
  then show ?thesis
    using assms rep by (simp add: logvec_rep_def new_LogVec_def Let_def)
qed

section \<open>Files in memory\<close>

text \<open>A file object that is its contents: the documented behaviour can be met.\<close>

definition mem_env :: "bytes store_env" where
  "mem_env = \<lparr>
     f_open = (\<lambda>path create. []), f_exists = (\<lambda>path. False), f_size = length,
     f_append = (\<lambda>f bs. f @ bs), f_read_to_slice = (\<lambda>f off n. take n (drop off f)),
     f_read_uint64 = (\<lambda>f off. word_of_nat (le_val (take 8 (drop off f)))),
     f_truncate = (\<lambda>f n. take n f), f_sync = (\<lambda>f. f), f_content = (\<lambda>f. f),
     e_wire = std_wire\<rparr>"

lemma mem_env_ok [simp]: "file_ok mem_env" "wire_ok (e_wire mem_env)"
  by (simp_all add: file_ok_def mem_env_def std_wire_ok)

lemma rep_mem_new: "logvec_rep mem_env (new_LogVec mem_env dir) []"
  by (simp add: logvec_rep_def) (simp add: new_LogVec_def mem_env_def Let_def)

definition sample_entry :: Entry where
  "sample_entry = \<lparr>e_seq = 7, e_term = 1, e_key = [107], e_value = [118, 200], e_unknown = []\<rparr>"

lemma sample_entry_ok: "entry_ok std_wire sample_entry"
  by (simp add: entry_ok_def sample_entry_def std_wire_def)

lemma sample_length: "length (entry_serialize std_wire sample_entry) = 11"
  by code_simp

lemma default_length: "entry_serialize std_wire default_Entry = []"
  by (simp add: entry_serialize_def default_Entry_def)

lemma default_entry_ok: "entry_ok std_wire default_Entry"
  by (simp add: entry_ok_def default_Entry_def std_wire_def)

lemma sample_room: "logvec_room mem_env (new_LogVec mem_env dir) [default_Entry, sample_entry]"
  by (simp add: logvec_room_def new_LogVec_def mem_env_def encode_entry_def default_entry_ok
      sample_entry_ok sample_length default_length)

definition sample_log :: "bytes LogVec" where
  "sample_log = fold (\<lambda>e lv. logvec_push_back mem_env lv e) [default_Entry, sample_entry]
     (new_LogVec mem_env ''dir'')"

lemma rep_sample: "logvec_rep mem_env sample_log [default_Entry, sample_entry]"
  using lv.push_all [OF rep_mem_new sample_room] by (simp add: sample_log_def)

section \<open>Properties\<close>

text \<open>
  Serialising a log entry and parsing the bytes gives the entry back and reports success,
  for every entry with a UTF-8 key and no unknown fields: default-valued fields are left out
  and read back as their defaults.
\<close>

theorem entry_roundtrip:
  assumes "wire_ok W" and "entry_ok W e"
  shows "entry_parse W (entry_serialize W e) = (e, True)"
  using assms by (rule parse_serialized)

theorem entry_roundtrip_witness:
  "entry_parse std_wire (entry_serialize std_wire sample_entry) = (sample_entry, True)"
  by (rule entry_roundtrip [OF std_wire_ok sample_entry_ok])

text \<open>
  C18. The two files implement a list of entries: reading at an index returns that entry and
  fails an assertion exactly outside the list, \<open>push_back\<close> appends, \<open>truncate_from\<close> keeps a
  prefix, \<open>size\<close> is the length, and each operation leaves files that again represent the list.
\<close>

theorem logvec_refines_list:
  assumes "logvec_rep E lv es" and "logvec_room E lv [e]"
  shows "logvec_index E lv i = (if i < length es then Some (es ! i) else None)
    \<and> logvec_size lv = length es
    \<and> logvec_rep E (logvec_push_back E lv e) (es @ [e])
    \<and> logvec_rep E (logvec_truncate_from E lv i) (take i es)"
  using lv.index_rep [OF assms(1)] lv.size_rep [OF assms(1)] lv.push_rep [OF assms]
    lv.trunc_rep [OF assms(1)] by simp

theorem logvec_refines_list_witness:
  "logvec_rep mem_env (logvec_push_back mem_env (logvec_push_back mem_env
     (new_LogVec mem_env []) default_Entry) sample_entry) [default_Entry, sample_entry]"
proof -
  let ?l1 = "logvec_push_back mem_env (new_LogVec mem_env []) default_Entry"
  have "logvec_room mem_env (new_LogVec mem_env []) [default_Entry]"
    using sample_room [of "[]"] by (simp add: logvec_room_def)
  with logvec_refines_list [OF rep_mem_new] have "logvec_rep mem_env ?l1 [default_Entry]"
    by fastforce
  moreover have "logvec_room mem_env ?l1 [sample_entry]"
    using lv.push_rep [OF rep_mem_new sample_room] by blast
  ultimately show ?thesis using logvec_refines_list by fastforce
qed

text \<open>
  C31. A traversal from \<open>begin() + k\<close> to \<open>end()\<close> visits the entries from index \<open>k\<close> on in order,
  one from \<open>rbegin()\<close> to \<open>rend()\<close> visits all entries in reverse; neither throws and as many rounds as
  there are entries left are enough. \<open>rbegin()\<close> of an empty log cannot be read.
\<close>

theorem traversals_exact:
  assumes "logvec_rep E lv es" and "length es < 2 ^ 63" and "k \<le> length es"
  shows "iter_collect (length es - k) E lv (iter_plus (logvec_begin lv) (int k)) (logvec_end lv)
      = Some (drop k es)
    \<and> iter_collect (length es) E lv (logvec_rbegin lv) (logvec_rend lv) = Some (rev es)
    \<and> iter_deref E lv (logvec_rbegin lv) = (if es = [] then None else Some (last es))"
proof -
  have "iter_collect (length es - k) E lv (iter_plus (logvec_begin lv) (int k)) (logvec_end lv)
      = Some (drop k es)"
    using collect_forward [OF assms(1,2) _ _ _ assms(3)]
    by (simp add: iter_plus_def logvec_begin_def new_LogVecIterator_def to_i64_def)
  moreover have "iter_collect (length es) E lv (logvec_rbegin lv) (logvec_rend lv) = Some (rev es)"
    using collect_reverse [OF assms(1,2), of "logvec_rbegin lv" "length es"] rbegin_idx [OF assms(1,2)]
    by (simp add: logvec_rbegin_def new_LogVecIterator_def)
  ultimately show ?thesis using rep_rbegin_deref [OF assms(1,2)] by simp
qed

theorem traversals_exact_witness:
  "iter_collect (Suc (Suc 0)) mem_env sample_log (logvec_rbegin sample_log) (logvec_rend sample_log)
     = Some [sample_entry, default_Entry]"
  using traversals_exact [OF rep_sample, of 0] by (simp del: iter_collect.simps)

text \<open>
  The postfix operators of a reverse iterator move it the wrong way: \<open>it++\<close> steps to the
  entry with the next higher index, where \<open>++it\<close> steps to the next lower one, and \<open>it--\<close> the
  other way round. On a forward iterator prefix and postfix agree.
\<close>

theorem postfix_reverse_inverted:
  "snd (iter_post_inc it) = (if it_reverse it then iter_dec it else iter_inc it)
   \<and> snd (iter_post_dec it) = (if it_reverse it then iter_inc it else iter_dec it)
   \<and> iter_inc it \<noteq> iter_dec it"
proof -
  have "it_idx (iter_inc it) \<noteq> it_idx (iter_dec it)" by (simp add: iter_inc_def iter_dec_def)
  then have "iter_inc it \<noteq> iter_dec it" by metis
  then show ?thesis by (simp add: iter_post_inc_def iter_post_dec_def)
qed

end
