(* ===== verification/Timer.thy ===== *)
theory Timer
  imports Prelude "HOL-Library.Signed_Division"
begin

text \<open>
  Timers and timeouts (\<^verbatim>\<open>src/utils/timer.cpp\<close>, \<^verbatim>\<open>src/utils/utils.cpp\<close>,
  \<^verbatim>\<open>include/consts.h\<close>). Time is the reading of the steady clock in milliseconds. The clock and
  \<open>std::rand\<close> are arguments. \<open>wait\<close> is followed from one access of the shared state to the next, since
  \<open>stop\<close> does not take the mutex and can fall between any two of them. \<open>wait_until\<close> takes the deadline by
  reference, so a reset while a thread waits moves the deadline the thread waits for.
\<close>

definition HeartBeatTimeOut :: int where "HeartBeatTimeOut = 155"

definition MinElectTimeOut :: int where "MinElectTimeOut = 600"

definition MaxElectTimeOut :: int where "MaxElectTimeOut = 1000"

definition GetRandomElectTimeOut :: "int \<Rightarrow> int \<Rightarrow> int \<Rightarrow> int" where
  "GetRandomElectTimeOut rnd lo hi = lo + rnd smod (hi - lo + 1)"

record Timer =
  deadline :: int
  stopped :: bool
  notified :: bool

definition new_Timer :: Timer where
  "new_Timer = \<lparr>deadline = 0, stopped = False, notified = False\<rparr>"

definition timer_reset :: "int \<Rightarrow> int \<Rightarrow> Timer \<Rightarrow> Timer" where
  "timer_reset now delay t = t\<lparr>deadline := now + delay, notified := False\<rparr>"

text \<open>
  Where a thread in \<open>wait\<close> is: \<open>Entering\<close> before it has the mutex; \<open>Checking\<close> with the mutex, about to
  evaluate the predicate of \<open>wait_until\<close>; \<open>Blocking\<close> with the mutex, the predicate having been false, about to
  release it and sleep; \<open>Sleeping d\<close> without the mutex until it is notified or the clock reaches \<open>d\<close>;
  \<open>Waking\<close> about to take the mutex again; and \<open>Returned\<close>.
\<close>

datatype wait_phase = Entering | Checking | Blocking | Sleeping int | Waking | Returned bool

text \<open>
  One step of \<open>wait\<close>. A thread that has woken compares the clock with the deadline: before it,
  \<open>wait_until\<close> evaluates the predicate again, and otherwise it returns the predicate's value.
\<close>

definition timer_wait :: "int \<Rightarrow> Timer \<Rightarrow> wait_phase \<Rightarrow> wait_phase" where
  "timer_wait now t ph =
     (case ph of
        Entering \<Rightarrow> if stopped t then Returned False else Checking
      | Checking \<Rightarrow> if notified t \<or> stopped t then Returned False else Blocking
      | Blocking \<Rightarrow> Sleeping (deadline t)
      | Sleeping d \<Rightarrow> if d \<le> now then Waking else Sleeping d
      | Waking \<Rightarrow> if now < deadline t then Checking
                  else if notified t \<or> stopped t then Returned False else Returned True
      | Returned b \<Rightarrow> Returned b)"

text \<open>\<open>stop\<close> stores the flag and then calls \<open>notify_all\<close>, which reaches a thread that sleeps and no other.\<close>

definition timer_stop :: "Timer \<Rightarrow> Timer" where
  "timer_stop t = t\<lparr>stopped := True\<rparr>"

definition notify_all :: "wait_phase \<Rightarrow> wait_phase" where
  "notify_all ph = (case ph of Sleeping d \<Rightarrow> Waking | _ \<Rightarrow> ph)"

section \<open>A waiting thread and the others\<close>

text \<open>\<open>wt_stops\<close> counts the calls of \<open>stop\<close> that have stored the flag and not yet notified.\<close>

record wait_sys =
  wt_now :: int
  wt_timer :: Timer
  wt_phase :: wait_phase
  wt_stops :: nat

definition wait_next :: "wait_sys \<Rightarrow> wait_sys" where
  "wait_next s = s\<lparr>wt_phase := timer_wait (wt_now s) (wt_timer s) (wt_phase s)\<rparr>"

text \<open>
  What else happens: time passes, other threads reset the timer (under the mutex, so not while
  the waiting thread holds it) or stop it (in two parts, at any moment), a condition variable wakes up for no
  reason, and a thread whose \<open>wait\<close> has returned calls it again.
\<close>

inductive env_step :: "wait_sys \<Rightarrow> wait_sys \<Rightarrow> bool" where
  e_clock: "0 \<le> d \<Longrightarrow> env_step s (s\<lparr>wt_now := wt_now s + d\<rparr>)"
| e_reset: "wt_phase s \<notin> {Checking, Blocking} \<Longrightarrow>
    env_step s (s\<lparr>wt_timer := timer_reset (wt_now s) delay (wt_timer s), wt_phase := notify_all (wt_phase s)\<rparr>)"
| e_stop: "env_step s (s\<lparr>wt_timer := timer_stop (wt_timer s), wt_stops := wt_stops s + 1\<rparr>)"
| e_stop_notify: "0 < wt_stops s \<Longrightarrow>
    env_step s (s\<lparr>wt_phase := notify_all (wt_phase s), wt_stops := wt_stops s - 1\<rparr>)"
| e_spurious: "env_step s (s\<lparr>wt_phase := notify_all (wt_phase s)\<rparr>)"
| e_call: "wt_phase s = Returned b \<Longrightarrow> env_step s (s\<lparr>wt_phase := Entering\<rparr>)"

inductive timer_step :: "wait_sys \<Rightarrow> wait_sys \<Rightarrow> bool" where
  ts_wait: "timer_step s (wait_next s)"
| ts_env: "env_step s s' \<Longrightarrow> timer_step s s'"

definition start_wait :: "int \<Rightarrow> wait_sys" where
  "start_wait now = \<lparr>wt_now = now, wt_timer = new_Timer, wt_phase = Entering, wt_stops = 0\<rparr>"

text \<open>A thread sleeps for the current deadline: a reset wakes it. Nothing sets \<open>notified\<close>.\<close>

definition timer_inv :: "wait_sys \<Rightarrow> bool" where
  "timer_inv s \<longleftrightarrow> \<not> notified (wt_timer s) \<and> (\<forall>d. wt_phase s = Sleeping d \<longrightarrow> d = deadline (wt_timer s))"

lemma timer_inv_start: "timer_inv (start_wait now)"
  by (simp add: timer_inv_def start_wait_def new_Timer_def)

lemma timer_inv_step: "timer_step s s' \<Longrightarrow> timer_inv s \<Longrightarrow> timer_inv s'"
proof (induction rule: timer_step.induct)
  case (ts_wait s)
  then show ?case by (auto simp: timer_inv_def wait_next_def timer_wait_def split: wait_phase.splits if_splits)
next
  case (ts_env s s')
  then show ?case
    by (cases rule: env_step.cases)
      (auto simp: timer_inv_def timer_reset_def timer_stop_def notify_all_def split: wait_phase.splits)
qed

lemma timer_inv_run: "timer_step\<^sup>*\<^sup>* s s' \<Longrightarrow> timer_inv s \<Longrightarrow> timer_inv s'"
  by (induction rule: rtranclp_induct) (auto intro: timer_inv_step)

text \<open>Left to itself, a thread whose deadline has passed returns.\<close>

lemma wait_next_iter:
  "(wait_next ^^ n) s = s\<lparr>wt_phase := (timer_wait (wt_now s) (wt_timer s) ^^ n) (wt_phase s)\<rparr>"
  by (induction n) (simp_all add: wait_next_def)

lemma wait_returns:
  assumes "\<not> notified t" and "deadline t \<le> now" and "\<forall>d. ph = Sleeping d \<longrightarrow> d = deadline t" and "\<forall>b. ph \<noteq> Returned b"
  shows "\<exists>n \<le> 5. (timer_wait now t ^^ n) ph = Returned (\<not> stopped t)"
proof -
  have "(timer_wait now t ^^ 5) ph = Returned (\<not> stopped t)"
  proof (cases ph)
    case (Returned b)
    with assms(4) show ?thesis by blast
  qed (use assms(1-3) in \<open>simp_all add: timer_wait_def eval_nat_numeral\<close>)
  then show ?thesis by blast
qed

lemma stopped_wait_returns:
  assumes "stopped t" and "ph \<in> {Entering, Checking, Waking}"
  shows "\<exists>n \<le> 5. (timer_wait now t ^^ n) ph = Returned False"
proof -
  have "(timer_wait now t ^^ 5) ph = Returned False"
    using assms by (auto simp: timer_wait_def eval_nat_numeral)
  then show ?thesis by blast
qed

text \<open>
  The lost wake-up: \<open>stop\<close> stores the flag and notifies after the thread has evaluated its predicate
  and before it sleeps.
\<close>

lemma lost_wakeup:
  assumes "0 < delay"
  shows "\<exists>s. timer_step\<^sup>*\<^sup>* (start_wait now) s \<and> stopped (wt_timer s) \<and> wt_stops s = 0
    \<and> wt_phase s = Sleeping (now + delay) \<and> wt_now s = now \<and> wait_next s = s"
proof -
  let ?t = "timer_reset now delay new_Timer"
  let ?s = "\<lambda>t ph n. \<lparr>wt_now = now, wt_timer = t, wt_phase = ph, wt_stops = n\<rparr>"
  have "timer_step (start_wait now) (?s ?t Entering 0)"
    using ts_env [OF e_reset [of "start_wait now" delay]] by (simp add: start_wait_def notify_all_def)
  moreover have "timer_step (?s ?t Entering 0) (?s ?t Checking 0)" "timer_step (?s ?t Checking 0) (?s ?t Blocking 0)"
    using ts_wait [of "?s ?t Entering 0"] ts_wait [of "?s ?t Checking 0"]
    by (simp_all add: wait_next_def timer_wait_def timer_reset_def new_Timer_def)
  moreover have "timer_step (?s ?t Blocking 0) (?s (timer_stop ?t) Blocking 1)"
    using ts_env [OF e_stop [of "?s ?t Blocking 0"]] by simp
  moreover have "timer_step (?s (timer_stop ?t) Blocking 1) (?s (timer_stop ?t) Blocking 0)"
    using ts_env [OF e_stop_notify [of "?s (timer_stop ?t) Blocking 1"]] by (simp add: notify_all_def)
  moreover have "timer_step (?s (timer_stop ?t) Blocking 0) (?s (timer_stop ?t) (Sleeping (now + delay)) 0)"
    using ts_wait [of "?s (timer_stop ?t) Blocking 0"]
    by (simp add: wait_next_def timer_wait_def timer_stop_def timer_reset_def)
  ultimately have "timer_step\<^sup>*\<^sup>* (start_wait now) (?s (timer_stop ?t) (Sleeping (now + delay)) 0)"
    by (meson converse_rtranclp_into_rtranclp rtranclp.rtrancl_refl)
  with assms show ?thesis
    by (intro exI [of _ "?s (timer_stop ?t) (Sleeping (now + delay)) 0"])
      (simp add: timer_stop_def wait_next_def timer_wait_def)
qed

section \<open>Timeouts\<close>

lemma smod_range: "0 \<le> (r :: int) \<Longrightarrow> 0 < m \<Longrightarrow> 0 \<le> r smod m \<and> r smod m < m"
  by (simp add: signed_modulo_int_def sgn_if)

lemma timeout_range:
  "0 \<le> rnd \<Longrightarrow> lo \<le> hi \<Longrightarrow> lo \<le> GetRandomElectTimeOut rnd lo hi \<and> GetRandomElectTimeOut rnd lo hi \<le> hi"
  using smod_range [of rnd "hi - lo + 1"] by (simp add: GetRandomElectTimeOut_def)

section \<open>Properties\<close>

text \<open>
  C38. A thread in \<open>wait\<close>, whatever resets, stops and spurious wake-ups occur around it. It returns \<open>true\<close> only
  when the timer is not stopped and the deadline of the last reset, or of a timer that was never reset, has
  passed, and \<open>false\<close> only when the timer is stopped; so a reset never makes it return. While it sleeps it
  sleeps for the current deadline. Once the deadline has passed, or when the timer is stopped and the thread has
  still to look at the flag, it returns by itself within five steps. A stopped timer does not always make it
  return: when \<open>stop\<close> runs after the thread has looked at the flag and before it sleeps, the notification
  is lost and the thread sleeps on until its deadline.
\<close>

theorem timer_wait_exact:
  assumes "timer_step\<^sup>*\<^sup>* (start_wait now0) s" and "\<forall>b. wt_phase s \<noteq> Returned b"
  shows "(wt_phase (wait_next s) = Returned True \<longrightarrow>
      \<not> stopped (wt_timer s) \<and> deadline (wt_timer s) \<le> wt_now s)
    \<and> (wt_phase (wait_next s) = Returned False \<longrightarrow> stopped (wt_timer s))
    \<and> (\<forall>d. wt_phase s = Sleeping d \<longrightarrow> d = deadline (wt_timer s))
    \<and> (deadline (wt_timer s) \<le> wt_now s \<or> stopped (wt_timer s) \<and> wt_phase s \<in> {Entering, Checking, Waking} \<longrightarrow>
        (\<exists>n \<le> 5. wt_phase ((wait_next ^^ n) s) = Returned (\<not> stopped (wt_timer s))))
    \<and> (\<forall>delay > 0. \<exists>s'. timer_step\<^sup>*\<^sup>* (start_wait now0) s' \<and> stopped (wt_timer s') \<and> wt_stops s' = 0
        \<and> wt_phase s' = Sleeping (now0 + delay) \<and> wt_now s' = now0 \<and> wait_next s' = s')"
proof -
  have inv: "\<not> notified (wt_timer s)" "\<forall>d. wt_phase s = Sleeping d \<longrightarrow> d = deadline (wt_timer s)"
    using timer_inv_run [OF assms(1) timer_inv_start] by (simp_all add: timer_inv_def)
  have "wt_phase (wait_next s) = Returned True \<longrightarrow> \<not> stopped (wt_timer s) \<and> deadline (wt_timer s) \<le> wt_now s"
    and "wt_phase (wait_next s) = Returned False \<longrightarrow> stopped (wt_timer s)"
    using inv assms(2) by (auto simp: wait_next_def timer_wait_def split: wait_phase.splits if_splits)
  moreover have "\<exists>n \<le> 5. wt_phase ((wait_next ^^ n) s) = Returned (\<not> stopped (wt_timer s))"
    if "deadline (wt_timer s) \<le> wt_now s \<or> stopped (wt_timer s) \<and> wt_phase s \<in> {Entering, Checking, Waking}"
    using that wait_returns [OF inv(1) _ inv(2) assms(2)] stopped_wait_returns [of "wt_timer s" "wt_phase s" "wt_now s"]
    by (auto simp: wait_next_iter)
  ultimately show ?thesis using inv(2) lost_wakeup [of _ now0] by simp
qed

theorem timer_wait_exact_witness:
  "\<exists>n \<le> 5. wt_phase ((wait_next ^^ n) (start_wait 3)) = Returned True"
  using timer_wait_exact [OF rtranclp.rtrancl_refl, of 3] by (simp add: start_wait_def new_Timer_def)

end
