(* ===== verification/Raft_Node.thy ===== *)
theory Raft_Node
  imports LogVec Timer
begin

text \<open>
  One Raft node (\<^verbatim>\<open>include/raft/raft.h\<close>, \<^verbatim>\<open>src/raft/raft.cpp\<close>, \<^verbatim>\<open>src/raft/raft_rpc.cpp\<close>). Every
  section of code that runs under the node's mutex is one definition on the record \<open>RaftNode\<close>:
  the two RPC handlers, the election, what a vote-collecting thread does with a reply, a round of
  the heartbeat and of the election ticker, and what a replication thread does with a reply.
  32-bit signed and 64-bit unsigned integers are mathematical integers with the conversions the
  C++ code performs implicitly written as \<open>to_i32\<close> and \<open>to_u64\<close>. Exceptions, failed assertions,
  out-of-range vector accesses and signed overflow are values of \<open>raft_error\<close>. The log is the
  \<open>LogVec\<close> of the environment \<open>E\<close>; the clock and \<open>std::rand\<close> are the argument \<open>c\<close>.
\<close>

section \<open>Data\<close>

record NodeConfig =
  addr :: string

datatype RaftState = FOLLOWER | CANDIDATE | LEADER

primrec RaftStateToString :: "RaftState \<Rightarrow> string" where
  "RaftStateToString FOLLOWER = ''FOLLOWER''"
| "RaftStateToString CANDIDATE = ''CANDIDATE''"
| "RaftStateToString LEADER = ''LEADER''"

datatype raft_error = OutOfRange | AssertFailed | BadIndex | SignedOverflow

record tick =
  now :: int
  rnd :: int

record 'f RaftNode =
  cluster_configs :: "NodeConfig list"
  store_path :: string
  cur_node_id :: int
  is_dead :: bool
  currentTerm :: int
  votedFor :: int
  log :: "'f LogVec"
  nextIndex :: "int list"
  matchIndex :: "int list"
  role :: RaftState
  commitIndex :: int
  lastApplied :: int
  lastIncludedIndex :: int
  lastIncludedTerm :: int
  voteTimer :: Timer
  heartTimer :: Timer

record RequestVoteArgs =
  rv_term :: int
  rv_candidateId :: int
  rv_lastLogIndex :: int
  rv_lastLogTerm :: int

record RequestVoteReply =
  rvr_term :: int
  rvr_voteGranted :: bool

record AppendEntriesArgs =
  ae_term :: int
  ae_leaderId :: int
  ae_prevLogIndex :: int
  ae_prevLogTerm :: int
  ae_entries :: "Entry list"
  ae_leaderCommit :: int

record AppendEntriesReply =
  aer_term :: int
  aer_success :: bool
  aer_xTerm :: int
  aer_xIndex :: int
  aer_xLen :: int

section \<open>Helpers\<close>

definition new_RaftNode :: "'f store_env \<Rightarrow> NodeConfig list \<Rightarrow> string \<Rightarrow> int \<Rightarrow> 'f RaftNode" where
  "new_RaftNode E configs log_dir node_id =
     \<lparr>cluster_configs = configs, store_path = ''meta_file'', cur_node_id = node_id, is_dead = False,
      currentTerm = 0, votedFor = -1,
      log = logvec_push_back E (new_LogVec E log_dir) default_Entry,
      nextIndex = replicate (length configs) 0, matchIndex = replicate (length configs) 0,
      role = FOLLOWER, commitIndex = 0, lastApplied = 0, lastIncludedIndex = 0, lastIncludedTerm = 0,
      voteTimer = new_Timer, heartTimer = new_Timer\<rparr>"

definition ResetVoteTimer :: "tick \<Rightarrow> 'f RaftNode \<Rightarrow> 'f RaftNode" where
  "ResetVoteTimer c s =
     (let rdTimeout = GetRandomElectTimeOut (rnd c) MinElectTimeOut MaxElectTimeOut
      in s\<lparr>voteTimer := timer_reset (now c) rdTimeout (voteTimer s)\<rparr>)"

definition ResetHeartTimer :: "tick \<Rightarrow> int \<Rightarrow> 'f RaftNode \<Rightarrow> 'f RaftNode" where
  "ResetHeartTimer c timeout s = s\<lparr>voteTimer := timer_reset (now c) timeout (voteTimer s)\<rparr>"

definition persist :: "'f RaftNode \<Rightarrow> 'f RaftNode" where
  "persist s = s"

definition VirtualLogIdx :: "'f RaftNode \<Rightarrow> int \<Rightarrow> int" where
  "VirtualLogIdx s physical_idx = to_u64 (to_u64 physical_idx + lastIncludedIndex s)"

definition RealLogIdx :: "'f RaftNode \<Rightarrow> int \<Rightarrow> int" where
  "RealLogIdx s virtual_idx = to_u64 (to_u64 virtual_idx - lastIncludedIndex s)"

definition getStare :: "'f RaftNode \<Rightarrow> int \<times> bool" where
  "getStare s = (currentTerm s, lastApplied s \<noteq> 0)"

definition getRole :: "'f RaftNode \<Rightarrow> RaftState" where
  "getRole s = role s"

definition killed :: "'f RaftNode \<Rightarrow> bool" where
  "killed s = is_dead s"

definition kill :: "'f RaftNode \<Rightarrow> 'f RaftNode" where
  "kill s = s\<lparr>is_dead := True\<rparr>"

text \<open>
  The size of the log as an integer, the term of the entry at a physical index
  (\<open>log[idx].term()\<close>, which asserts the bound) and of the last entry (\<open>log.rbegin()->term()\<close>, which
  throws on an empty log), and an element of a vector.
\<close>

definition log_size :: "'f RaftNode \<Rightarrow> int" where
  "log_size s = int (logvec_size (log s))"

definition entry_term_at :: "'f store_env \<Rightarrow> 'f LogVec \<Rightarrow> int \<Rightarrow> raft_error + int" where
  "entry_term_at E lg idx =
     (case logvec_index E lg (nat idx) of None \<Rightarrow> Inl AssertFailed | Some e \<Rightarrow> Inr (e_term e))"

definition last_entry_term :: "'f store_env \<Rightarrow> 'f LogVec \<Rightarrow> raft_error + int" where
  "last_entry_term E lg =
     (case iter_deref E lg (logvec_rbegin lg) of None \<Rightarrow> Inl OutOfRange | Some e \<Rightarrow> Inr (e_term e))"

definition vec_at :: "'a list \<Rightarrow> nat \<Rightarrow> raft_error + 'a" where
  "vec_at xs i = (if i < length xs then Inr (xs ! i) else Inl BadIndex)"

section \<open>Voting\<close>

definition RequestVote ::
  "'f store_env \<Rightarrow> tick \<Rightarrow> 'f RaftNode \<Rightarrow> RequestVoteArgs \<Rightarrow> raft_error + ('f RaftNode \<times> RequestVoteReply)" where
  "RequestVote E c s request =
     (if rv_term request < currentTerm s then
        Inr (s, \<lparr>rvr_term = currentTerm s, rvr_voteGranted = False\<rparr>)
      else
        let s1 = (if currentTerm s < rv_term request
                  then persist (s\<lparr>currentTerm := rv_term request, votedFor := -1, role := FOLLOWER\<rparr>)
                  else s);
            denied = Inr (s1, \<lparr>rvr_term = currentTerm s1, rvr_voteGranted = False\<rparr>)
        in if votedFor s1 = -1 \<or> votedFor s1 = rv_candidateId request then
             rbind (last_entry_term E (log s1)) (\<lambda>last_term.
               if last_term < rv_lastLogTerm request
                 \<or> (rv_lastLogTerm request = last_term
                    \<and> VirtualLogIdx s1 (log_size s1 - 1) \<le> to_u64 (rv_lastLogIndex request))
               then Inr (persist (ResetVoteTimer c (s1\<lparr>currentTerm := rv_term request,
                            votedFor := rv_candidateId request, role := FOLLOWER\<rparr>)),
                         \<lparr>rvr_term = rv_term request, rvr_voteGranted = True\<rparr>)
               else denied)
           else denied)"

definition Elect ::
  "'f store_env \<Rightarrow> 'f RaftNode \<Rightarrow> raft_error + ('f RaftNode \<times> RequestVoteArgs \<times> nat list)" where
  "Elect E s =
     (if \<not> in_i32 (currentTerm s + 1) then Inl SignedOverflow
      else
        let s1 = persist (s\<lparr>currentTerm := currentTerm s + 1, role := CANDIDATE,
                            votedFor := to_i32 (cur_node_id s)\<rparr>)
        in rbind (last_entry_term E (log s1)) (\<lambda>last_term.
             Inr (s1, \<lparr>rv_term = currentTerm s1, rv_candidateId = to_i32 (cur_node_id s1),
                       rv_lastLogIndex = to_i32 (VirtualLogIdx s1 (log_size s1 - 1)),
                       rv_lastLogTerm = last_term\<rparr>,
                  filter (\<lambda>i. int i \<noteq> cur_node_id s1) [0..<length (cluster_configs s1)])))"

text \<open>
  The answer of a vote request as the requesting thread handles it; no reply is a failed RPC.
\<close>

definition GetVoteAnswer ::
  "'f RaftNode \<Rightarrow> RequestVoteArgs \<Rightarrow> RequestVoteReply option \<Rightarrow> 'f RaftNode \<times> bool" where
  "GetVoteAnswer s new_request answer =
     (case answer of
        None \<Rightarrow> (s, False)
      | Some reply \<Rightarrow>
          if role s \<noteq> CANDIDATE \<or> rv_term new_request \<noteq> currentTerm s then (s, False)
          else
            let s1 = (if currentTerm s < rvr_term reply
                      then persist (s\<lparr>currentTerm := rvr_term reply, role := FOLLOWER, votedFor := -1\<rparr>)
                      else s)
            in (s1, rvr_voteGranted reply))"

definition become_leader :: "'f RaftNode \<Rightarrow> 'f RaftNode" where
  "become_leader s =
     (let n = length (nextIndex s)
      in s\<lparr>role := LEADER,
           nextIndex := replicate n (VirtualLogIdx s (log_size s)),
           matchIndex := replicate n (lastIncludedIndex s) @ drop n (matchIndex s)\<rparr>)"

text \<open>
  The rest of \<open>collectVote\<close>, after a granted vote: the shared count, and whether the thread
  became leader and starts the heartbeat thread.
\<close>

definition collectVote_granted ::
  "'f RaftNode \<Rightarrow> RequestVoteArgs \<Rightarrow> int \<Rightarrow> 'f RaftNode \<times> int \<times> bool" where
  "collectVote_granted s args voteCount =
     (let half = int (length (cluster_configs s) div 2) in
      if half < to_u64 voteCount then (s, voteCount, False)
      else
        let voteCount' = voteCount + 1
        in if half < to_u64 voteCount' then
             if role s \<noteq> CANDIDATE \<or> currentTerm s \<noteq> rv_term args then (s, voteCount', False)
             else (become_leader s, voteCount', True)
           else (s, voteCount', False))"

definition ticker_round :: "tick \<Rightarrow> 'f RaftNode \<Rightarrow> 'f RaftNode \<times> bool" where
  "ticker_round c s = (ResetVoteTimer c s, role s \<noteq> LEADER)"

section \<open>Replication: the follower\<close>

text \<open>
  The search for the first entry of the conflicting term; an index below the representable
  range would be a signed overflow.
\<close>

function conflict_search :: "'f store_env \<Rightarrow> 'f RaftNode \<Rightarrow> int \<Rightarrow> int \<Rightarrow> raft_error + int" where
  "conflict_search E s xterm i =
     (if commitIndex s < to_u64 i then
        case entry_term_at E (log s) (RealLogIdx s i) of
          Inl err \<Rightarrow> Inl err
        | Inr t \<Rightarrow>
            if t = xterm then
              (if i \<le> - (2 ^ 31) then Inl SignedOverflow else conflict_search E s xterm (i - 1))
            else Inr i
      else Inr i)"
  by pat_completeness auto
termination
  by (relation "measure (\<lambda>(E, s, xterm, i). nat (i + 2 ^ 31))") auto

text \<open>
  The merge loop from entry \<open>idx\<close> on, \<open>es\<close> being the entries from there; \<open>base\<close> is the physical
  index of the entry before the first one.
\<close>

fun merge_entries ::
  "'f store_env \<Rightarrow> int \<Rightarrow> int \<Rightarrow> Entry list \<Rightarrow> 'f LogVec \<Rightarrow> raft_error + 'f LogVec" where
  "merge_entries E base idx [] lg = Inr lg"
| "merge_entries E base idx (e # es) lg =
     (let ridx = to_i32 (to_u64 (base + 1 + idx));
          append_rest = fold (\<lambda>e lg. logvec_push_back E lg e) (e # es)
      in if to_u64 ridx < int (logvec_size lg) then
           (case entry_term_at E lg (to_u64 ridx) of
              Inl err \<Rightarrow> Inl err
            | Inr t \<Rightarrow>
                if t \<noteq> e_term e then Inr (append_rest (logvec_truncate_from E lg (nat (to_u64 ridx))))
                else merge_entries E base (idx + 1) es lg)
         else if to_u64 ridx = int (logvec_size lg) then Inr (append_rest lg)
         else merge_entries E base (idx + 1) es lg)"

definition advance_commit :: "AppendEntriesArgs \<Rightarrow> 'f RaftNode \<Rightarrow> 'f RaftNode" where
  "advance_commit request s =
     (if commitIndex s < to_u64 (ae_leaderCommit request) then
        if VirtualLogIdx s (log_size s - 1) < to_u64 (ae_leaderCommit request)
        then s\<lparr>commitIndex := VirtualLogIdx s (log_size s - 1)\<rparr>
        else s\<lparr>commitIndex := to_u64 (ae_leaderCommit request)\<rparr>
      else s)"

definition default_AppendEntriesReply :: AppendEntriesReply where
  "default_AppendEntriesReply = \<lparr>aer_term = 0, aer_success = False, aer_xTerm = 0, aer_xIndex = 0, aer_xLen = 0\<rparr>"

text \<open>
  \<open>AppendEntries\<close> in three parts: the timer and the term, the check of the previous entry with the
  merge and the commit index, and the whole handler.
\<close>

definition ae_enter :: "tick \<Rightarrow> 'f RaftNode \<Rightarrow> AppendEntriesArgs \<Rightarrow> 'f RaftNode" where
  "ae_enter c s request =
     (let s1 = ResetVoteTimer c s
      in if currentTerm s1 < ae_term request
         then persist (s1\<lparr>currentTerm := ae_term request, votedFor := -1, role := FOLLOWER\<rparr>)
         else s1)"

definition ae_log ::
  "'f store_env \<Rightarrow> 'f RaftNode \<Rightarrow> AppendEntriesArgs \<Rightarrow> raft_error + ('f RaftNode \<times> AppendEntriesReply)" where
  "ae_log E s request =
     (let prev = ae_prevLogIndex request;
          reply = default_AppendEntriesReply\<lparr>aer_term := currentTerm s\<rparr>;
          xlen = to_i32 (VirtualLogIdx s (log_size s))
      in if to_u64 prev < lastIncludedIndex s then Inr (s, reply\<lparr>aer_success := True\<rparr>)
         else if VirtualLogIdx s (log_size s) \<le> to_u64 prev then
           Inr (s, reply\<lparr>aer_success := False, aer_xTerm := -1, aer_xLen := xlen\<rparr>)
         else
           rbind (entry_term_at E (log s) (RealLogIdx s prev)) (\<lambda>t.
             if t \<noteq> ae_prevLogTerm request then
               rbind (conflict_search E s t prev) (\<lambda>i.
                 if \<not> in_i32 (i + 1) then Inl SignedOverflow
                 else Inr (s, reply\<lparr>aer_success := False, aer_xTerm := t,
                                   aer_xIndex := i + 1, aer_xLen := xlen\<rparr>))
             else
               rbind (merge_entries E (RealLogIdx s prev) 0 (ae_entries request) (log s)) (\<lambda>lg.
                 Inr (advance_commit request (persist (s\<lparr>log := lg\<rparr>)),
                      reply\<lparr>aer_success := True\<rparr>))))"

definition AppendEntries ::
  "'f store_env \<Rightarrow> tick \<Rightarrow> 'f RaftNode \<Rightarrow> AppendEntriesArgs
     \<Rightarrow> raft_error + ('f RaftNode \<times> AppendEntriesReply)" where
  "AppendEntries E c s request =
     (if ae_term request < currentTerm s then
        Inr (s, default_AppendEntriesReply\<lparr>aer_term := currentTerm s, aer_success := False\<rparr>)
      else ae_log E (ae_enter c s request) request)"

section \<open>Replication: the leader\<close>

primrec count_matches ::
  "'f store_env \<Rightarrow> 'f RaftNode \<Rightarrow> int \<Rightarrow> nat list \<Rightarrow> int \<Rightarrow> raft_error + int" where
  "count_matches E s N [] count = Inr count"
| "count_matches E s N (i # is) count =
     (if int i = cur_node_id s then count_matches E s N is count
      else
        rbind (vec_at (matchIndex s) i) (\<lambda>m.
          if to_u64 N \<le> m then
            rbind (entry_term_at E (log s) (RealLogIdx s N)) (\<lambda>t.
              count_matches E s N is (if t = currentTerm s then count + 1 else count))
          else count_matches E s N is count))"

function commit_search :: "'f store_env \<Rightarrow> 'f RaftNode \<Rightarrow> int \<Rightarrow> raft_error + int" where
  "commit_search E s N =
     (if commitIndex s < to_u64 N then
        case count_matches E s N [0..<length (cluster_configs s)] 1 of
          Inl err \<Rightarrow> Inl err
        | Inr count \<Rightarrow>
            if int (length (cluster_configs s) div 2) < to_u64 count then Inr N
            else if N \<le> - (2 ^ 31) then Inl SignedOverflow else commit_search E s (N - 1)
      else Inr N)"
  by pat_completeness auto
termination
  by (relation "measure (\<lambda>(E, s, N). nat (N + 2 ^ 31))") auto

function rollback_search :: "'f store_env \<Rightarrow> 'f RaftNode \<Rightarrow> int \<Rightarrow> int \<Rightarrow> raft_error + int" where
  "rollback_search E s xterm i =
     (if lastIncludedIndex s < to_u64 i then
        case entry_term_at E (log s) (RealLogIdx s i) of
          Inl err \<Rightarrow> Inl err
        | Inr t \<Rightarrow>
            if xterm < t then
              (if i \<le> - (2 ^ 31) then Inl SignedOverflow else rollback_search E s xterm (i - 1))
            else Inr i
      else Inr i)"
  by pat_completeness auto
termination
  by (relation "measure (\<lambda>(E, s, xterm, i). nat (i + 2 ^ 31))") auto

definition handle_success ::
  "'f store_env \<Rightarrow> 'f RaftNode \<Rightarrow> nat \<Rightarrow> AppendEntriesArgs \<Rightarrow> raft_error + 'f RaftNode" where
  "handle_success E s target args =
     (let newMatchIdx = ae_prevLogIndex args + int (length (ae_entries args)) in
      if \<not> in_i32 newMatchIdx then Inl SignedOverflow
      else
        rbind (vec_at (matchIndex s) target) (\<lambda>m.
        rbind (vec_at (nextIndex s) target) (\<lambda>_.
          let m' = (if m < to_u64 newMatchIdx then to_u64 newMatchIdx else m);
              s1 = s\<lparr>matchIndex := (matchIndex s)[target := m'],
                     nextIndex := (nextIndex s)[target := to_u64 (m' + 1)]\<rparr>
          in rbind (commit_search E s1 (to_i32 (VirtualLogIdx s1 (log_size s1 - 1)))) (\<lambda>N.
               Inr (s1\<lparr>commitIndex := to_u64 N\<rparr>)))))"

definition rollback_next ::
  "'f store_env \<Rightarrow> 'f RaftNode \<Rightarrow> nat \<Rightarrow> AppendEntriesReply \<Rightarrow> raft_error + int" where
  "rollback_next E s target reply =
     (if aer_xTerm reply = -1 then
        Inr (if to_u64 (aer_xLen reply) \<le> lastIncludedIndex s then lastIncludedIndex s
             else to_u64 (aer_xLen reply))
      else
        rbind (vec_at (nextIndex s) target) (\<lambda>next.
          let i0 = to_i32 (to_u64 (next - 1));
              i1 = (if to_u64 i0 < lastIncludedIndex s then to_i32 (lastIncludedIndex s) else i0)
          in rbind (rollback_search E s (aer_xTerm reply) i1) (\<lambda>i.
             rbind (entry_term_at E (log s) (RealLogIdx s i)) (\<lambda>t.
               if to_u64 i = lastIncludedIndex s \<and> aer_xTerm reply < t then Inr (lastIncludedIndex s)
               else if t = aer_xTerm reply then
                 (if in_i32 (i + 1) then Inr (to_u64 (i + 1)) else Inl SignedOverflow)
               else if to_u64 (aer_xIndex reply) \<le> lastIncludedIndex s then Inr (lastIncludedIndex s)
               else Inr (to_u64 (aer_xIndex reply))))))"

text \<open>What a replication thread does once its RPC has returned; no reply is a failed RPC.\<close>

definition handleAppendEntries ::
  "'f store_env \<Rightarrow> tick \<Rightarrow> 'f RaftNode \<Rightarrow> nat \<Rightarrow> AppendEntriesArgs \<Rightarrow> AppendEntriesReply option
     \<Rightarrow> raft_error + 'f RaftNode" where
  "handleAppendEntries E c s target args answer =
     (case answer of
        None \<Rightarrow> Inr s
      | Some reply \<Rightarrow>
          if role s \<noteq> LEADER \<or> ae_term args \<noteq> currentTerm s then Inr s
          else if aer_success reply then handle_success E s target args
          else if currentTerm s < aer_term reply then
            Inr (persist (ResetVoteTimer c (s\<lparr>currentTerm := aer_term reply, role := FOLLOWER, votedFor := -1\<rparr>)))
          else if aer_term reply = currentTerm s \<and> role s = LEADER then
            rbind (rollback_next E s target reply) (\<lambda>next.
            rbind (vec_at (nextIndex s) target) (\<lambda>_.
              Inr (s\<lparr>nextIndex := (nextIndex s)[target := next]\<rparr>)))
          else Inr s)"

text \<open>
  The message for peer \<open>i\<close> in a heartbeat round; \<open>None\<close> where a snapshot would be sent instead,
  which the code leaves open.
\<close>

definition heartbeat_args ::
  "'f store_env \<Rightarrow> 'f RaftNode \<Rightarrow> nat \<Rightarrow> raft_error + AppendEntriesArgs option" where
  "heartbeat_args E s i =
     rbind (vec_at (nextIndex s) i) (\<lambda>next.
       let prev = to_i32 (to_u64 (next - 1));
           args = \<lparr>ae_term = currentTerm s, ae_leaderId = to_i32 (cur_node_id s),
                   ae_prevLogIndex = prev, ae_prevLogTerm = 0, ae_entries = [],
                   ae_leaderCommit = to_i32 (commitIndex s)\<rparr>
       in if to_u64 prev < lastIncludedIndex s then Inr None
          else
            rbind (if to_u64 prev < VirtualLogIdx s (log_size s - 1) then
                     if \<not> in_i32 (prev + 1) then Inl SignedOverflow
                     else
                       let startIndex = to_i32 (RealLogIdx s (prev + 1))
                       in case iter_collect (logvec_size (log s) - nat startIndex) E (log s)
                                 (iter_plus (logvec_begin (log s)) startIndex) (logvec_end (log s)) of
                            None \<Rightarrow> Inl OutOfRange
                          | Some es \<Rightarrow> Inr (args\<lparr>ae_entries := es\<rparr>)
                   else Inr args) (\<lambda>args'.
            rbind (entry_term_at E (log s) (RealLogIdx s prev)) (\<lambda>t.
              Inr (Some (args'\<lparr>ae_prevLogTerm := t\<rparr>)))))"

primrec heartbeat_all ::
  "'f store_env \<Rightarrow> 'f RaftNode \<Rightarrow> nat list \<Rightarrow> raft_error + (nat \<times> AppendEntriesArgs) list" where
  "heartbeat_all E s [] = Inr []"
| "heartbeat_all E s (i # is) =
     (if int i = cur_node_id s then heartbeat_all E s is
      else
        rbind (heartbeat_args E s i) (\<lambda>a.
        rbind (heartbeat_all E s is) (\<lambda>rest.
          Inr (case a of None \<Rightarrow> rest | Some args \<Rightarrow> (i, args) # rest))))"

text \<open>
  A round of \<open>SendHeartBeats\<close> after \<open>heartTimer.wait()\<close>: \<open>None\<close> ends the thread, otherwise the
  replication threads it starts.
\<close>

definition SendHeartBeats_round ::
  "'f store_env \<Rightarrow> tick \<Rightarrow> 'f RaftNode \<Rightarrow> raft_error + ('f RaftNode \<times> (nat \<times> AppendEntriesArgs) list) option" where
  "SendHeartBeats_round E c s =
     (if role s \<noteq> LEADER then Inr None
      else
        rbind (heartbeat_all E s [0..<length (cluster_configs s)]) (\<lambda>msgs.
          Inr (Some (ResetHeartTimer c HeartBeatTimeOut s, msgs))))"


declare conflict_search.simps [simp del] commit_search.simps [simp del] rollback_search.simps [simp del]

section \<open>Well-formed nodes\<close>

text \<open>
  \<open>es\<close> is the list of entries in the log. A log starts with the empty entry the constructor adds
  and is shorter than the range of a 32-bit index; there is no snapshot, so virtual and physical
  indices agree.
\<close>

definition log_fine :: "Entry list \<Rightarrow> bool" where
  "log_fine es \<longleftrightarrow> es \<noteq> [] \<and> length es < 2 ^ 31 - 1 \<and> e_term (es ! 0) = 0 \<and> (\<forall>e \<in> set es. 0 \<le> e_term e)"

definition node_ok :: "'f store_env \<Rightarrow> 'f RaftNode \<Rightarrow> Entry list \<Rightarrow> bool" where
  "node_ok E s es \<longleftrightarrow>
     logvec_rep E (log s) es \<and> log_fine es \<and> lastIncludedIndex s = 0
   \<and> length (nextIndex s) = length (cluster_configs s)
   \<and> length (matchIndex s) = length (cluster_configs s)
   \<and> length (cluster_configs s) < 2 ^ 31
   \<and> 0 \<le> cur_node_id s \<and> cur_node_id s < int (length (cluster_configs s))
   \<and> 0 \<le> currentTerm s \<and> currentTerm s < 2 ^ 31
   \<and> 0 \<le> commitIndex s \<and> commitIndex s < 2 ^ 31"

lemma node_okD:
  assumes "node_ok E s es"
  shows "logvec_rep E (log s) es" "es \<noteq> []" "length es < 2 ^ 31 - 1" "e_term (es ! 0) = 0"
    "\<forall>e \<in> set es. 0 \<le> e_term e" "lastIncludedIndex s = 0"
    "length (nextIndex s) = length (cluster_configs s)"
    "length (matchIndex s) = length (cluster_configs s)"
    "length (cluster_configs s) < 2 ^ 31"
    "0 \<le> cur_node_id s" "cur_node_id s < int (length (cluster_configs s))"
    "0 \<le> currentTerm s" "currentTerm s < 2 ^ 31"
    "0 \<le> commitIndex s" "commitIndex s < 2 ^ 31" "log_fine es"
  using assms by (simp_all add: node_ok_def log_fine_def)

lemma log_size_rep: "node_ok E s es \<Longrightarrow> log_size s = int (length es)"
  using lv.size_rep [OF node_okD(1)] by (simp add: log_size_def)

lemma log_size_pos: "node_ok E s es \<Longrightarrow> 1 \<le> log_size s \<and> log_size s < 2 ^ 31 - 1"
proof -
  assume ok: "node_ok E s es"
  have "0 < length es" using node_okD(2) [OF ok] by simp
  then show ?thesis using node_okD(3) [OF ok] log_size_rep [OF ok] by (simp add: Suc_leI)
qed

lemma virtual_id: "lastIncludedIndex s = 0 \<Longrightarrow> 0 \<le> x \<Longrightarrow> x < 2 ^ 31 \<Longrightarrow> VirtualLogIdx s x = x"
  by (simp add: VirtualLogIdx_def to_u64_small)

lemma real_id: "lastIncludedIndex s = 0 \<Longrightarrow> 0 \<le> x \<Longrightarrow> x < 2 ^ 31 \<Longrightarrow> RealLogIdx s x = x"
  by (simp add: RealLogIdx_def to_u64_small)

lemma to_u64_negative: "x < 0 \<Longrightarrow> - (2 ^ 31) \<le> x \<Longrightarrow> to_u64 x = x + 2 ^ 64"
proof -
  assume "x < 0" "- (2 ^ 31) \<le> x"
  then have "(x + 2 ^ 64) mod 2 ^ 64 = x + 2 ^ 64" by (intro mod_pos_pos_trivial) simp_all
  then show ?thesis by (simp add: to_u64_def)
qed

lemma to_u64_less_small: "in_i32 x \<Longrightarrow> b < 2 ^ 32 \<Longrightarrow> to_u64 x < b \<Longrightarrow> 0 \<le> x \<and> to_u64 x = x"
  using to_u64_negative [of x] to_u64_small [of x] by (cases "x < 0") (simp_all add: in_i32_def)

lemma term_at_rep:
  "logvec_rep E lg es \<Longrightarrow> 0 \<le> i \<Longrightarrow> i < int (length es) \<Longrightarrow>
    entry_term_at E lg i = Inr (e_term (es ! nat i))"
  using lv.index_rep [of E lg es "nat i"] by (simp add: entry_term_at_def nat_less_iff)

lemma term_at_outside:
  "logvec_rep E lg es \<Longrightarrow> int (length es) \<le> i \<Longrightarrow> entry_term_at E lg i = Inl AssertFailed"
  using lv.index_rep [of E lg es "nat i"] by (simp add: entry_term_at_def nat_le_iff)

lemma last_term_rep:
  assumes "logvec_rep E lg es" and "es \<noteq> []" and "length es < 2 ^ 31 - 1"
  shows "last_entry_term E lg = Inr (e_term (last es))"
  using rep_rbegin_deref [OF assms(1)] assms(2,3) by (simp add: last_entry_term_def)

lemma vec_at_simp [simp]: "i < length xs \<Longrightarrow> vec_at xs i = Inr (xs ! i)"
  by (simp add: vec_at_def)

lemma timer_only [simp]:
  "currentTerm (ResetVoteTimer c s) = currentTerm s" "votedFor (ResetVoteTimer c s) = votedFor s"
  "role (ResetVoteTimer c s) = role s" "log (ResetVoteTimer c s) = log s"
  "cluster_configs (ResetVoteTimer c s) = cluster_configs s"
  "cur_node_id (ResetVoteTimer c s) = cur_node_id s" "commitIndex (ResetVoteTimer c s) = commitIndex s"
  "lastIncludedIndex (ResetVoteTimer c s) = lastIncludedIndex s"
  "nextIndex (ResetVoteTimer c s) = nextIndex s" "matchIndex (ResetVoteTimer c s) = matchIndex s"
  "currentTerm (ResetHeartTimer c d s) = currentTerm s" "votedFor (ResetHeartTimer c d s) = votedFor s"
  "role (ResetHeartTimer c d s) = role s" "log (ResetHeartTimer c d s) = log s"
  "cluster_configs (ResetHeartTimer c d s) = cluster_configs s"
  "cur_node_id (ResetHeartTimer c d s) = cur_node_id s" "commitIndex (ResetHeartTimer c d s) = commitIndex s"
  "lastIncludedIndex (ResetHeartTimer c d s) = lastIncludedIndex s"
  "nextIndex (ResetHeartTimer c d s) = nextIndex s" "matchIndex (ResetHeartTimer c d s) = matchIndex s"
  by (simp_all add: ResetVoteTimer_def ResetHeartTimer_def Let_def)

lemma persist_id [simp]: "persist s = s"
  by (simp add: persist_def)

lemma node_ok_timer [simp]:
  "node_ok E (ResetVoteTimer c s) es = node_ok E s es"
  "node_ok E (ResetHeartTimer c d s) es = node_ok E s es"
  by (simp_all add: node_ok_def)

section \<open>Merging entries, on lists\<close>

fun merge_spec :: "Entry list \<Rightarrow> nat \<Rightarrow> Entry list \<Rightarrow> Entry list" where
  "merge_spec es i [] = es"
| "merge_spec es i (f # fs) =
     (if i < length es then
        if e_term (es ! i) \<noteq> e_term f then take i es @ f # fs else merge_spec es (Suc i) fs
      else if i = length es then es @ f # fs
      else merge_spec es (Suc i) fs)"

lemma merge_rep:
  assumes "logvec_rep E lg es" and "logvec_room E lg fs"
    and "0 \<le> base" "0 \<le> idx" and "base + 1 + idx + int (length fs) < 2 ^ 31" and "length es < 2 ^ 31"
  shows "\<exists>lg'. merge_entries E base idx fs lg = Inr lg' \<and> logvec_rep E lg' (merge_spec es (nat (base + 1 + idx)) fs)"
  using assms(2,4,5)
proof (induction fs arbitrary: idx)
  case Nil
  then show ?case using assms(1) by simp
next
  case (Cons f fs)
  let ?r = "base + 1 + idx"
  have r: "to_u64 ?r = ?r" "to_i32 ?r = ?r" "0 \<le> ?r"
    using Cons.prems assms(3) by (simp_all add: machine_simps)
  have size: "logvec_size lg = length es" by (rule lv.size_rep [OF assms(1)])
  have room: "logvec_room E lg fs" using Cons.prems(1) by (simp add: logvec_room_def)
  have Suc: "nat (base + 1 + (idx + 1)) = Suc (nat ?r)" using r(3) by simp
  have "0 \<le> idx + 1" and "base + 1 + (idx + 1) + int (length fs) < 2 ^ 31"
    using Cons.prems(2,3) by simp_all
  from Cons.IH [OF room this]
  obtain lg' where rest: "merge_entries E base (idx + 1) fs lg = Inr lg'"
    "logvec_rep E lg' (merge_spec es (Suc (nat ?r)) fs)" unfolding Suc by blast
  have tail: "logvec_rep E (fold (\<lambda>e lg. logvec_push_back E lg e) (f # fs) (logvec_truncate_from E lg i))
      (take i es @ f # fs)" for i
    by (rule lv.replace_tail [OF assms(1) Cons.prems(1)])
  have all: "logvec_rep E (fold (\<lambda>e lg. logvec_push_back E lg e) (f # fs) lg) (es @ f # fs)"
    by (rule lv.push_all [OF assms(1) Cons.prems(1)])
  consider "?r < int (length es)" | "?r = int (length es)" | "int (length es) < ?r" by linarith
  then show ?case
  proof cases
    case 1
    then have "nat ?r < length es" using r(3) by simp
    with 1 r size rest tail [of "nat ?r"] term_at_rep [OF assms(1) r(3) 1] show ?thesis
      by (simp add: Let_def)
  next
    case 2
    then have "nat ?r = length es" by simp
    with 2 r size all show ?thesis by (simp add: Let_def)
  next
    case 3
    then have "length es < nat ?r" by simp
    with 3 r size rest show ?thesis by (simp add: Let_def)
  qed
qed

lemma merge_prefix: "i \<le> length es \<Longrightarrow> take i (merge_spec es i fs) = take i es"
proof (induction fs arbitrary: i)
  case (Cons f fs)
  show ?case
  proof (cases "i < length es \<and> e_term (es ! i) = e_term f")
    case True
    then have "take (Suc i) (merge_spec es (Suc i) fs) = take (Suc i) es" using Cons.IH by simp
    then have "take i (take (Suc i) (merge_spec es (Suc i) fs)) = take i (take (Suc i) es)" by simp
    with True show ?thesis by (simp add: min_def)
  next
    case False
    with Cons.prems show ?thesis by auto
  qed
qed simp

lemma merge_agrees:
  "i \<le> length es \<Longrightarrow> k < length fs \<Longrightarrow>
    i + k < length (merge_spec es i fs) \<and> e_term (merge_spec es i fs ! (i + k)) = e_term (fs ! k)"
proof (induction fs arbitrary: i k)
  case (Cons f fs)
  show ?case
  proof (cases "i < length es \<and> e_term (es ! i) = e_term f")
    case True
    then have m: "merge_spec es i (f # fs) = merge_spec es (Suc i) fs" by simp
    show ?thesis
    proof (cases k)
      case 0
      have pre: "take (Suc i) (merge_spec es (Suc i) fs) = take (Suc i) es"
        using merge_prefix [of "Suc i" es fs] True by simp
      then have len: "i < length (merge_spec es (Suc i) fs)"
        using True by (metis length_take less_Suc_eq_le min_less_iff_conj lessI)
      have "merge_spec es (Suc i) fs ! i = es ! i"
        using pre by (metis lessI nth_take)
      with len m 0 True show ?thesis by simp
    next
      case (Suc j)
      with Cons.IH [of "Suc i" j] Cons.prems True m show ?thesis by simp
    qed
  next
    case False
    with Cons.prems have "merge_spec es i (f # fs) = take i es @ f # fs" by auto
    with Cons.prems show ?thesis by (simp add: nth_append)
  qed
qed simp

lemma merge_same:
  "i + length fs \<le> length es \<Longrightarrow> (\<And>k. k < length fs \<Longrightarrow> e_term (es ! (i + k)) = e_term (fs ! k)) \<Longrightarrow>
    merge_spec es i fs = es"
proof (induction fs arbitrary: i)
  case (Cons f fs)
  have "e_term (es ! i) = e_term f" using Cons.prems(2) [of 0] by simp
  moreover have "merge_spec es (Suc i) fs = es"
    using Cons.IH [of "Suc i"] Cons.prems(1) Cons.prems(2) [of "Suc _"] by simp
  ultimately show ?case using Cons.prems(1) by simp
qed simp

end
