(* ===== verification/Curp_Master.thy ===== *)
theory Curp_Master
  imports Witness_Service Raft_Node "HOL-Library.Multiset"
begin

text \<open>
  The CURP master (\<^verbatim>\<open>include/curp/curp_master.h\<close>, \<^verbatim>\<open>src/curp/curp_master.cpp\<close>), a Raft node that
  executes requests before they are replicated. The mutex \<open>curp_mtx_\<close> is a flag of the state:
  a method takes it at its start and gives it back at its end, and taking it twice on one
  thread is the error \<open>Deadlock\<close>. Witnesses are shared objects: the master keeps addresses, and the
  witnesses themselves are in the heap \<open>h\<close>, which methods that use them take and return.
  Tracing spans are added in \<open>Master_Trace\<close>; log lines are left out.
\<close>

section \<open>Data\<close>

datatype CurpState = NORMAL | RECOVERING | STOPPED

datatype OpType = PUT | GET | DELETE_OP

record CurpOp =
  op_rpc_id :: u64
  op_client_id :: u64
  op_type :: OpType
  op_key :: string
  op_value :: bytes

record ProposeResult =
  pr_success :: bool
  pr_fast_path :: bool
  pr_need_sync :: bool
  pr_error :: string

record ReadResult =
  rr_success :: bool
  rr_value :: bytes

datatype curp_error = Deadlock

type_synonym heap = "nat \<Rightarrow> Witness"

record 'f CurpMaster =
  base :: "'f RaftNode"
  curp_mtx :: bool
  curp_state :: CurpState
  witness_clients :: "nat list"
  local_witness :: "nat option"
  unsynced_keys :: "string set"
  unsynced_ops :: "(u64, CurpOp) umap"
  executed_ops :: "(u64, bytes) umap"
  last_sync_index :: int
  syncing :: bool
  sync_running :: bool
  total_proposes :: u64
  total_fast_path :: u64
  total_slow_path :: u64
  total_recovered :: u64

definition new_CurpMaster :: "'f store_env \<Rightarrow> NodeConfig list \<Rightarrow> string \<Rightarrow> int \<Rightarrow> 'f CurpMaster" where
  "new_CurpMaster E configs log_dir node_id =
     \<lparr>base = new_RaftNode E configs log_dir node_id, curp_mtx = False, curp_state = NORMAL,
      witness_clients = [], local_witness = None, unsynced_keys = {}, unsynced_ops = [],
      executed_ops = [], last_sync_index = 0, syncing = False, sync_running = True,
      total_proposes = 0, total_fast_path = 0, total_slow_path = 0, total_recovered = 0\<rparr>"

section \<open>Internal methods\<close>

definition lock_curp :: "'f CurpMaster \<Rightarrow> curp_error + 'f CurpMaster" where
  "lock_curp m = (if curp_mtx m then Inl Deadlock else Inr (m\<lparr>curp_mtx := True\<rparr>))"

definition unlock_curp :: "'f CurpMaster \<Rightarrow> 'f CurpMaster" where
  "unlock_curp m = m\<lparr>curp_mtx := False\<rparr>"

definition is_executed :: "'f CurpMaster \<Rightarrow> u64 \<Rightarrow> bool" where
  "is_executed m rpc_id \<longleftrightarrow> um_find (executed_ops m) rpc_id \<noteq> None"

definition record_executed :: "u64 \<Rightarrow> bytes \<Rightarrow> 'f CurpMaster \<Rightarrow> 'f CurpMaster" where
  "record_executed rpc_id result m = m\<lparr>executed_ops := um_put rpc_id result (executed_ops m)\<rparr>"

definition can_speculative_execute :: "'f CurpMaster \<Rightarrow> CurpOp \<Rightarrow> bool" where
  "can_speculative_execute m op =
     (if op_type op = PUT \<or> op_type op = DELETE_OP then op_key op \<notin> unsynced_keys m
      else if op_type op = GET then op_key op \<notin> unsynced_keys m
      else True)"

definition mark_unsynced :: "CurpOp \<Rightarrow> 'f CurpMaster \<Rightarrow> 'f CurpMaster" where
  "mark_unsynced op m =
     m\<lparr>unsynced_keys := insert (op_key op) (unsynced_keys m),
       unsynced_ops := um_put (op_rpc_id op) op (unsynced_ops m)\<rparr>"

definition execute_op :: "CurpOp \<Rightarrow> bytes" where
  "execute_op op = (case op_type op of PUT \<Rightarrow> [] | DELETE_OP \<Rightarrow> [] | GET \<Rightarrow> [])"

section \<open>Client requests\<close>

definition propose_locked :: "CurpOp \<Rightarrow> 'f CurpMaster \<Rightarrow> ProposeResult \<times> 'f CurpMaster" where
  "propose_locked op m0 =
     (let m = m0\<lparr>total_proposes := total_proposes m0 + 1\<rparr> in
      if is_executed m (op_rpc_id op) then
        (\<lparr>pr_success = True, pr_fast_path = True, pr_need_sync = False, pr_error = []\<rparr>, m)
      else if can_speculative_execute m op then
        let m1 = mark_unsynced op m;
            m2 = record_executed (op_rpc_id op) (execute_op op) m1
        in (\<lparr>pr_success = True, pr_fast_path = True, pr_need_sync = False, pr_error = []\<rparr>,
            m2\<lparr>total_fast_path := total_fast_path m2 + 1\<rparr>)
      else
        (\<lparr>pr_success = False, pr_fast_path = False, pr_need_sync = True, pr_error = ''key conflict''\<rparr>,
         m\<lparr>total_slow_path := total_slow_path m + 1\<rparr>))"

definition propose :: "'f CurpMaster \<Rightarrow> CurpOp \<Rightarrow> curp_error + (ProposeResult \<times> 'f CurpMaster)" where
  "propose m op =
     (if curp_state m = RECOVERING then
        Inr (\<lparr>pr_success = False, pr_fast_path = False, pr_need_sync = False,
              pr_error = ''master is recovering''\<rparr>, m)
      else
        rbind (lock_curp m) (\<lambda>m1.
          let (r, m2) = propose_locked op m1 in Inr (r, unlock_curp m2)))"

definition read_master :: "'f CurpMaster \<Rightarrow> string \<Rightarrow> curp_error + (ReadResult \<times> 'f CurpMaster)" where
  "read_master m key =
     (if curp_state m = RECOVERING then Inr (\<lparr>rr_success = False, rr_value = []\<rparr>, m)
      else
        rbind (lock_curp m) (\<lambda>m1.
          Inr (if key \<in> unsynced_keys m1 then \<lparr>rr_success = False, rr_value = []\<rparr>
               else \<lparr>rr_success = True, rr_value = []\<rparr>, unlock_curp m1)))"

text \<open>\<open>sync\<close> tells whether it wakes the sync thread.\<close>

definition sync_master :: "'f CurpMaster \<Rightarrow> curp_error + (bool \<times> 'f CurpMaster)" where
  "sync_master m =
     rbind (lock_curp m) (\<lambda>m1. Inr (unsynced_ops m1 \<noteq> [], unlock_curp m1))"

section \<open>Synchronisation\<close>

text \<open>The log entries \<open>do_sync\<close> builds; nothing is done with them.\<close>

definition sync_entries :: "'f CurpMaster \<Rightarrow> Entry list" where
  "sync_entries m =
     map (\<lambda>(rpc_id, op). default_Entry\<lparr>e_seq := rpc_id, e_term := currentTerm (base m),
        e_key := map (\<lambda>ch. word_of_nat (of_char ch)) (op_key op), e_value := op_value op\<rparr>) (unsynced_ops m)"

definition node_name :: "'f CurpMaster \<Rightarrow> string" where
  "node_name m = to_string (nat (cur_node_id (base m)))"

definition do_sync :: "'f CurpMaster \<Rightarrow> heap \<Rightarrow> curp_error + ('f CurpMaster \<times> heap)" where
  "do_sync m0 h =
     rbind (lock_curp m0) (\<lambda>m.
       if unsynced_ops m = [] then Inr (unlock_curp m, h)
       else
         let m1 = m\<lparr>syncing := True\<rparr>;
             entries = sync_entries m1;
             size = log_size (base m1);
             m2 = m1\<lparr>unsynced_keys := {}, unsynced_ops := [],
                     last_sync_index := (if 0 < size then size - 1 else 0)\<rparr>;
             m3 = m2\<lparr>syncing := False\<rparr>;
             h' = (case local_witness m3 of
                     None \<Rightarrow> h
                   | Some a \<Rightarrow> h(a := witness_reset (h a) (node_name m3)))
         in Inr (unlock_curp m3, h'))"

text \<open>A round of \<open>sync_worker\<close> after the wait: \<open>None\<close> ends the thread.\<close>

definition sync_worker_round :: "'f CurpMaster \<Rightarrow> heap \<Rightarrow> curp_error + ('f CurpMaster \<times> heap) option" where
  "sync_worker_round m h =
     rbind (lock_curp m) (\<lambda>m1.
       if \<not> sync_running m1 then Inr None
       else if unsynced_ops m1 \<noteq> [] \<and> \<not> syncing m1 \<and> curp_state m1 = NORMAL
       then rbind (do_sync (unlock_curp m1) h) (\<lambda>r. Inr (Some r))
       else Inr (Some (unlock_curp m1, h)))"

definition set_witness_clients :: "nat list \<Rightarrow> 'f CurpMaster \<Rightarrow> curp_error + 'f CurpMaster" where
  "set_witness_clients clients m =
     rbind (lock_curp m) (\<lambda>m1. Inr (unlock_curp (m1\<lparr>witness_clients := clients\<rparr>)))"

definition set_local_witness :: "nat option \<Rightarrow> 'f CurpMaster \<Rightarrow> curp_error + 'f CurpMaster" where
  "set_local_witness w m =
     rbind (lock_curp m) (\<lambda>m1. Inr (unlock_curp (m1\<lparr>local_witness := w\<rparr>)))"

definition destroy_master :: "'f CurpMaster \<Rightarrow> 'f CurpMaster" where
  "destroy_master m = m\<lparr>sync_running := False\<rparr>"

section \<open>Recovery\<close>

definition recover_from_backup :: "'f CurpMaster \<Rightarrow> 'f CurpMaster" where
  "recover_from_backup m = m"

text \<open>The request a saved record is replayed as, and the body of the replay loop.\<close>

definition record_op :: "WitnessRecord \<Rightarrow> CurpOp" where
  "record_op r = \<lparr>op_rpc_id = wr_rpc_id r, op_client_id = wr_client_id r, op_type = PUT,
     op_key = wr_key r, op_value = wr_request_data r\<rparr>"

definition replay_one :: "WitnessRecord \<Rightarrow> 'f CurpMaster \<Rightarrow> 'f CurpMaster" where
  "replay_one r m =
     (if is_executed m (wr_rpc_id r) then m
      else
        let op = record_op r;
            m1 = record_executed (op_rpc_id op) (execute_op op) m;
            m2 = mark_unsynced op m1
        in m2\<lparr>total_recovered := total_recovered m2 + 1\<rparr>)"

definition replay_ops :: "WitnessRecord list \<Rightarrow> 'f CurpMaster \<Rightarrow> curp_error + 'f CurpMaster" where
  "replay_ops records m =
     rbind (lock_curp m) (\<lambda>m1. Inr (unlock_curp (fold replay_one records m1)))"

definition replay_from_witness ::
  "rpc_outcome \<Rightarrow> nat \<Rightarrow> 'f CurpMaster \<Rightarrow> heap \<Rightarrow> curp_error + (nat \<times> 'f CurpMaster \<times> heap)" where
  "replay_from_witness out client m h =
     (let (records, w) = WitnessClient_get_recovery_data out (h client) (node_name m) in
      rbind (replay_ops records m) (\<lambda>m'. Inr (length records, m', h(client := w))))"

definition replay_from_local_witness ::
  "nat \<Rightarrow> 'f CurpMaster \<Rightarrow> heap \<Rightarrow> curp_error + (nat \<times> 'f CurpMaster \<times> heap)" where
  "replay_from_local_witness a m h =
     (let (records, w) = witness_get_recovery_data (h a) (node_name m) in
      rbind (replay_ops records m) (\<lambda>m'. Inr (length records, m', h(a := w))))"

text \<open>
  \<open>recover\<close>: no stub throws, so the loop over the remote witnesses ends after the first.
\<close>

definition recover ::
  "rpc_outcome \<Rightarrow> 'f CurpMaster \<Rightarrow> heap \<Rightarrow> curp_error + ('f CurpMaster \<times> heap)" where
  "recover out m0 h =
     (let m1 = recover_from_backup (m0\<lparr>curp_state := RECOVERING\<rparr>) in
      rbind (case local_witness m1 of
               Some a \<Rightarrow> replay_from_local_witness a m1 h
             | None \<Rightarrow>
                 (case witness_clients m1 of
                    [] \<Rightarrow> Inr (0, m1, h)
                  | client # _ \<Rightarrow> replay_from_witness out client m1 h)) (\<lambda>(n, m2, h2).
      rbind (lock_curp m2) (\<lambda>m3.
      rbind (if unsynced_ops m3 \<noteq> [] then do_sync m3 h2 else Inr (m3, h2)) (\<lambda>(m4, h4).
        Inr ((unlock_curp m4)\<lparr>curp_state := NORMAL\<rparr>, h4)))))"

section \<open>Queries\<close>

definition get_curp_state :: "'f CurpMaster \<Rightarrow> CurpState" where
  "get_curp_state m = curp_state m"

definition unsynced_count :: "'f CurpMaster \<Rightarrow> curp_error + nat" where
  "unsynced_count m = rbind (lock_curp m) (\<lambda>m1. Inr (length (unsynced_ops m1)))"

definition has_unsynced_key :: "'f CurpMaster \<Rightarrow> string \<Rightarrow> curp_error + bool" where
  "has_unsynced_key m key = rbind (lock_curp m) (\<lambda>m1. Inr (key \<in> unsynced_keys m1))"

definition is_recovering :: "'f CurpMaster \<Rightarrow> bool" where
  "is_recovering m \<longleftrightarrow> curp_state m = RECOVERING"

section \<open>Runs of a master\<close>

text \<open>
  What the threads of a master and the users of its witnesses can do, one section under the
  mutex at a time: \<open>propose\<close> looks at the state before it takes the mutex, so a request may reach the
  locked part in any state.
\<close>

inductive master_step :: "'f CurpMaster \<times> heap \<Rightarrow> 'f CurpMaster \<times> heap \<Rightarrow> bool" where
  ms_propose: "propose_locked op m = (r, m') \<Longrightarrow> master_step (m, h) (m', h)"
| ms_do_sync: "do_sync m h = Inr (m', h') \<Longrightarrow> master_step (m, h) (m', h')"
| ms_replay: "replay_ops records m = Inr m' \<Longrightarrow> master_step (m, h) (m', h)"
| ms_state: "master_step (m, h) (m\<lparr>curp_state := st\<rparr>, h)"
| ms_clients: "set_witness_clients ws m = Inr m' \<Longrightarrow> master_step (m, h) (m', h)"
| ms_local: "set_local_witness w m = Inr m' \<Longrightarrow> master_step (m, h) (m', h)"
| ms_destroy: "master_step (m, h) (destroy_master m, h)"
| ms_witness: "witness_step (h a) w' \<Longrightarrow> master_step (m, h) (m, h(a := w'))"

section \<open>The invariant\<close>

definition master_inv :: "'f CurpMaster \<Rightarrow> bool" where
  "master_inv m \<longleftrightarrow>
     \<not> curp_mtx m \<and> um_ok (unsynced_ops m) \<and> um_ok (executed_ops m)
   \<and> unsynced_keys m = (\<lambda>(i, op). op_key op) ` set (unsynced_ops m)
   \<and> (\<forall>(i, op) \<in> set (unsynced_ops m). op_rpc_id op = i \<and> is_executed m i)"

lemma master_invD:
  assumes "master_inv m"
  shows "\<not> curp_mtx m" "um_ok (unsynced_ops m)" "um_ok (executed_ops m)"
    "unsynced_keys m = (\<lambda>(i, op). op_key op) ` set (unsynced_ops m)"
    "(i, op) \<in> set (unsynced_ops m) \<Longrightarrow> op_rpc_id op = i \<and> is_executed m i"
  using assms by (auto simp: master_inv_def)

lemma not_executed_fresh: "master_inv m \<Longrightarrow> \<not> is_executed m i \<Longrightarrow> um_find (unsynced_ops m) i = None"
  using master_invD(5) [of m i] by (auto simp: um_find_None)

lemma master_inv_frame [simp]:
  "master_inv (m\<lparr>total_proposes := n\<rparr>) = master_inv m" "master_inv (m\<lparr>total_fast_path := n\<rparr>) = master_inv m"
  "master_inv (m\<lparr>total_slow_path := n\<rparr>) = master_inv m" "master_inv (m\<lparr>total_recovered := n\<rparr>) = master_inv m"
  "master_inv (m\<lparr>curp_state := st\<rparr>) = master_inv m" "master_inv (m\<lparr>sync_running := b\<rparr>) = master_inv m"
  "master_inv (m\<lparr>witness_clients := ws\<rparr>) = master_inv m" "master_inv (m\<lparr>local_witness := w\<rparr>) = master_inv m"
  by (simp_all add: master_inv_def is_executed_def)

lemma mtx_id [simp]: "\<not> curp_mtx m \<Longrightarrow> m\<lparr>curp_mtx := False\<rparr> = m"
  by (cases m) simp

text \<open>Executing a new request and marking it unsynced, in either order.\<close>

lemma inv_execute:
  assumes "master_inv m" and "\<not> is_executed m (op_rpc_id op)"
  shows "master_inv (record_executed (op_rpc_id op) v (mark_unsynced op m))"
    and "master_inv (mark_unsynced op (record_executed (op_rpc_id op) v m))"
proof -
  note inv = master_invD [OF assms(1)]
  let ?m = "record_executed (op_rpc_id op) v (mark_unsynced op m)"
  have fresh: "um_find (unsynced_ops m) (op_rpc_id op) = None" by (rule not_executed_fresh [OF assms])
  have ops: "unsynced_ops ?m = unsynced_ops m @ [(op_rpc_id op, op)]"
    by (simp add: record_executed_def mark_unsynced_def um_put_fresh [OF fresh])
  have exec: "is_executed ?m i \<longleftrightarrow> i = op_rpc_id op \<or> is_executed m i" for i
    by (simp add: is_executed_def record_executed_def mark_unsynced_def um_find_put)
  have ok: "um_ok (unsynced_ops ?m)" "um_ok (executed_ops ?m)"
    using inv(2,3) by (simp_all add: record_executed_def mark_unsynced_def umap_simps)
  have keys: "unsynced_keys ?m = (\<lambda>(i, op). op_key op) ` set (unsynced_ops ?m)"
    unfolding ops using inv(4) by (auto simp: record_executed_def mark_unsynced_def)
  have "\<not> curp_mtx ?m" using inv(1) by (simp add: record_executed_def mark_unsynced_def)
  moreover have "\<forall>(i, op') \<in> set (unsynced_ops ?m). op_rpc_id op' = i \<and> is_executed ?m i"
    unfolding ops using inv(5) exec by auto
  ultimately show 1: "master_inv ?m" using ok keys by (simp add: master_inv_def)
  have "mark_unsynced op (record_executed (op_rpc_id op) v m) = ?m"
    by (simp add: record_executed_def mark_unsynced_def)
  with 1 show "master_inv (mark_unsynced op (record_executed (op_rpc_id op) v m))" by simp
qed

lemma inv_propose:
  assumes "master_inv m" and "propose_locked op m = (r, m')"
  shows "master_inv m'"
proof -
  let ?m = "m\<lparr>total_proposes := total_proposes m + 1\<rparr>"
  have m: "master_inv ?m" using assms(1) by simp
  show ?thesis
  proof (cases "\<not> is_executed ?m (op_rpc_id op) \<and> can_speculative_execute ?m op")
    case True
    let ?m2 = "record_executed (op_rpc_id op) (execute_op op) (mark_unsynced op ?m)"
    have "master_inv ?m2" using inv_execute(1) [OF m] True by blast
    moreover have "m' = ?m2\<lparr>total_fast_path := total_fast_path ?m2 + 1\<rparr>"
      using assms(2) True by (simp add: propose_locked_def Let_def)
    ultimately show ?thesis by simp
  next
    case False
    then have "m' = ?m \<or> m' = ?m\<lparr>total_slow_path := total_slow_path ?m + 1\<rparr>"
      using assms(2) by (auto simp: propose_locked_def Let_def split: if_splits)
    with assms(1) show ?thesis by auto
  qed
qed

lemma inv_replay_one:
  assumes "master_inv m"
  shows "master_inv (replay_one r m)"
proof (cases "is_executed m (wr_rpc_id r)")
  case True
  with assms show ?thesis by (simp add: replay_one_def)
next
  case False
  let ?op = "record_op r"
  let ?m2 = "mark_unsynced ?op (record_executed (op_rpc_id ?op) (execute_op ?op) m)"
  have "master_inv ?m2" by (rule inv_execute(2) [OF assms]) (use False in \<open>simp add: record_op_def\<close>)
  moreover have "replay_one r m = ?m2\<lparr>total_recovered := total_recovered ?m2 + 1\<rparr>"
    using False by (simp add: replay_one_def Let_def)
  ultimately show ?thesis by simp
qed

lemma replay_one_mtx [simp]:
  "replay_one r (m\<lparr>curp_mtx := b\<rparr>) = (replay_one r m)\<lparr>curp_mtx := b\<rparr>"
  by (simp add: replay_one_def is_executed_def record_executed_def mark_unsynced_def Let_def)

lemma fold_replay_mtx: "fold replay_one rs (m\<lparr>curp_mtx := b\<rparr>) = (fold replay_one rs m)\<lparr>curp_mtx := b\<rparr>"
  by (induction rs arbitrary: m) simp_all

lemma replay_one_same [simp]:
  "curp_mtx (replay_one r m) = curp_mtx m" "base (replay_one r m) = base m"
  "local_witness (replay_one r m) = local_witness m" "witness_clients (replay_one r m) = witness_clients m"
  "curp_state (replay_one r m) = curp_state m"
  by (simp_all add: replay_one_def record_executed_def mark_unsynced_def Let_def)

lemma fold_replay_same:
  "curp_mtx (fold replay_one rs m) = curp_mtx m" "base (fold replay_one rs m) = base m"
  "local_witness (fold replay_one rs m) = local_witness m"
  "curp_state (fold replay_one rs m) = curp_state m"
  by (induction rs arbitrary: m) simp_all

lemma replay_ops_eq: "\<not> curp_mtx m \<Longrightarrow> replay_ops rs m = Inr (fold replay_one rs m)"
proof -
  assume a: "\<not> curp_mtx m"
  then have "(fold replay_one rs m)\<lparr>curp_mtx := False\<rparr> = fold replay_one rs m"
    using fold_replay_same(1) [of rs m] by simp
  with a show ?thesis by (simp add: replay_ops_def lock_curp_def unlock_curp_def fold_replay_mtx)
qed

text \<open>Whichever witness \<open>recover\<close> reads, the master has replayed some records after it.\<close>

lemma replay_source:
  assumes "\<not> curp_mtx m"
  obtains n rs h' where
    "(case local_witness m of
        Some a \<Rightarrow> replay_from_local_witness a m h
      | None \<Rightarrow> (case witness_clients m of [] \<Rightarrow> Inr (0, m, h) | client # _ \<Rightarrow> replay_from_witness out client m h))
     = Inr (n, fold replay_one rs m, h')"
proof (cases "local_witness m")
  case (Some a)
  obtain rs w where "witness_get_recovery_data (h a) (node_name m) = (rs, w)" by fastforce
  with Some assms that [of "length rs" rs "h(a := w)"] show ?thesis
    by (simp add: replay_from_local_witness_def replay_ops_eq)
next
  case None
  show ?thesis
  proof (cases "witness_clients m")
    case Nil
    with None that [of 0 "[]" h] show ?thesis by simp
  next
    case (Cons c cs)
    obtain rs w where "WitnessClient_get_recovery_data out (h c) (node_name m) = (rs, w)" by fastforce
    with None Cons assms that [of "length rs" rs "h(c := w)"] show ?thesis
      by (simp add: replay_from_witness_def replay_ops_eq)
  qed
qed

lemma inv_fold_replay: "master_inv m \<Longrightarrow> master_inv (fold replay_one rs m)"
  by (induction rs arbitrary: m) (simp_all add: inv_replay_one)

lemma inv_do_sync:
  assumes "master_inv m" and "do_sync m h = Inr (m', h')"
  shows "master_inv m'"
proof -
  note inv = master_invD [OF assms(1)]
  show ?thesis
  proof (cases "unsynced_ops m = []")
    case True
    then have "m' = m" using assms(2) inv(1)
      by (auto simp: do_sync_def lock_curp_def unlock_curp_def split: if_splits)
    with assms(1) show ?thesis by simp
  next
    case False
    then show ?thesis using assms(2) inv(1,3)
      by (auto simp: do_sync_def lock_curp_def unlock_curp_def Let_def master_inv_def is_executed_def)
  qed
qed

lemma step_master_inv: "master_step s s' \<Longrightarrow> master_inv (fst s) \<Longrightarrow> master_inv (fst s')"
proof (induction rule: master_step.induct)
  case (ms_propose op m r m' h)
  then show ?case using inv_propose [of m op] by simp
next
  case (ms_do_sync m h m' h')
  then show ?case using inv_do_sync [of m h] by simp
next
  case (ms_replay records m m' h)
  then show ?case using replay_ops_eq [of m records] master_invD(1) [of m] inv_fold_replay [of m records] by simp
next
  case (ms_clients ws m m' h)
  then have "m' = m\<lparr>witness_clients := ws\<rparr>" using master_invD(1) [of m]
    by (auto simp: set_witness_clients_def lock_curp_def unlock_curp_def)
  then show ?case using ms_clients by simp
next
  case (ms_local w m m' h)
  then have "m' = m\<lparr>local_witness := w\<rparr>" using master_invD(1) [of m]
    by (auto simp: set_local_witness_def lock_curp_def unlock_curp_def)
  then show ?case using ms_local by simp
qed (simp_all add: destroy_master_def)

lemma run_master_inv: "master_step\<^sup>*\<^sup>* s s' \<Longrightarrow> master_inv (fst s) \<Longrightarrow> master_inv (fst s')"
  by (induction rule: rtranclp_induct) (auto intro: step_master_inv)

lemma new_master_inv: "master_inv (new_CurpMaster E configs dir i)"
  by (simp add: master_inv_def new_CurpMaster_def)

section \<open>Requests are executed once\<close>

lemma executed_after:
  "is_executed (record_executed i v m) j \<longleftrightarrow> j = i \<or> is_executed m j"
  "is_executed (mark_unsynced op m) j \<longleftrightarrow> is_executed m j"
  by (simp_all add: is_executed_def record_executed_def mark_unsynced_def um_find_put)

lemma replay_one_executed: "is_executed (replay_one r m) i \<longleftrightarrow> is_executed m i \<or> i = wr_rpc_id r"
proof (cases "is_executed m (wr_rpc_id r)")
  case True
  then show ?thesis by (auto simp: replay_one_def)
next
  case False
  have "is_executed (x\<lparr>total_recovered := n\<rparr>) i = is_executed x i" for x :: "'a CurpMaster" and n
    by (simp add: is_executed_def)
  with False show ?thesis by (auto simp: replay_one_def Let_def executed_after record_op_def)
qed

lemma fold_replay_executed:
  "is_executed (fold replay_one rs m) i \<longleftrightarrow> is_executed m i \<or> i \<in> wr_rpc_id ` set rs"
  by (induction rs arbitrary: m) (auto simp: replay_one_executed)

lemma propose_locked_cases:
  assumes "master_inv m"
  shows "\<exists>r m'. propose_locked op m = (r, m') \<and> master_inv m' \<and> curp_state m' = curp_state m
    \<and> (if is_executed m (op_rpc_id op) then
         pr_success r \<and> pr_fast_path r \<and> \<not> pr_need_sync r
       \<and> executed_ops m' = executed_ops m \<and> unsynced_ops m' = unsynced_ops m
       else if op_key op \<in> unsynced_keys m then
         \<not> pr_success r \<and> pr_need_sync r
       \<and> executed_ops m' = executed_ops m \<and> unsynced_ops m' = unsynced_ops m
       else
         pr_success r \<and> pr_fast_path r \<and> \<not> pr_need_sync r
       \<and> executed_ops m' = um_put (op_rpc_id op) [] (executed_ops m)
       \<and> unsynced_ops m' = unsynced_ops m @ [(op_rpc_id op, op)])"
proof -
  obtain r m' where run: "propose_locked op m = (r, m')" by fastforce
  note inv = inv_propose [OF assms run]
  have fresh: "\<not> is_executed m (op_rpc_id op) \<Longrightarrow>
      um_put (op_rpc_id op) op (unsynced_ops m) = unsynced_ops m @ [(op_rpc_id op, op)]"
    using um_put_fresh [OF not_executed_fresh [OF assms]] .
  have exec: "is_executed (m\<lparr>total_proposes := n\<rparr>) i = is_executed m i" for n i by (simp add: is_executed_def)
  have can: "can_speculative_execute (m\<lparr>total_proposes := n\<rparr>) op \<longleftrightarrow> op_key op \<notin> unsynced_keys m" for n
    by (cases "op_type op") (simp_all add: can_speculative_execute_def)
  have res: "execute_op op = []" by (simp add: execute_op_def split: OpType.split)
  show ?thesis
    using run inv fresh
    by (auto simp: propose_locked_def Let_def exec can res record_executed_def mark_unsynced_def split: if_splits)
qed

lemma propose_unlocked:
  "\<not> curp_mtx m \<Longrightarrow> curp_state m \<noteq> RECOVERING \<Longrightarrow> propose_locked op m = (r, m') \<Longrightarrow> \<not> curp_mtx m' \<Longrightarrow>
    propose m op = Inr (r, m')"
proof -
  assume a: "\<not> curp_mtx m" "curp_state m \<noteq> RECOVERING" "propose_locked op m = (r, m')" "\<not> curp_mtx m'"
  have "propose_locked op (m\<lparr>curp_mtx := True\<rparr>) = (fst (propose_locked op m), (snd (propose_locked op m))\<lparr>curp_mtx := True\<rparr>)"
    by (simp add: propose_locked_def Let_def is_executed_def can_speculative_execute_def
        record_executed_def mark_unsynced_def)
  with a show ?thesis by (simp add: propose_def lock_curp_def unlock_curp_def)
qed

lemma propose_cases:
  assumes "master_inv m" and "curp_state m \<noteq> RECOVERING"
  shows "\<exists>r m'. propose m op = Inr (r, m') \<and> propose_locked op m = (r, m') \<and> master_inv m'
    \<and> curp_state m' = curp_state m
    \<and> (if is_executed m (op_rpc_id op) then
         pr_success r \<and> pr_fast_path r \<and> \<not> pr_need_sync r
       \<and> executed_ops m' = executed_ops m \<and> unsynced_ops m' = unsynced_ops m
       else if op_key op \<in> unsynced_keys m then
         \<not> pr_success r \<and> pr_need_sync r
       \<and> executed_ops m' = executed_ops m \<and> unsynced_ops m' = unsynced_ops m
       else
         pr_success r \<and> pr_fast_path r \<and> \<not> pr_need_sync r
       \<and> executed_ops m' = um_put (op_rpc_id op) [] (executed_ops m)
       \<and> unsynced_ops m' = unsynced_ops m @ [(op_rpc_id op, op)])"
proof -
  obtain r m' where c: "propose_locked op m = (r, m')" "master_inv m'"
    using propose_locked_cases [OF assms(1), of op] by blast
  have "propose m op = Inr (r, m')"
    by (rule propose_unlocked [OF _ assms(2) c(1)]) (use master_invD(1) assms(1) c(2) in auto)
  with c propose_locked_cases [OF assms(1), of op] show ?thesis by auto
qed

lemma step_executed:
  "master_step s s' \<Longrightarrow> master_inv (fst s) \<Longrightarrow> is_executed (fst s) i \<Longrightarrow> is_executed (fst s') i"
proof (induction rule: master_step.induct)
  case (ms_propose op m r m' h)
  then show ?case using propose_locked_cases [of m op]
    by (auto simp: is_executed_def um_find_put split: if_splits)
next
  case (ms_do_sync m h m' h')
  then have "executed_ops m' = executed_ops m"
    by (auto simp: do_sync_def lock_curp_def unlock_curp_def rbind_Inr_iff Let_def split: if_splits)
  then show ?case using ms_do_sync by (simp add: is_executed_def)
next
  case (ms_replay records m m' h)
  then show ?case using replay_ops_eq [of m records] master_invD(1) [of m] fold_replay_executed [of records m i]
    by simp
next
  case (ms_clients ws m m' h)
  then show ?case
    by (auto simp: is_executed_def set_witness_clients_def lock_curp_def unlock_curp_def split: if_splits)
next
  case (ms_local w m m' h)
  then show ?case
    by (auto simp: is_executed_def set_local_witness_def lock_curp_def unlock_curp_def split: if_splits)
qed (simp_all add: destroy_master_def is_executed_def)

lemma run_executed:
  "master_step\<^sup>*\<^sup>* s s' \<Longrightarrow> master_inv (fst s) \<Longrightarrow> is_executed (fst s) i \<Longrightarrow> is_executed (fst s') i"
proof (induction rule: rtranclp_induct)
  case (step y z)
  then show ?case using step_executed [OF step.hyps(2)] run_master_inv [OF step.hyps(1)] by blast
qed simp

section \<open>Speculative requests commute\<close>

text \<open>Every step of a master except a replay.\<close>

inductive normal_step :: "'f CurpMaster \<times> heap \<Rightarrow> 'f CurpMaster \<times> heap \<Rightarrow> bool" where
  ns_propose: "propose_locked op m = (r, m') \<Longrightarrow> normal_step (m, h) (m', h)"
| ns_do_sync: "do_sync m h = Inr (m', h') \<Longrightarrow> normal_step (m, h) (m', h')"
| ns_state: "normal_step (m, h) (m\<lparr>curp_state := st\<rparr>, h)"
| ns_clients: "set_witness_clients ws m = Inr m' \<Longrightarrow> normal_step (m, h) (m', h)"
| ns_local: "set_local_witness w m = Inr m' \<Longrightarrow> normal_step (m, h) (m', h)"
| ns_destroy: "normal_step (m, h) (destroy_master m, h)"
| ns_witness: "witness_step (h a) w' \<Longrightarrow> normal_step (m, h) (m, h(a := w'))"

lemma normal_is_master: "normal_step s s' \<Longrightarrow> master_step s s'"
  by (induction rule: normal_step.induct) (auto intro: master_step.intros)

definition keys_apart :: "'f CurpMaster \<Rightarrow> bool" where
  "keys_apart m \<longleftrightarrow> distinct (map (\<lambda>(i, op). op_key op) (unsynced_ops m))"

lemma do_sync_cases:
  assumes "\<not> curp_mtx m" and "do_sync m h = Inr (m', h')"
  shows "unsynced_ops m = [] \<and> m' = m \<and> h' = h \<or> unsynced_ops m \<noteq> [] \<and> unsynced_ops m' = []"
  using assms by (auto simp: do_sync_def lock_curp_def unlock_curp_def Let_def split: if_splits)

lemma normal_step_apart:
  "normal_step s s' \<Longrightarrow> master_inv (fst s) \<Longrightarrow> keys_apart (fst s) \<Longrightarrow> keys_apart (fst s')"
proof (induction rule: normal_step.induct)
  case (ns_propose op m r m' h)
  then have "op_key op \<notin> unsynced_keys m \<Longrightarrow> op_key op \<notin> set (map (\<lambda>(i, op). op_key op) (unsynced_ops m))"
    using master_invD(4) [of m] by auto
  with propose_locked_cases [of m op] ns_propose show ?case by (auto simp: keys_apart_def split: if_splits)
next
  case (ns_do_sync m h m' h')
  then show ?case
    using do_sync_cases [of m h m' h'] master_invD(1) [of m] by (auto simp: keys_apart_def)
qed (auto simp: keys_apart_def destroy_master_def set_witness_clients_def set_local_witness_def lock_curp_def
    unlock_curp_def split: if_splits)

lemma normal_run_apart:
  "normal_step\<^sup>*\<^sup>* s s' \<Longrightarrow> master_inv (fst s) \<Longrightarrow> keys_apart (fst s) \<Longrightarrow>
    master_inv (fst s') \<and> keys_apart (fst s')"
proof (induction rule: rtranclp_induct)
  case (step y z)
  then show ?case
    using normal_step_apart [OF step.hyps(2)] step_master_inv [OF normal_is_master [OF step.hyps(2)]] by blast
qed simp

text \<open>
  A replay adds its new records at the end without looking at their keys, so it keeps the keys
  apart exactly when those records bring new keys.
\<close>

lemma replay_unsynced:
  "master_inv m \<Longrightarrow> distinct (map wr_rpc_id rs) \<Longrightarrow>
    unsynced_ops (fold replay_one rs m) =
      unsynced_ops m @ map (\<lambda>r. (wr_rpc_id r, record_op r)) (filter (\<lambda>r. \<not> is_executed m (wr_rpc_id r)) rs)"
proof (induction rs arbitrary: m)
  case (Cons r rs)
  have rest: "filter (\<lambda>r'. \<not> is_executed (replay_one r m) (wr_rpc_id r')) rs = filter (\<lambda>r'. \<not> is_executed m (wr_rpc_id r')) rs"
    using distinct_map_head [OF Cons.prems(2)] by (intro filter_cong) (auto simp: replay_one_executed)
  have one: "unsynced_ops (replay_one r m) =
      (if is_executed m (wr_rpc_id r) then unsynced_ops m else unsynced_ops m @ [(wr_rpc_id r, record_op r)])"
    using um_put_fresh [OF not_executed_fresh [OF Cons.prems(1)], of "wr_rpc_id r"]
    by (simp add: replay_one_def Let_def record_executed_def mark_unsynced_def record_op_def)
  from Cons.IH [OF inv_replay_one [OF Cons.prems(1)], of r] Cons.prems(2) show ?case
    by (simp add: one rest)
qed simp

lemma replay_apart:
  assumes "master_inv m" and "distinct (map wr_rpc_id rs)"
  shows "keys_apart (fold replay_one rs m) \<longleftrightarrow> keys_apart m
    \<and> distinct (map wr_key (filter (\<lambda>r. \<not> is_executed m (wr_rpc_id r)) rs))
    \<and> (\<forall>r \<in> set rs. \<not> is_executed m (wr_rpc_id r) \<longrightarrow> wr_key r \<notin> unsynced_keys m)"
  by (simp add: keys_apart_def replay_unsynced [OF assms] comp_def record_op_def
      master_invD(4) [OF assms(1), symmetric]) blast

section \<open>Replay\<close>

text \<open>What a replay leaves in the two maps, without reference to the order of the records.\<close>

definition replay_lookup :: "WitnessRecord list \<Rightarrow> u64 \<Rightarrow> WitnessRecord option" where
  "replay_lookup rs = map_of (map (\<lambda>r. (wr_rpc_id r, r)) rs)"

lemma replay_one_maps:
  "um_find (unsynced_ops (replay_one r m)) i =
     (if i = wr_rpc_id r \<and> \<not> is_executed m i then Some (record_op r) else um_find (unsynced_ops m) i)"
  "um_find (executed_ops (replay_one r m)) i =
     (if i = wr_rpc_id r \<and> \<not> is_executed m i then Some [] else um_find (executed_ops m) i)"
  "unsynced_keys (replay_one r m) =
     (if is_executed m (wr_rpc_id r) then unsynced_keys m else insert (wr_key r) (unsynced_keys m))"
  "total_recovered (replay_one r m) =
     (if is_executed m (wr_rpc_id r) then total_recovered m else total_recovered m + 1)"
  by (auto simp: replay_one_def Let_def record_executed_def mark_unsynced_def um_find_put record_op_def execute_op_def)

lemma fold_replay_maps:
  assumes "distinct (map wr_rpc_id rs)"
  shows "um_find (unsynced_ops (fold replay_one rs m)) i =
      (case replay_lookup rs i of
         Some r \<Rightarrow> if is_executed m i then um_find (unsynced_ops m) i else Some (record_op r)
       | None \<Rightarrow> um_find (unsynced_ops m) i)"
    and "um_find (executed_ops (fold replay_one rs m)) i =
      (if i \<in> wr_rpc_id ` set rs \<and> \<not> is_executed m i then Some [] else um_find (executed_ops m) i)"
    and "unsynced_keys (fold replay_one rs m) =
      unsynced_keys m \<union> wr_key ` {r \<in> set rs. \<not> is_executed m (wr_rpc_id r)}"
    and "total_recovered (fold replay_one rs m) =
      total_recovered m + word_of_nat (length (filter (\<lambda>r. \<not> is_executed m (wr_rpc_id r)) rs))"
  using assms
proof (induction rs arbitrary: m)
  case Nil
  {
    case 1 show ?case by (simp add: replay_lookup_def)
  next
    case 2 show ?case by simp
  next
    case 3 show ?case by simp
  next
    case 4 show ?case by simp
  }
next
  case (Cons r rs)
  {
    case 1
    then have "wr_rpc_id r \<notin> wr_rpc_id ` set rs" "distinct (map wr_rpc_id rs)" by simp_all
    moreover have "replay_lookup rs (wr_rpc_id r) = None" using 1
      by (simp add: replay_lookup_def map_of_eq_None_iff image_image)
    ultimately show ?case using Cons.IH(1) [of "replay_one r m"]
      by (auto simp: replay_one_maps replay_one_executed replay_lookup_def split: option.split)
  next
    case 2
    then show ?case using Cons.IH(2) [of "replay_one r m"]
      by (auto simp: replay_one_maps replay_one_executed)
  next
    case 3
    have "wr_rpc_id r' \<noteq> wr_rpc_id r" if "r' \<in> set rs" for r'
      using distinct_map_head [OF 3 that] .
    with 3 show ?case using Cons.IH(3) [of "replay_one r m"]
      by (auto simp: replay_one_maps replay_one_executed)
  next
    case 4
    then have "filter (\<lambda>r'. \<not> is_executed m (wr_rpc_id r') \<and> wr_rpc_id r' \<noteq> wr_rpc_id r) rs
        = filter (\<lambda>r'. \<not> is_executed m (wr_rpc_id r')) rs"
      using distinct_map_head [OF 4] by (intro filter_cong) auto
    with 4 show ?case using Cons.IH(4) [of "replay_one r m"]
      by (simp add: replay_one_maps replay_one_executed)
  }
qed

lemma replay_unsynced_empty:
  "unsynced_ops (fold replay_one rs m) = [] \<longleftrightarrow>
     unsynced_ops m = [] \<and> (\<forall>r \<in> set rs. is_executed m (wr_rpc_id r))"
proof (induction rs arbitrary: m)
  case (Cons r rs)
  show ?case
  proof (cases "is_executed m (wr_rpc_id r)")
    case True
    with Cons show ?thesis by (simp add: replay_one_def)
  next
    case False
    then have "unsynced_ops (replay_one r m) \<noteq> []"
      using replay_one_maps(1) [of r m "wr_rpc_id r"] by (cases "unsynced_ops (replay_one r m)") auto
    with Cons False show ?thesis by simp
  qed
qed simp

lemma do_sync_locked: "curp_mtx m \<Longrightarrow> do_sync m h = Inl Deadlock"
  by (simp add: do_sync_def lock_curp_def)

lemma recover_local:
  assumes "\<not> curp_mtx m" and "local_witness m = Some a"
    and "witness_get_recovery_data (h a) (node_name m) = (records, w)"
  shows "recover out m h =
    (let m' = fold replay_one records m
     in if unsynced_ops m' = [] then Inr (m'\<lparr>curp_state := NORMAL\<rparr>, h(a := w)) else Inl Deadlock)"
proof -
  let ?m1 = "m\<lparr>curp_state := RECOVERING\<rparr>"
  have one: "replay_one r (x\<lparr>curp_state := st\<rparr>) = (replay_one r x)\<lparr>curp_state := st\<rparr>"
    for r st and x :: "'a CurpMaster"
    by (simp add: replay_one_def is_executed_def record_executed_def mark_unsynced_def Let_def)
  have state: "fold replay_one rs (x\<lparr>curp_state := st\<rparr>) = (fold replay_one rs x)\<lparr>curp_state := st\<rparr>"
    for rs st and x :: "'a CurpMaster"
    by (induction rs arbitrary: x) (simp_all add: one)
  let ?m' = "fold replay_one records m"
  have free: "\<not> curp_mtx (fold replay_one records m)" using fold_replay_same(1) [of records m] assms(1) by simp
  have replay: "replay_from_local_witness a ?m1 h = Inr (length records, ?m'\<lparr>curp_state := RECOVERING\<rparr>, h(a := w))"
    using assms replay_ops_eq [of ?m1 records] state
    by (simp add: replay_from_local_witness_def node_name_def)
  show ?thesis
    using assms(2) replay free
    by (simp add: recover_def recover_from_backup_def lock_curp_def unlock_curp_def do_sync_locked Let_def)
qed

lemma node_name_not_master: "node_name m \<noteq> ''master''"
proof
  assume "node_name m = ''master''"
  then have "CHR ''m'' \<in> set (to_string (nat (cur_node_id (base m))))" by (simp add: node_name_def)
  from to_string_digits [OF this] obtain d :: nat where "d < 10" "CHR ''m'' = char_of (48 + d)" by blast
  then have "(of_char (CHR ''m'') :: nat) = 48 + d" by simp
  with \<open>d < 10\<close> show False by simp
qed

section \<open>A sample master\<close>

definition sample_op :: "u64 \<Rightarrow> string \<Rightarrow> CurpOp" where
  "sample_op i k = \<lparr>op_rpc_id = i, op_client_id = 3, op_type = PUT, op_key = k, op_value = [1]\<rparr>"

definition sample_master :: "bytes CurpMaster" where
  "sample_master = new_CurpMaster mem_env [] ''dir'' 0"

lemma sample_master_inv: "master_inv sample_master"
  by (simp add: sample_master_def new_master_inv)

lemma sample_master_state:
  "curp_state sample_master = NORMAL" "executed_ops sample_master = []" "unsynced_ops sample_master = []"
  "unsynced_keys sample_master = {}"
  by (simp_all add: sample_master_def new_CurpMaster_def)

section \<open>Properties\<close>

text \<open>
  C16. A request to a master that is not recovering always gets an answer, in exactly one of three
  ways: an identifier already executed succeeds without being executed again; a request on a key with an
  unsynchronised request is sent back to be synchronised and changes nothing; any other request
  succeeds on the fast path and is recorded as executed and unsynchronised.
\<close>

theorem propose_outcome:
  assumes "master_inv m" and "curp_state m \<noteq> RECOVERING"
  shows "\<exists>r m'. propose m op = Inr (r, m') \<and> master_inv m'
    \<and> (if is_executed m (op_rpc_id op) then
         pr_success r \<and> pr_fast_path r \<and> \<not> pr_need_sync r
       \<and> executed_ops m' = executed_ops m \<and> unsynced_ops m' = unsynced_ops m
       else if op_key op \<in> unsynced_keys m then
         \<not> pr_success r \<and> pr_need_sync r
       \<and> executed_ops m' = executed_ops m \<and> unsynced_ops m' = unsynced_ops m
       else
         pr_success r \<and> pr_fast_path r \<and> \<not> pr_need_sync r
       \<and> executed_ops m' = um_put (op_rpc_id op) [] (executed_ops m)
       \<and> unsynced_ops m' = unsynced_ops m @ [(op_rpc_id op, op)])"
  using propose_cases [OF assms, of op] by blast

theorem propose_outcome_witness:
  "\<exists>r m'. propose sample_master (sample_op 7 ''k'') = Inr (r, m') \<and> pr_fast_path r
    \<and> unsynced_ops m' = [(7, sample_op 7 ''k'')]"
  using propose_outcome [OF sample_master_inv, of "sample_op 7 ''k''"]
  by (auto simp: sample_master_state is_executed_def sample_op_def)

text \<open>
  C2. At most once: after a request has succeeded, and whatever other requests, synchronisations,
  replays and changes of state follow, proposing its identifier again executes nothing. The answer is
  success exactly when the master is not recovering; a recovering master refuses, also when a blocked recovery
  holds its mutex.
\<close>

theorem propose_exactly_once:
  assumes "master_inv m0" and "propose m0 op = Inr (r, m1)" and "pr_success r"
    and "master_step\<^sup>*\<^sup>* (m1, h1) (m2, h2)" and "op_rpc_id op' = op_rpc_id op"
  shows "(\<exists>r' m3. propose m2 op' = Inr (r', m3) \<and> (pr_success r' \<longleftrightarrow> curp_state m2 \<noteq> RECOVERING)
      \<and> executed_ops m3 = executed_ops m2 \<and> unsynced_ops m3 = unsynced_ops m2)
    \<and> (\<forall>held. \<exists>r'. propose (m2\<lparr>curp_state := RECOVERING, curp_mtx := held\<rparr>) op'
        = Inr (r', m2\<lparr>curp_state := RECOVERING, curp_mtx := held\<rparr>) \<and> \<not> pr_success r')"
proof -
  have "curp_state m0 \<noteq> RECOVERING" using assms(2,3) by (auto simp: propose_def)
  from propose_cases [OF assms(1) this, of op] assms(2,3)
  have m1: "master_inv m1" "is_executed m1 (op_rpc_id op)"
    by (auto simp: is_executed_def um_find_put split: if_splits)
  have "is_executed m2 (op_rpc_id op)" and inv: "master_inv m2"
    using run_executed [OF assms(4)] run_master_inv [OF assms(4)] m1 by simp_all
  then have "\<exists>r' m3. propose m2 op' = Inr (r', m3) \<and> (pr_success r' \<longleftrightarrow> curp_state m2 \<noteq> RECOVERING)
      \<and> executed_ops m3 = executed_ops m2 \<and> unsynced_ops m3 = unsynced_ops m2"
    using propose_cases [OF inv, of op'] assms(5) by (cases "curp_state m2 = RECOVERING") (auto simp: propose_def)
  then show ?thesis by (simp add: propose_def)
qed

theorem propose_exactly_once_witness:
  "\<exists>r1 m1 r2 m2. propose sample_master (sample_op 7 ''k'') = Inr (r1, m1)
    \<and> propose m1 (sample_op 7 ''other'') = Inr (r2, m2) \<and> pr_success r2 \<and> unsynced_ops m2 = unsynced_ops m1"
proof -
  obtain r1 m1 where p: "propose sample_master (sample_op 7 ''k'') = Inr (r1, m1)" "pr_success r1"
      "curp_state m1 = NORMAL"
    using propose_cases [OF sample_master_inv, of "sample_op 7 ''k''"]
    by (auto simp: sample_master_state is_executed_def sample_op_def)
  have "op_rpc_id (sample_op 7 ''other'') = op_rpc_id (sample_op 7 ''k'')" by (simp add: sample_op_def)
  from propose_exactly_once [OF sample_master_inv p(1,2) rtranclp.rtrancl_refl this] p(1,3)
  show ?thesis by auto
qed

text \<open>
  C3. Which unsynchronised requests a master can have. In every run of a master, replays included, they
  have different identifiers, all of them are executed, and \<open>unsynced_keys_\<close> holds exactly their keys. In a
  run without replays they also have different keys, so that they commute. A replay does not check
  keys: it keeps the keys apart exactly when they were apart before and the records it executes have
  different keys, none of them the key of an unsynchronised request.
\<close>

theorem speculative_requests_commute:
  assumes "master_step\<^sup>*\<^sup>* (new_CurpMaster E configs dir i, h0) (m, h)"
  shows "distinct (map fst (unsynced_ops m))
    \<and> unsynced_keys m = (\<lambda>(i, op). op_key op) ` set (unsynced_ops m)
    \<and> fst ` set (unsynced_ops m) \<subseteq> fst ` set (executed_ops m)
    \<and> (normal_step\<^sup>*\<^sup>* (new_CurpMaster E configs dir i, h0) (m, h) \<longrightarrow>
         distinct (map (\<lambda>(i, op). op_key op) (unsynced_ops m)))
    \<and> (\<forall>rs. distinct (map wr_rpc_id rs) \<longrightarrow> (\<exists>m'. replay_ops rs m = Inr m'
         \<and> (distinct (map (\<lambda>(i, op). op_key op) (unsynced_ops m')) \<longleftrightarrow>
              distinct (map (\<lambda>(i, op). op_key op) (unsynced_ops m))
            \<and> distinct (map wr_key (filter (\<lambda>r. \<not> is_executed m (wr_rpc_id r)) rs))
            \<and> (\<forall>r \<in> set rs. \<not> is_executed m (wr_rpc_id r) \<longrightarrow> wr_key r \<notin> unsynced_keys m))))"
proof -
  have inv: "master_inv m" using run_master_inv [OF assms] new_master_inv [of E configs dir i] by simp
  have "keys_apart (new_CurpMaster E configs dir i)" by (simp add: keys_apart_def new_CurpMaster_def)
  with normal_run_apart [of "(new_CurpMaster E configs dir i, h0)" "(m, h)"] new_master_inv [of E configs dir i]
  have "normal_step\<^sup>*\<^sup>* (new_CurpMaster E configs dir i, h0) (m, h) \<longrightarrow> keys_apart m" by simp
  moreover have "fst ` set (unsynced_ops m) \<subseteq> fst ` set (executed_ops m)"
    using master_invD(5) [OF inv] by (auto simp: is_executed_def um_find_None image_iff)
  ultimately show ?thesis
    using master_invD(2,4) [OF inv] replay_apart [OF inv] replay_ops_eq [OF master_invD(1) [OF inv]]
    by (simp add: keys_apart_def)
qed

definition sample_record :: "u64 \<Rightarrow> string \<Rightarrow> WitnessRecord" where
  "sample_record i k = \<lparr>wr_rpc_id = i, wr_key = k, wr_request_data = [9], wr_client_id = 3, wr_timestamp = 0\<rparr>"

theorem speculative_requests_commute_witness:
  "\<exists>r1 m1 m2. propose sample_master (sample_op 7 ''k'') = Inr (r1, m1)
    \<and> distinct (map (\<lambda>(i, op). op_key op) (unsynced_ops m1))
    \<and> replay_ops [sample_record 8 ''k''] m1 = Inr m2
    \<and> \<not> distinct (map (\<lambda>(i, op). op_key op) (unsynced_ops m2))"
proof -
  obtain r1 m1 where p: "propose sample_master (sample_op 7 ''k'') = Inr (r1, m1)"
      "propose_locked (sample_op 7 ''k'') sample_master = (r1, m1)" "executed_ops m1 = [(7, [])]"
      "unsynced_ops m1 = [(7, sample_op 7 ''k'')]"
    using propose_cases [OF sample_master_inv, of "sample_op 7 ''k''"]
    by (auto simp: sample_master_state is_executed_def sample_op_def)
  have run: "normal_step\<^sup>*\<^sup>* (sample_master, \<lambda>_. new_Witness []) (m1, \<lambda>_. new_Witness [])"
    "master_step\<^sup>*\<^sup>* (sample_master, \<lambda>_. new_Witness []) (m1, \<lambda>_. new_Witness [])"
    using ns_propose [OF p(2)] ms_propose [OF p(2)] by blast+
  note facts = speculative_requests_commute [OF run(2) [unfolded sample_master_def]]
  have keys: "unsynced_keys m1 = {''k''}" and apart: "distinct (map (\<lambda>(i, op). op_key op) (unsynced_ops m1))"
    using facts run(1) p(4) by (simp_all add: sample_op_def)
  have d: "distinct (map wr_rpc_id [sample_record 8 ''k''])" by simp
  obtain m2 where m2: "replay_ops [sample_record 8 ''k''] m1 = Inr m2"
      "distinct (map (\<lambda>(i, op). op_key op) (unsynced_ops m2)) \<longrightarrow>
        (\<forall>r \<in> set [sample_record 8 ''k'']. \<not> is_executed m1 (wr_rpc_id r) \<longrightarrow> wr_key r \<notin> unsynced_keys m1)"
    using facts d by blast
  have "\<not> is_executed m1 8" using p(3) by (simp add: is_executed_def)
  with m2 keys have "\<not> distinct (map (\<lambda>(i, op). op_key op) (unsynced_ops m2))" by (auto simp: sample_record_def)
  with p(1) apart m2(1) show ?thesis by blast
qed

text \<open>
  C17. The order in which a witness hands out its requests does not matter: replaying the records in
  any order leaves the same requests executed, the same requests and keys unsynchronised, and the
  same count, and executes each record that was not executed before.
\<close>

theorem replay_order_irrelevant:
  assumes "\<not> curp_mtx m" and "distinct (map wr_rpc_id rs)" and "set rs = set rs'" "length rs = length rs'"
  shows "\<exists>m1 m2. replay_ops rs m = Inr m1 \<and> replay_ops rs' m = Inr m2
    \<and> um_find (unsynced_ops m1) = um_find (unsynced_ops m2)
    \<and> um_find (executed_ops m1) = um_find (executed_ops m2)
    \<and> unsynced_keys m1 = unsynced_keys m2 \<and> total_recovered m1 = total_recovered m2
    \<and> (\<forall>r \<in> set rs. is_executed m1 (wr_rpc_id r))"
proof -
  have mset: "mset rs = mset rs'"
    using assms(2-4) by (metis card_distinct distinct_card distinct_map set_eq_iff_mset_eq_distinct)
  then have d': "distinct (map wr_rpc_id rs')"
    using assms(2) by (metis mset_eq_imp_distinct_iff mset_map)
  have "replay_lookup rs = replay_lookup rs'"
    unfolding replay_lookup_def using assms(2,3) d' by (subst map_of_inject_set) (simp_all add: comp_def)
  moreover have "length (filter P rs) = length (filter P rs')" for P
    by (metis mset mset_filter size_mset)
  ultimately show ?thesis
    using fold_replay_maps [OF assms(2), of m] fold_replay_maps [OF d', of m] assms(1,3)
    by (auto simp: replay_ops_eq fold_replay_executed fun_eq_iff)
qed

theorem replay_order_irrelevant_witness:
  "\<exists>m1 m2. replay_ops [sample_record 7 ''a'', sample_record 8 ''b''] sample_master = Inr m1
    \<and> replay_ops [sample_record 8 ''b'', sample_record 7 ''a''] sample_master = Inr m2
    \<and> um_find (unsynced_ops m1) = um_find (unsynced_ops m2) \<and> is_executed m1 7"
  using replay_order_irrelevant [of sample_master "[sample_record 7 ''a'', sample_record 8 ''b'']"
      "[sample_record 8 ''b'', sample_record 7 ''a'']"] master_invD(1) [OF sample_master_inv]
  by (auto simp: sample_record_def)

text \<open>
  C35. A synchronisation with unsynchronised requests drops them all and resets the local witness to
  the master's own name, although the log is as before: none of the requests is stored anywhere
  after it except as executed.
\<close>

theorem do_sync_stores_nothing:
  assumes "master_inv m" and "unsynced_ops m \<noteq> []"
  shows "\<exists>m' h'. do_sync m h = Inr (m', h') \<and> unsynced_ops m' = [] \<and> unsynced_keys m' = {}
    \<and> base m' = base m \<and> executed_ops m' = executed_ops m
    \<and> (\<forall>a. local_witness m = Some a \<longrightarrow> w_records (h' a) = [] \<and> w_master_id (h' a) = node_name m)
    \<and> (\<forall>a. local_witness m \<noteq> Some a \<longrightarrow> h' a = h a)"
  using assms(2) master_invD(1) [OF assms(1)]
  by (auto simp: do_sync_def lock_curp_def unlock_curp_def Let_def node_name_def witness_reset_def split: option.split)

theorem do_sync_stores_nothing_witness:
  "\<exists>r m1 m2 h2. propose sample_master (sample_op 7 ''k'') = Inr (r, m1)
    \<and> do_sync m1 (\<lambda>_. new_Witness []) = Inr (m2, h2) \<and> unsynced_ops m2 = [] \<and> base m2 = base m1"
proof -
  obtain r1 m1 where p: "propose sample_master (sample_op 7 ''k'') = Inr (r1, m1)" "master_inv m1"
      "unsynced_ops m1 = [(7, sample_op 7 ''k'')]"
    using propose_cases [OF sample_master_inv, of "sample_op 7 ''k''"]
    by (auto simp: sample_master_state is_executed_def sample_op_def)
  from do_sync_stores_nothing [OF p(2), of "\<lambda>_. new_Witness []"] p show ?thesis by auto
qed

text \<open>
  Recovery of a master with a local witness blocks for ever, on its own mutex, exactly when it
  finds something to recover: an unsynchronised request of its own or a saved request not yet
  executed. Otherwise it returns with the master in normal operation.
\<close>

theorem recover_deadlocks_iff:
  assumes "\<not> curp_mtx m" and "local_witness m = Some a"
    and "witness_get_recovery_data (h a) (node_name m) = (records, w)"
  shows "(recover out m h = Inl Deadlock \<longleftrightarrow>
      unsynced_ops m \<noteq> [] \<or> (\<exists>r \<in> set records. \<not> is_executed m (wr_rpc_id r)))
    \<and> (recover out m h = Inl Deadlock \<or> (\<exists>m' h'. recover out m h = Inr (m', h') \<and> curp_state m' = NORMAL))"
  using recover_local [of m a h records w out, OF assms] replay_unsynced_empty [of records m] by (auto simp: Let_def)

definition saved_witness :: Witness where
  "saved_witness = snd (witness_record 1 (new_Witness []) ''0'' 7 ''a'' [5] 3)"

lemma saved_witness_data:
  "witness_get_recovery_data saved_witness ''0'' = ([new_WitnessRecord 1 7 ''a'' [5] 3], saved_witness\<lparr>w_accepting := False\<rparr>)"
  by (simp add: saved_witness_def witness_get_recovery_data_def witness_record_def new_Witness_def kMaxRecords_def)

lemma sample_name: "node_name sample_master = ''0''"
  by (simp add: node_name_def sample_master_def new_CurpMaster_def new_RaftNode_def to_string.simps) code_simp

theorem recover_deadlocks_iff_witness:
  "recover Delivered (sample_master\<lparr>local_witness := Some 0\<rparr>) (\<lambda>_. saved_witness) = Inl Deadlock"
proof -
  let ?m = "sample_master\<lparr>local_witness := Some 0\<rparr>"
  have "witness_get_recovery_data ((\<lambda>_. saved_witness) (0 :: nat)) (node_name ?m)
      = ([new_WitnessRecord 1 7 ''a'' [5] 3], saved_witness\<lparr>w_accepting := False\<rparr>)"
    using saved_witness_data sample_name by (simp add: node_name_def)
  from recover_deadlocks_iff [of ?m 0 "\<lambda>_. saved_witness", OF _ _ this, of Delivered] master_invD(1) [OF sample_master_inv] show ?thesis
    by (simp add: is_executed_def sample_master_state)
qed

text \<open>
  A witness that clients have bound to another name gives the master nothing: the replay
  reports no records, and neither the master nor the witness changes. The name \<open>master\<close>, which the client
  library uses, is never the name of a node.
\<close>

theorem recovery_needs_own_name:
  assumes "\<not> curp_mtx m" and "w_master_id (h a) \<noteq> []" and "w_master_id (h a) \<noteq> node_name m"
  shows "replay_from_local_witness a m h = Inr (0, m, h) \<and> node_name m \<noteq> ''master''"
proof -
  have "node_name m \<noteq> ''master''" by (rule node_name_not_master)
  moreover have "h(a := h a) = h" by simp
  ultimately show ?thesis using assms
    by (simp add: replay_from_local_witness_def witness_get_recovery_data_def replay_ops_eq)
qed

theorem recovery_needs_own_name_witness:
  "replay_from_local_witness 0 sample_master
      (\<lambda>_. snd (witness_record 1 (new_Witness []) ''master'' 7 ''a'' [5] 3)) =
    Inr (0, sample_master, \<lambda>_. snd (witness_record 1 (new_Witness []) ''master'' 7 ''a'' [5] 3))"
proof -
  let ?h = "\<lambda>_ :: nat. snd (witness_record 1 (new_Witness []) ''master'' 7 ''a'' [5] 3)"
  have "w_master_id (?h 0) = ''master''"
    by (simp add: witness_record_def new_Witness_def kMaxRecords_def)
  then show ?thesis
    using recovery_needs_own_name [of sample_master ?h 0] master_invD(1) [OF sample_master_inv] sample_name
    by simp
qed

end
