(* ===== verification/Tracing.thy ===== *)
theory Tracing
  imports Prelude "HOL-Library.Signed_Division" "HOL-Library.Multiset"
begin

text \<open>
  Tracing (\<^verbatim>\<open>include/tracing/tracing.h\<close>, \<^verbatim>\<open>src/tracing/tracing.cpp\<close>). A span is an object with a
  lifetime: it reports its start when it is made, whatever is said of it meanwhile, and its end
  when \<open>end()\<close> is called, when it is destroyed or when another span is moved onto it. Every
  operation returns the new object and the messages it hands to the logger, in order; a message
  has the arguments of the format string. The steady clock (in nanoseconds) is an argument. What
  a moved-from \<open>std::string\<close> holds is unspecified: it is the parameter \<open>mv\<close>, with no law.
\<close>

section \<open>Data\<close>

record TracingConfig =
  tc_enabled :: bool
  tc_service_name :: string
  tc_exporter_endpoint :: string

definition default_TracingConfig :: TracingConfig where
  "default_TracingConfig =
     \<lparr>tc_enabled = False, tc_service_name = ''curp-node'',
      tc_exporter_endpoint = ''http://localhost:14268/api/traces''\<rparr>"

datatype SpanKind = INTERNAL | SERVER | CLIENT | PRODUCER | CONSUMER

primrec SpanKind_to_string :: "SpanKind \<Rightarrow> string" where
  "SpanKind_to_string INTERNAL = ''internal''"
| "SpanKind_to_string SERVER = ''server''"
| "SpanKind_to_string CLIENT = ''client''"
| "SpanKind_to_string PRODUCER = ''producer''"
| "SpanKind_to_string CONSUMER = ''consumer''"

record Span =
  sp_valid :: bool
  sp_ended :: bool
  sp_name :: string
  sp_status :: string
  sp_start_time :: int

record Tracer =
  tr_enabled :: bool
  tr_config :: TracingConfig

text \<open>The four overloads of \<open>set_attribute\<close>; a \<open>double\<close> is its 64 bits.\<close>

datatype attribute = StringAttr string | IntAttr int | DoubleAttr u64 | BoolAttr bool

datatype trace_msg =
    SpanStart string string
  | SpanAttribute string string attribute
  | SpanEvent string string
  | SpanEventAttribute string string string string
  | SpanError string string
  | SpanEnd string int string
  | TracerInit bool string
  | TracerShutdown

section \<open>Operations\<close>

definition new_Tracer :: Tracer where
  "new_Tracer = \<lparr>tr_enabled = False, tr_config = default_TracingConfig\<rparr>"

definition Tracer_init :: "TracingConfig \<Rightarrow> Tracer \<Rightarrow> Tracer \<times> trace_msg list" where
  "Tracer_init config tr =
     (tr\<lparr>tr_config := config, tr_enabled := tc_enabled config\<rparr>,
      [TracerInit (tc_enabled config) (tc_service_name config)])"

definition Tracer_shutdown :: "Tracer \<Rightarrow> Tracer \<times> trace_msg list" where
  "Tracer_shutdown tr = (tr, [TracerShutdown])"

definition Tracer_is_enabled :: "Tracer \<Rightarrow> bool" where
  "Tracer_is_enabled tr = tr_enabled tr"

definition Tracer_current_trace_context :: "Tracer \<Rightarrow> string" where
  "Tracer_current_trace_context tr = ''''"

definition new_Span :: "Tracer \<Rightarrow> int \<Rightarrow> string \<Rightarrow> SpanKind \<Rightarrow> Span \<times> trace_msg list" where
  "new_Span tr clk name kind =
     (let valid = Tracer_is_enabled tr in
      (\<lparr>sp_valid = valid, sp_ended = False, sp_name = name, sp_status = ''ok'', sp_start_time = clk\<rparr>,
       if valid then [SpanStart name (SpanKind_to_string kind)] else []))"

definition Tracer_start_span :: "Tracer \<Rightarrow> int \<Rightarrow> string \<Rightarrow> SpanKind \<Rightarrow> Span \<times> trace_msg list" where
  "Tracer_start_span tr clk name kind = new_Span tr clk name kind"

text \<open>\<open>duration_cast\<close> to milliseconds rounds towards zero.\<close>

definition Span_duration_ms :: "int \<Rightarrow> Span \<Rightarrow> int" where
  "Span_duration_ms clk s = (clk - sp_start_time s) sdiv 1000000"

definition Span_end :: "int \<Rightarrow> Span \<Rightarrow> Span \<times> trace_msg list" where
  "Span_end clk s =
     (if \<not> sp_valid s \<or> sp_ended s then (s, [])
      else (s\<lparr>sp_ended := True\<rparr>, [SpanEnd (sp_name s) (Span_duration_ms clk s) (sp_status s)]))"

definition Span_destroy :: "int \<Rightarrow> Span \<Rightarrow> trace_msg list" where
  "Span_destroy clk s = (if sp_valid s \<and> \<not> sp_ended s then snd (Span_end clk s) else [])"

text \<open>The move constructor: the new object and what is left of the other one.\<close>

definition Span_move :: "(string \<Rightarrow> string) \<Rightarrow> Span \<Rightarrow> Span \<times> Span" where
  "Span_move mv other =
     (\<lparr>sp_valid = sp_valid other, sp_ended = sp_ended other, sp_name = sp_name other,
       sp_status = sp_status other, sp_start_time = sp_start_time other\<rparr>,
      other\<lparr>sp_name := mv (sp_name other), sp_status := mv (sp_status other), sp_valid := False\<rparr>)"

text \<open>Move assignment from an object other than \<open>this\<close>.\<close>

definition Span_move_assign ::
  "(string \<Rightarrow> string) \<Rightarrow> int \<Rightarrow> Span \<Rightarrow> Span \<Rightarrow> Span \<times> Span \<times> trace_msg list" where
  "Span_move_assign mv clk this other =
     (let (s, msgs) = (if sp_valid this \<and> \<not> sp_ended this then Span_end clk this else (this, [])) in
      (s\<lparr>sp_valid := sp_valid other, sp_ended := sp_ended other, sp_name := sp_name other,
         sp_status := sp_status other, sp_start_time := sp_start_time other\<rparr>,
       other\<lparr>sp_name := mv (sp_name other), sp_status := mv (sp_status other), sp_valid := False\<rparr>,
       msgs))"

definition Span_set_attribute :: "string \<Rightarrow> attribute \<Rightarrow> Span \<Rightarrow> trace_msg list" where
  "Span_set_attribute key v s = [SpanAttribute (sp_name s) key v]"

definition Span_add_event :: "string \<Rightarrow> Span \<Rightarrow> trace_msg list" where
  "Span_add_event name s = [SpanEvent (sp_name s) name]"

definition Span_add_event_attr :: "string \<Rightarrow> string \<Rightarrow> string \<Rightarrow> Span \<Rightarrow> trace_msg list" where
  "Span_add_event_attr name key v s = [SpanEventAttribute (sp_name s) name key v]"

definition Span_set_ok :: "Span \<Rightarrow> Span" where
  "Span_set_ok s = s\<lparr>sp_status := ''ok''\<rparr>"

definition Span_set_error :: "string \<Rightarrow> Span \<Rightarrow> Span \<times> trace_msg list" where
  "Span_set_error description s = (s\<lparr>sp_status := ''error''\<rparr>, [SpanError (sp_name s) description])"

definition Span_trace_id :: "Span \<Rightarrow> string" where "Span_trace_id s = ''''"

definition Span_span_id :: "Span \<Rightarrow> string" where "Span_span_id s = ''''"

definition Span_bool :: "Span \<Rightarrow> bool" where "Span_bool s = sp_valid s"

text \<open>
  Which overload a call takes. The callers pass a \<open>std::string\<close>, a value cast to \<open>int64_t\<close>, a
  \<open>double\<close>, a \<open>bool\<close> or a string literal. A literal decays to a pointer, and a pointer converts
  to \<open>bool\<close> by a standard conversion, which overload resolution prefers to the user-defined
  conversion to \<open>std::string\<close>: a literal is logged as a \<open>bool\<close>, and the pointer is not null.
\<close>

datatype cpp_arg = StdString string | Int64 int | Double u64 | Bool bool | Literal string

primrec overload :: "cpp_arg \<Rightarrow> attribute" where
  "overload (StdString v) = StringAttr v"
| "overload (Int64 v) = IntAttr v"
| "overload (Double v) = DoubleAttr v"
| "overload (Bool v) = BoolAttr v"
| "overload (Literal v) = BoolAttr True"

section \<open>Programs over spans\<close>

text \<open>
  The objects of a program: the one tracer, the spans by address (an address is used once; \<open>None\<close>
  is a destroyed span) and what has been logged so far.
\<close>

record trace_world =
  tracer :: Tracer
  spans :: "Span option list"
  logged :: "trace_msg list"

datatype trace_op =
    TInit TracingConfig
  | TShutdown
  | TStart int string SpanKind
  | TMove nat
  | TAssign int nat nat
  | TAttribute nat string cpp_arg
  | TEvent nat string
  | TEventAttr nat string string string
  | TOk nat
  | TError nat string
  | TEnd int nat
  | TDestroy int nat

definition live :: "nat \<Rightarrow> trace_world \<Rightarrow> Span option" where
  "live i w = (if i < length (spans w) then spans w ! i else None)"

text \<open>Running an operation on a span that is not live is undefined.\<close>

primrec trace_do :: "(string \<Rightarrow> string) \<Rightarrow> trace_op \<Rightarrow> trace_world \<Rightarrow> trace_world option" where
  "trace_do mv (TInit config) w =
     (let (tr, ms) = Tracer_init config (tracer w) in Some (w\<lparr>tracer := tr, logged := logged w @ ms\<rparr>))"
| "trace_do mv TShutdown w =
     (let (tr, ms) = Tracer_shutdown (tracer w) in Some (w\<lparr>tracer := tr, logged := logged w @ ms\<rparr>))"
| "trace_do mv (TStart clk name kind) w =
     (let (s, ms) = Tracer_start_span (tracer w) clk name kind in
      Some (w\<lparr>spans := spans w @ [Some s], logged := logged w @ ms\<rparr>))"
| "trace_do mv (TMove i) w =
     (case live i w of None \<Rightarrow> None
      | Some other \<Rightarrow> (let (s, other') = Span_move mv other in
          Some (w\<lparr>spans := (spans w)[i := Some other'] @ [Some s]\<rparr>)))"
| "trace_do mv (TAssign clk i j) w =
     (case (live i w, live j w) of
        (Some this, Some other) \<Rightarrow>
          if i = j then Some w
          else (let (s, other', ms) = Span_move_assign mv clk this other in
            Some (w\<lparr>spans := (spans w)[i := Some s, j := Some other'], logged := logged w @ ms\<rparr>))
      | _ \<Rightarrow> None)"
| "trace_do mv (TAttribute i key v) w =
     (case live i w of None \<Rightarrow> None
      | Some s \<Rightarrow> Some (w\<lparr>logged := logged w @ Span_set_attribute key (overload v) s\<rparr>))"
| "trace_do mv (TEvent i name) w =
     (case live i w of None \<Rightarrow> None
      | Some s \<Rightarrow> Some (w\<lparr>logged := logged w @ Span_add_event name s\<rparr>))"
| "trace_do mv (TEventAttr i name key v) w =
     (case live i w of None \<Rightarrow> None
      | Some s \<Rightarrow> Some (w\<lparr>logged := logged w @ Span_add_event_attr name key v s\<rparr>))"
| "trace_do mv (TOk i) w =
     (case live i w of None \<Rightarrow> None
      | Some s \<Rightarrow> Some (w\<lparr>spans := (spans w)[i := Some (Span_set_ok s)]\<rparr>))"
| "trace_do mv (TError i d) w =
     (case live i w of None \<Rightarrow> None
      | Some s \<Rightarrow> (let (s', ms) = Span_set_error d s in
          Some (w\<lparr>spans := (spans w)[i := Some s'], logged := logged w @ ms\<rparr>)))"
| "trace_do mv (TEnd clk i) w =
     (case live i w of None \<Rightarrow> None
      | Some s \<Rightarrow> (let (s', ms) = Span_end clk s in
          Some (w\<lparr>spans := (spans w)[i := Some s'], logged := logged w @ ms\<rparr>)))"
| "trace_do mv (TDestroy clk i) w =
     (case live i w of None \<Rightarrow> None
      | Some s \<Rightarrow>
          Some (w\<lparr>spans := (spans w)[i := None], logged := logged w @ Span_destroy clk s\<rparr>))"

primrec trace_run :: "(string \<Rightarrow> string) \<Rightarrow> trace_op list \<Rightarrow> trace_world \<Rightarrow> trace_world option" where
  "trace_run mv [] w = Some w"
| "trace_run mv (x # xs) w =
     (case trace_do mv x w of None \<Rightarrow> None | Some w' \<Rightarrow> trace_run mv xs w')"

definition new_world :: trace_world where
  "new_world = \<lparr>tracer = new_Tracer, spans = [], logged = []\<rparr>"

section \<open>Start and end messages\<close>

primrec start_of :: "trace_msg \<Rightarrow> string multiset" where
  "start_of (SpanStart n k) = {#n#}"
| "start_of (SpanAttribute n k v) = {#}"
| "start_of (SpanEvent n e) = {#}"
| "start_of (SpanEventAttribute n e k v) = {#}"
| "start_of (SpanError n d) = {#}"
| "start_of (SpanEnd n d st) = {#}"
| "start_of (TracerInit b n) = {#}"
| "start_of TracerShutdown = {#}"

primrec end_of :: "trace_msg \<Rightarrow> string multiset" where
  "end_of (SpanStart n k) = {#}"
| "end_of (SpanAttribute n k v) = {#}"
| "end_of (SpanEvent n e) = {#}"
| "end_of (SpanEventAttribute n e k v) = {#}"
| "end_of (SpanError n d) = {#}"
| "end_of (SpanEnd n d st) = {#n#}"
| "end_of (TracerInit b n) = {#}"
| "end_of TracerShutdown = {#}"

definition started :: "trace_msg list \<Rightarrow> string multiset" where
  "started ms = sum_list (map start_of ms)"

definition finished :: "trace_msg list \<Rightarrow> string multiset" where
  "finished ms = sum_list (map end_of ms)"

definition is_open :: "Span \<Rightarrow> bool" where
  "is_open s \<longleftrightarrow> sp_valid s \<and> \<not> sp_ended s"

definition open_name :: "Span option \<Rightarrow> string multiset" where
  "open_name x = (case x of None \<Rightarrow> {#} | Some s \<Rightarrow> if is_open s then {#sp_name s#} else {#})"

definition open_names :: "Span option list \<Rightarrow> string multiset" where
  "open_names xs = sum_list (map open_name xs)"

text \<open>Every span that was started and is not open any more has ended once, under its name.\<close>

definition trace_inv :: "trace_world \<Rightarrow> bool" where
  "trace_inv w \<longleftrightarrow> started (logged w) = finished (logged w) + open_names (spans w)"

lemma trace_msgs [simp]:
  "started [] = {#}" "started (m # ms) = start_of m + started ms"
  "started (ms @ ns) = started ms + started ns"
  "finished [] = {#}" "finished (m # ms) = end_of m + finished ms"
  "finished (ms @ ns) = finished ms + finished ns"
  by (simp_all add: started_def finished_def)

lemma open_names_append [simp]: "open_names (xs @ [x]) = open_names xs + open_name x"
  by (simp add: open_names_def)

lemma open_names_update:
  "i < length xs \<Longrightarrow> open_names (xs[i := y]) + open_name (xs ! i) = open_names xs + open_name y"
proof (induction xs arbitrary: i)
  case (Cons a xs)
  show ?case
  proof (cases i)
    case (Suc j)
    with Cons show ?thesis by (simp add: open_names_def add.assoc)
  qed (simp add: open_names_def add.commute)
qed simp

text \<open>Replacing a live span: what its open name was, and what it is now.\<close>

lemma live_update:
  assumes "live i w = Some s"
  shows "open_names ((spans w)[i := y]) + open_name (Some s) = open_names (spans w) + open_name y"
proof -
  from assms have "i < length (spans w)" "spans w ! i = Some s"
    by (simp_all add: live_def split: if_splits)
  with open_names_update [of i "spans w" y] show ?thesis by simp
qed

text \<open>The start and end messages of each operation, against the open name before and after.\<close>

lemma Span_end_msgs:
  assumes "Span_end clk s = (s', ms)"
  shows "started ms = {#}" "finished ms + open_name (Some s') = open_name (Some s)"
  using assms by (auto simp: Span_end_def open_name_def is_open_def split: if_splits)

lemma Span_destroy_msgs:
  "started (Span_destroy clk s) = {#}" "finished (Span_destroy clk s) = open_name (Some s)"
  by (auto simp: Span_destroy_def Span_end_def open_name_def is_open_def)

lemma new_Span_msgs:
  assumes "Tracer_start_span tr clk name kind = (s, ms)"
  shows "started ms = open_name (Some s)" "finished ms = {#}"
  using assms
  by (auto simp: Tracer_start_span_def new_Span_def Let_def open_name_def is_open_def)

lemma Span_move_msgs:
  assumes "Span_move mv other = (s, other')"
  shows "open_name (Some s) = open_name (Some other)" "open_name (Some other') = {#}"
  using assms by (auto simp: Span_move_def open_name_def is_open_def)

lemma Span_move_assign_msgs:
  assumes "Span_move_assign mv clk this other = (s, other', ms)"
  shows "started ms = {#}" "finished ms = open_name (Some this)"
    "open_name (Some s) = open_name (Some other)" "open_name (Some other') = {#}"
  using assms
  by (auto simp: Span_move_assign_def Span_end_def open_name_def is_open_def Let_def split: if_splits prod.splits)

lemma Span_status_msgs [simp]:
  "open_name (Some (Span_set_ok s)) = open_name (Some s)"
  "open_name (Some (s\<lparr>sp_status := x\<rparr>)) = open_name (Some s)"
  "open_name None = {#}"
  by (simp_all add: Span_set_ok_def open_name_def is_open_def)

text \<open>
  One span replaced: the messages of the step balance the change of its open name. All operations
  on one live span are instances.
\<close>

lemma trace_inv_update:
  assumes inv: "trace_inv w" and s: "live i w = Some s"
    and ms: "started ms = {#}" "finished ms + open_name y = open_name (Some s)"
  shows "trace_inv (w\<lparr>spans := (spans w)[i := y], logged := logged w @ ms\<rparr>)"
proof -
  have "open_names ((spans w)[i := y]) + open_name (Some s) = open_names (spans w) + open_name y"
    by (rule live_update [OF s])
  then have "finished ms + open_names ((spans w)[i := y]) + open_name (Some s)
      = open_names (spans w) + open_name (Some s)"
    using ms(2) by (metis (no_types) add.assoc add.commute)
  then have "finished ms + open_names ((spans w)[i := y]) = open_names (spans w)" by simp
  with inv ms(1) show ?thesis by (simp add: trace_inv_def add.assoc)
qed

lemma trace_inv_log:
  "trace_inv w \<Longrightarrow> started ms = {#} \<Longrightarrow> finished ms = {#} \<Longrightarrow> trace_inv (w\<lparr>logged := logged w @ ms\<rparr>)"
  by (simp add: trace_inv_def)

lemma trace_inv_move:
  assumes inv: "trace_inv w" and o: "live i w = Some other" and m: "Span_move mv other = (s, other')"
  shows "trace_inv (w\<lparr>spans := (spans w)[i := Some other'] @ [Some s]\<rparr>)"
  using inv live_update [OF o, of "Some other'"] Span_move_msgs [OF m] by (simp add: trace_inv_def)

lemma trace_inv_assign:
  assumes inv: "trace_inv w" and live: "live i w = Some this" "live j w = Some other" and ne: "i \<noteq> j"
    and m: "Span_move_assign mv clk this other = (s, other', ms)"
  shows "trace_inv (w\<lparr>spans := (spans w)[i := Some s, j := Some other'], logged := logged w @ ms\<rparr>)"
proof -
  let ?w = "w\<lparr>spans := (spans w)[i := Some s]\<rparr>"
  have j: "live j ?w = Some other" using live(2) ne by (simp add: live_def split: if_splits)
  have "open_names ((spans w)[i := Some s, j := Some other']) + open_name (Some other)
      = open_names ((spans w)[i := Some s])"
    using live_update [OF j, of "Some other'"] Span_move_assign_msgs(4) [OF m] by simp
  then have "open_names ((spans w)[i := Some s, j := Some other']) + open_name (Some other)
        + open_name (Some this) = open_names (spans w) + open_name (Some other)"
    using live_update [OF live(1), of "Some s"] Span_move_assign_msgs(3) [OF m] by simp
  then have "open_names ((spans w)[i := Some s, j := Some other']) + open_name (Some this)
      = open_names (spans w)" by (simp add: add.commute add.left_commute)
  with inv Span_move_assign_msgs(1,2) [OF m] show ?thesis
    by (simp add: trace_inv_def add.commute)
qed

lemma trace_do_inv:
  assumes inv: "trace_inv w" and run: "trace_do mv x w = Some w'"
  shows "trace_inv w'"
proof (cases x)
  case (TStart clk name kind)
  obtain s ms where s: "Tracer_start_span (tracer w) clk name kind = (s, ms)" by fastforce
  with run TStart have "w' = w\<lparr>spans := spans w @ [Some s], logged := logged w @ ms\<rparr>" by simp
  with inv new_Span_msgs [OF s] show ?thesis by (simp add: trace_inv_def add.assoc)
next
  case (TMove i)
  with run obtain other where o: "live i w = Some other" by (auto split: option.splits)
  obtain s other' where m: "Span_move mv other = (s, other')" by fastforce
  from run TMove o m trace_inv_move [OF inv o m] show ?thesis by auto
next
  case (TAssign clk i j)
  with run obtain this other where l: "live i w = Some this" "live j w = Some other"
    by (auto split: option.splits)
  obtain s other' ms where m: "Span_move_assign mv clk this other = (s, other', ms)"
    by (cases "Span_move_assign mv clk this other")
  show ?thesis
  proof (cases "i = j")
    case True
    with run TAssign l inv show ?thesis by simp
  next
    case False
    from trace_inv_assign [OF inv l False m] run TAssign l m False show ?thesis by auto
  qed
next
  case (TOk i)
  with run obtain s where s: "live i w = Some s" by (auto split: option.splits)
  have "trace_inv (w\<lparr>spans := (spans w)[i := Some (Span_set_ok s)], logged := logged w @ []\<rparr>)"
    by (rule trace_inv_update [OF inv s]) simp_all
  with run TOk s show ?thesis by auto
next
  case (TError i d)
  with run obtain s where s: "live i w = Some s" by (auto split: option.splits)
  with run TError trace_inv_update [OF inv s, of "snd (Span_set_error d s)" "Some (fst (Span_set_error d s))"]
  show ?thesis by (auto simp: Span_set_error_def)
next
  case (TEnd clk i)
  with run obtain s where s: "live i w = Some s" by (auto split: option.splits)
  obtain s' ms where m: "Span_end clk s = (s', ms)" by fastforce
  with run TEnd s trace_inv_update [OF inv s, of ms "Some s'"] Span_end_msgs [OF m] show ?thesis by auto
next
  case (TDestroy clk i)
  with run obtain s where s: "live i w = Some s" by (auto split: option.splits)
  with run TDestroy trace_inv_update [OF inv s, of "Span_destroy clk s" None]
    Span_destroy_msgs [of clk s]
  show ?thesis by auto
qed (use inv run in \<open>auto simp: Tracer_init_def Tracer_shutdown_def Span_set_attribute_def Span_add_event_def
       Span_add_event_attr_def trace_inv_def split: option.splits\<close>)

lemma trace_run_inv: "trace_inv w \<Longrightarrow> trace_run mv xs w = Some w' \<Longrightarrow> trace_inv w'"
  by (induction xs arbitrary: w) (auto split: option.splits intro: trace_do_inv)

lemma new_world_inv: "trace_inv new_world"
  by (simp add: trace_inv_def new_world_def open_names_def)

section \<open>Properties\<close>

text \<open>
  C27. In every program over spans (spans made, moved, assigned, ended and destroyed in any order,
  the tracer switched on and off at any moment) the spans that have reported their start are, with
  their names and multiplicities, those that have reported their end and those that are still
  open; when no live span is open, every start has exactly one end.
\<close>

theorem spans_balanced:
  assumes "trace_run mv ops new_world = Some w"
  shows "started (logged w) = finished (logged w) + open_names (spans w)
       \<and> ((\<forall>s. Some s \<in> set (spans w) \<longrightarrow> \<not> is_open s) \<longrightarrow> started (logged w) = finished (logged w))"
proof -
  have eq: "started (logged w) = finished (logged w) + open_names (spans w)"
    using trace_run_inv [OF new_world_inv assms] by (simp add: trace_inv_def)
  have "open_names xs = {#}" if "\<forall>s. Some s \<in> set xs \<longrightarrow> \<not> is_open s" for xs
    using that by (induction xs) (auto simp: open_names_def open_name_def split: option.splits)
  with eq show ?thesis by simp
qed

definition sample_trace :: "trace_op list" where
  "sample_trace =
     [TInit (default_TracingConfig\<lparr>tc_enabled := True\<rparr>),
      TStart 0 ''a'' SERVER, TStart 5 ''b'' CLIENT, TMove 0, TError 2 ''late'',
      TAssign 7000000 1 2, TShutdown, TDestroy 9000000 0, TDestroy 12000000 1, TDestroy 13000000 2]"

theorem spans_balanced_witness:
  "\<exists>w. trace_run id sample_trace new_world = Some w
     \<and> logged w = [TracerInit True ''curp-node'', SpanStart ''a'' ''server'', SpanStart ''b'' ''client'',
         SpanError ''a'' ''late'', SpanEnd ''b'' 6 ''ok'', TracerShutdown, SpanEnd ''a'' 12 ''error'']
     \<and> started (logged w) = finished (logged w)"
proof -
  obtain w where w: "trace_run id sample_trace new_world = Some w"
    "spans w = [None, None, None]"
    "logged w = [TracerInit True ''curp-node'', SpanStart ''a'' ''server'', SpanStart ''b'' ''client'',
       SpanError ''a'' ''late'', SpanEnd ''b'' 6 ''ok'', TracerShutdown, SpanEnd ''a'' 12 ''error'']"
    by (simp add: sample_trace_def new_world_def live_def Tracer_init_def Tracer_shutdown_def
        Tracer_start_span_def new_Span_def new_Tracer_def Tracer_is_enabled_def Span_move_def
        Span_move_assign_def Span_end_def Span_destroy_def Span_set_error_def Span_duration_ms_def
        default_TracingConfig_def nth_append signed_divide_int_def)
  from spans_balanced [OF w(1)] w show ?thesis by simp
qed

end
