(* ===== verification/Witness_Trace.thy ===== *)
theory Witness_Trace
  imports Witness Tracing
begin

text \<open>
  What the operations of the witness say about themselves: each opens a span in its first line and
  leaves it to the end of the block to destroy it (\<^verbatim>\<open>src/curp/witness.cpp\<close>). The calls on the span
  along each path are listed here beside the state-changing definitions of \<open>Witness\<close>; they are the
  composition of the witness with the tracing component.
\<close>

section \<open>A span in a block\<close>

datatype span_call =
    SetAttribute string cpp_arg
  | AddEvent string
  | AddEventAttr string string string
  | SetOk
  | SetError string

primrec do_call :: "span_call \<Rightarrow> Span \<Rightarrow> Span \<times> trace_msg list" where
  "do_call (SetAttribute key v) s = (s, Span_set_attribute key (overload v) s)"
| "do_call (AddEvent name) s = (s, Span_add_event name s)"
| "do_call (AddEventAttr name key v) s = (s, Span_add_event_attr name key v s)"
| "do_call SetOk s = (Span_set_ok s, [])"
| "do_call (SetError d) s = Span_set_error d s"

primrec span_calls :: "span_call list \<Rightarrow> Span \<Rightarrow> Span \<times> trace_msg list" where
  "span_calls [] s = (s, [])"
| "span_calls (x # xs) s =
     (let (s1, ms1) = do_call x s; (s2, ms2) = span_calls xs s1 in (s2, ms1 @ ms2))"

text \<open>
  A function that makes a span, calls it and returns: the span is destroyed on the way out. The
  initialisation from the result of \<open>start_span\<close> makes no second object.
\<close>

definition span_block ::
  "Tracer \<Rightarrow> int \<Rightarrow> int \<Rightarrow> string \<Rightarrow> SpanKind \<Rightarrow> span_call list \<Rightarrow> trace_msg list" where
  "span_block tr t0 t1 name kind calls =
     (let (s, ms) = Tracer_start_span tr t0 name kind; (s', ms') = span_calls calls s
      in ms @ ms' @ Span_destroy t1 s')"

section \<open>The calls of the witness\<close>

definition utf8 :: "nat list \<Rightarrow> string" where
  "utf8 bs = map char_of bs"

definition msg_stopped :: string where
  "msg_stopped = utf8 [229, 183, 178, 229, 129, 156, 230, 173, 162, 230, 142, 165, 229, 143, 151]"

definition msg_wrong_master :: string where
  "msg_wrong_master = ''Master '' @ utf8 [228, 184, 141, 229, 140, 185, 233, 133, 141]"

definition msg_no_space :: string where
  "msg_no_space = utf8 [231, 169, 186, 233, 151, 180, 228, 184, 141, 232, 182, 179]"

definition msg_key_conflict :: string where
  "msg_key_conflict = ''key '' @ utf8 [229, 134, 178, 231, 170, 129]"

abbreviation i64_of :: "'a::len word \<Rightarrow> cpp_arg" where
  "i64_of x \<equiv> Int64 (to_i64 (uint x))"

abbreviation i64_size :: "'a list \<Rightarrow> cpp_arg" where
  "i64_size xs \<equiv> Int64 (to_i64 (int (length xs)))"

definition witness_record_calls ::
  "u64 \<Rightarrow> Witness \<Rightarrow> string \<Rightarrow> u64 \<Rightarrow> string \<Rightarrow> bytes \<Rightarrow> u64 \<Rightarrow> span_call list" where
  "witness_record_calls now w master_id rpc_id key data client_id =
     [SetAttribute ''rpc_id'' (i64_of rpc_id), SetAttribute ''master_id'' (StdString master_id),
      SetAttribute ''key'' (StdString key), SetAttribute ''client_id'' (i64_of client_id),
      SetAttribute ''request_size'' (i64_size data)] @
     (if \<not> w_accepting w
      then [SetAttribute ''result'' (Literal ''REJECTED_STOPPED''), SetError msg_stopped]
      else if w_master_id w \<noteq> [] \<and> master_id \<noteq> w_master_id w
      then [SetAttribute ''result'' (Literal ''REJECTED_WRONG_MASTER''), SetError msg_wrong_master]
      else if kMaxRecords \<le> length (w_records w)
      then [SetAttribute ''result'' (Literal ''REJECTED_NO_SPACE''), SetError msg_no_space]
      else if rpc_id \<in> w_rpc_ids w
      then [SetAttribute ''result'' (Literal ''ACCEPTED_DUPLICATE''), SetOk]
      else (case um_find (w_records w) key of
          Some existing \<Rightarrow>
            [SetAttribute ''result'' (Literal ''REJECTED_NOT_COMMUTATIVE''),
             SetAttribute ''conflict_rpc_id'' (i64_of (wr_rpc_id existing)), SetError msg_key_conflict]
        | None \<Rightarrow>
            (let w' = snd (witness_record now w master_id rpc_id key data client_id) in
             (if w_master_id w = [] then [AddEventAttr ''master_bound'' ''master_id'' (w_master_id w')]
              else []) @
             [SetAttribute ''result'' (Literal ''ACCEPTED''),
              SetAttribute ''records_count'' (i64_size (w_records w')),
              SetAttribute ''total_recorded'' (i64_of (w_total_recorded w')), SetOk])))"

definition witness_garbage_collect_calls :: "Witness \<Rightarrow> string \<Rightarrow> GCEntry list \<Rightarrow> span_call list" where
  "witness_garbage_collect_calls w master_id entries =
     [SetAttribute ''master_id'' (StdString master_id),
      SetAttribute ''entries_count'' (i64_size entries)] @
     (if w_master_id w \<noteq> [] \<and> master_id \<noteq> w_master_id w then [SetError msg_wrong_master]
      else (let (dropped, w') = witness_garbage_collect w master_id entries in
        [SetAttribute ''dropped'' (i64_of dropped), SetAttribute ''remaining'' (i64_size (w_records w')),
         SetAttribute ''total_gc'' (i64_of (w_total_gc w')), SetOk]))"

definition witness_get_recovery_data_calls :: "Witness \<Rightarrow> string \<Rightarrow> span_call list" where
  "witness_get_recovery_data_calls w master_id =
     [SetAttribute ''master_id'' (StdString master_id)] @
     (if w_master_id w \<noteq> [] \<and> master_id \<noteq> w_master_id w then [SetError msg_wrong_master]
      else [SetAttribute ''records_returned'' (i64_size (fst (witness_get_recovery_data w master_id))),
            SetAttribute ''accepting'' (Bool False), SetOk])"

definition witness_stop_accepting_calls :: "Witness \<Rightarrow> span_call list" where
  "witness_stop_accepting_calls w =
     [SetAttribute ''accepting'' (Bool False), SetAttribute ''records_count'' (i64_size (w_records w)),
      SetOk]"

definition witness_reset_calls :: "Witness \<Rightarrow> string \<Rightarrow> span_call list" where
  "witness_reset_calls w new_master_id =
     [SetAttribute ''new_master_id'' (StdString new_master_id),
      SetAttribute ''cleared'' (i64_size (w_records w)), SetAttribute ''accepting'' (Bool True), SetOk]"

section \<open>Lemmas\<close>

text \<open>The status a span has after a sequence of calls: the last one that sets it decides.\<close>

primrec status_after :: "span_call list \<Rightarrow> string \<Rightarrow> string" where
  "status_after [] st = st"
| "status_after (x # xs) st = status_after xs (case x of SetOk \<Rightarrow> ''ok'' | SetError d \<Rightarrow> ''error'' | _ \<Rightarrow> st)"

lemma status_after_append: "status_after (xs @ ys) st = status_after ys (status_after xs st)"
  by (induction xs arbitrary: st) simp_all

lemma span_call_keeps:
  "do_call x s = (s', ms) \<Longrightarrow>
     s' = s\<lparr>sp_status := status_after [x] (sp_status s)\<rparr> \<and> started ms = {#} \<and> finished ms = {#}"
  by (cases x) (auto simp: Span_set_attribute_def Span_add_event_def Span_add_event_attr_def
      Span_set_ok_def Span_set_error_def)

lemma span_calls_keep:
  "span_calls xs s = (s', ms) \<Longrightarrow>
     s' = s\<lparr>sp_status := status_after xs (sp_status s)\<rparr> \<and> started ms = {#} \<and> finished ms = {#}"
proof (induction xs arbitrary: s s' ms)
  case (Cons x xs)
  obtain s1 ms1 where x: "do_call x s = (s1, ms1)" by fastforce
  obtain s2 ms2 where xs: "span_calls xs s1 = (s2, ms2)" by fastforce
  from Cons.prems x xs have eq: "s' = s2" "ms = ms1 @ ms2" by simp_all
  from span_call_keeps [OF x] Cons.IH [OF xs] show ?case by (simp add: eq)
qed simp

text \<open>
  A block starts and ends its span exactly once, in this order around everything else, whichever
  calls it makes, and the end carries the status of the last call that set one.
\<close>

lemma span_block_enabled:
  assumes "tr_enabled tr"
  shows "span_block tr t0 t1 name kind calls =
    SpanStart name (SpanKind_to_string kind) #
    snd (span_calls calls (fst (new_Span tr t0 name kind))) @
    [SpanEnd name ((t1 - t0) sdiv 1000000) (status_after calls ''ok'')]"
proof -
  define s where "s = fst (new_Span tr t0 name kind)"
  have new: "Tracer_start_span tr t0 name kind = (s, [SpanStart name (SpanKind_to_string kind)])"
    using assms by (simp add: s_def Tracer_start_span_def new_Span_def Tracer_is_enabled_def Let_def)
  have fields: "sp_valid s" "\<not> sp_ended s" "sp_name s = name" "sp_status s = ''ok''" "sp_start_time s = t0"
    using assms by (simp_all add: s_def new_Span_def Tracer_is_enabled_def Let_def)
  obtain s' ms where calls: "span_calls calls s = (s', ms)" by fastforce
  have "s' = s\<lparr>sp_status := status_after calls ''ok''\<rparr>" using span_calls_keep [OF calls] fields by simp
  with fields have "Span_destroy t1 s' = [SpanEnd name ((t1 - t0) sdiv 1000000) (status_after calls ''ok'')]"
    by (simp add: Span_destroy_def Span_end_def Span_duration_ms_def)
  with new calls show ?thesis by (simp add: span_block_def s_def)
qed

lemma span_block_disabled:
  assumes "\<not> tr_enabled tr"
  shows "started (span_block tr t0 t1 name kind calls) = {#}"
    "finished (span_block tr t0 t1 name kind calls) = {#}"
proof -
  obtain s' ms where calls: "span_calls calls (fst (new_Span tr t0 name kind)) = (s', ms)" by fastforce
  have "\<not> sp_valid (fst (new_Span tr t0 name kind))"
    using assms by (simp add: new_Span_def Tracer_is_enabled_def Let_def)
  with span_calls_keep [OF calls] have "Span_destroy t1 s' = []" by (simp add: Span_destroy_def)
  moreover have "Tracer_start_span tr t0 name kind = (fst (new_Span tr t0 name kind), [])"
    using assms by (simp add: Tracer_start_span_def new_Span_def Tracer_is_enabled_def Let_def)
  ultimately have "span_block tr t0 t1 name kind calls = ms" using calls by (simp add: span_block_def)
  with span_calls_keep [OF calls]
  show "started (span_block tr t0 t1 name kind calls) = {#}"
    "finished (span_block tr t0 t1 name kind calls) = {#}" by simp_all
qed

lemma span_block_balanced: "started (span_block tr t0 t1 name kind cs) = finished (span_block tr t0 t1 name kind cs)"
proof (cases "tr_enabled tr")
  case True
  obtain s' ms where "span_calls cs (fst (new_Span tr t0 name kind)) = (s', ms)" by fastforce
  with span_calls_keep [OF this] show ?thesis by (simp add: span_block_enabled [OF True])
next
  case False
  then show ?thesis by (simp add: span_block_disabled)
qed

text \<open>Which attribute values reach the log under a key.\<close>

lemma do_call_attribute:
  "do_call c s = (s', ms) \<Longrightarrow> SpanAttribute n key v \<in> set ms \<Longrightarrow>
     \<exists>x. c = SetAttribute key x \<and> v = overload x"
  by (cases c) (auto simp: Span_set_attribute_def Span_add_event_def Span_add_event_attr_def
      Span_set_error_def)

lemma span_calls_attribute:
  "SpanAttribute n key v \<in> set (snd (span_calls calls s)) \<Longrightarrow>
     \<exists>x. SetAttribute key x \<in> set calls \<and> v = overload x"
proof (induction calls arbitrary: s)
  case (Cons c calls)
  obtain s1 ms1 where c: "do_call c s = (s1, ms1)" by fastforce
  with Cons.prems consider "SpanAttribute n key v \<in> set ms1"
    | "SpanAttribute n key v \<in> set (snd (span_calls calls s1))"
    by (auto split: prod.splits)
  then show ?case
  proof cases
    case 1
    with do_call_attribute [OF c] show ?thesis by fastforce
  next
    case 2
    from Cons.IH [OF this] show ?thesis by auto
  qed
qed simp

lemma record_calls_status:
  "status_after (witness_record_calls now w m i k d c) ''ok'' =
     (if fst (witness_record now w m i k d c) = ACCEPTED then ''ok'' else ''error'')"
  by (simp add: witness_record_calls_def witness_record_def witness_reject_def status_after_append Let_def
      split: option.split)

lemma record_calls_result:
  assumes "SetAttribute ''result'' x \<in> set (witness_record_calls now w m i k d c)"
  shows "\<exists>v. x = Literal v"
  using assms unfolding witness_record_calls_def Let_def by (auto split: if_splits option.splits)

section \<open>Properties\<close>

text \<open>
  C28. A call of \<open>record\<close> on a traced witness logs the start of its span first and the end last, each
  once, and the end says \<open>ok\<close> exactly when the request was accepted. The attribute
  \<open>result\<close>, which the code sets to the name of the outcome, is logged as the boolean \<open>true\<close> on
  every path, since a string literal selects the \<open>bool\<close> overload: the attribute does not tell the
  outcomes apart.
\<close>

theorem record_traced:
  assumes "tr_enabled tr"
  shows "\<exists>ms. span_block tr t0 t1 ''Witness.record'' SERVER (witness_record_calls now w m i k d c)
      = SpanStart ''Witness.record'' ''server'' # ms @
        [SpanEnd ''Witness.record'' ((t1 - t0) sdiv 1000000)
          (if fst (witness_record now w m i k d c) = ACCEPTED then ''ok'' else ''error'')]
    \<and> started ms = {#} \<and> finished ms = {#}
    \<and> (\<forall>n v. SpanAttribute n ''result'' v \<in> set ms \<longrightarrow> v = BoolAttr True)"
proof -
  let ?c = "witness_record_calls now w m i k d c" and ?s = "fst (new_Span tr t0 ''Witness.record'' SERVER)"
  obtain s' ms where calls: "span_calls ?c ?s = (s', ms)" by fastforce
  have "v = BoolAttr True" if "SpanAttribute n ''result'' v \<in> set ms" for n v
  proof -
    from that calls have "SpanAttribute n ''result'' v \<in> set (snd (span_calls ?c ?s))" by simp
    from span_calls_attribute [OF this] record_calls_result show ?thesis by fastforce
  qed
  moreover have "started ms = {#}" "finished ms = {#}" using span_calls_keep [OF calls] by simp_all
  ultimately show ?thesis
    using span_block_enabled [OF assms, of t0 t1 "''Witness.record''" SERVER ?c] calls
    by (simp add: record_calls_status)
qed

theorem record_traced_witness:
  "\<exists>ms. span_block (new_Tracer\<lparr>tr_enabled := True\<rparr>) 0 2000000 ''Witness.record'' SERVER
        (witness_record_calls 0 (witness_stop_accepting (new_Witness [])) ''m'' 1 ''k'' [] 7)
      = SpanStart ''Witness.record'' ''server'' # ms @ [SpanEnd ''Witness.record'' 2 ''error'']
    \<and> started ms = {#} \<and> finished ms = {#}
    \<and> SpanAttribute ''Witness.record'' ''result'' (BoolAttr True) \<in> set ms"
proof -
  let ?tr = "new_Tracer\<lparr>tr_enabled := True\<rparr>" and ?w = "witness_stop_accepting (new_Witness [])"
  have res: "fst (witness_record 0 ?w ''m'' 1 ''k'' [] 7) = REJECTED_STOPPED"
    by (simp add: witness_record_def witness_reject_def witness_stop_accepting_def new_Witness_def)
  have log: "SpanAttribute ''Witness.record'' ''result'' (BoolAttr True)
      \<in> set (span_block ?tr 0 2000000 ''Witness.record'' SERVER (witness_record_calls 0 ?w ''m'' 1 ''k'' [] 7))"
    by (simp add: span_block_def witness_record_calls_def witness_stop_accepting_def new_Witness_def
        Tracer_start_span_def new_Span_def Tracer_is_enabled_def Span_set_attribute_def Span_set_error_def Let_def)
  have on: "tr_enabled ?tr" by simp
  have dur: "(2000000 - 0) sdiv 1000000 = (2 :: int)" by (simp add: signed_divide_int_def)
  obtain ms where ms: "span_block ?tr 0 2000000 ''Witness.record'' SERVER
        (witness_record_calls 0 ?w ''m'' 1 ''k'' [] 7)
      = SpanStart ''Witness.record'' ''server'' # ms @ [SpanEnd ''Witness.record'' 2 ''error'']"
    "started ms = {#}" "finished ms = {#}"
    using record_traced [OF on, of 0 2000000 0 ?w "''m''" 1 "''k''" "[]" 7]
    unfolding res dur by (simp only: if_False RecordResult.distinct) blast
  moreover from log have "SpanAttribute ''Witness.record'' ''result'' (BoolAttr True) \<in> set ms"
    unfolding ms(1) by simp
  ultimately show ?thesis by blast
qed

end
