(* ===== verification/Master_Trace.thy ===== *)
theory Master_Trace
  imports Curp_Master Witness_Trace
begin

text \<open>
  The operations of the CURP master with their tracing spans (\<^verbatim>\<open>src/curp/curp_master.cpp\<close>). Each
  definition runs the code of its counterpart in \<open>Curp_Master\<close> and collects what the spans hand to the
  logger, the spans of the local witness included. A thread that blocks on the mutex for ever
  destroys nothing, so its open spans never end. Readings of the steady clock are the
  values of \<open>t\<close>, numbered by the place in the function; a remote witness logs in its own process.
\<close>

section \<open>Code that runs with a span\<close>

type_synonym 'a traced = "Span \<Rightarrow> trace_msg list \<times> (curp_error + 'a \<times> Span)"

definition t_return :: "'a \<Rightarrow> 'a traced" where
  "t_return x s = ([], Inr (x, s))"

definition t_bind :: "'a traced \<Rightarrow> ('a \<Rightarrow> 'b traced) \<Rightarrow> 'b traced" where
  "t_bind f g s =
     (case f s of
        (ms, Inl err) \<Rightarrow> (ms, Inl err)
      | (ms, Inr (x, s')) \<Rightarrow> (let (ms', r) = g x s' in (ms @ ms', r)))"

text \<open>Calls on the span, and code that logs on its own or not at all.\<close>

definition t_calls :: "span_call list \<Rightarrow> unit traced" where
  "t_calls cs s = (let (s', ms) = span_calls cs s in (ms, Inr ((), s')))"

definition t_inner :: "trace_msg list \<times> (curp_error + 'a) \<Rightarrow> 'a traced" where
  "t_inner b s = (fst b, rbind (snd b) (\<lambda>x. Inr (x, s)))"

definition t_run :: "curp_error + 'a \<Rightarrow> 'a traced" where
  "t_run r = t_inner ([], r)"

text \<open>A function body: its span is destroyed when the function returns.\<close>

definition with_span ::
  "Tracer \<Rightarrow> int \<Rightarrow> int \<Rightarrow> string \<Rightarrow> SpanKind \<Rightarrow> 'a traced \<Rightarrow> trace_msg list \<times> (curp_error + 'a)" where
  "with_span tr t0 t1 name kind body =
     (let (s, ms) = Tracer_start_span tr t0 name kind in
      case body s of
        (ms', Inl err) \<Rightarrow> (ms @ ms', Inl err)
      | (ms', Inr (x, s')) \<Rightarrow> (ms @ ms' @ Span_destroy t1 s', Inr x))"

section \<open>The operations\<close>

definition msg_recovering :: string where
  "msg_recovering = ''Master '' @ utf8 [230, 173, 163, 229, 156, 168, 230, 129, 162, 229, 164, 141]"

definition msg_unsynced :: string where
  "msg_unsynced = ''key '' @ utf8 [230, 156, 170, 229, 144, 140, 230, 173, 165]"

primrec OpType_to_int :: "OpType \<Rightarrow> int" where
  "OpType_to_int PUT = 0"
| "OpType_to_int GET = 1"
| "OpType_to_int DELETE_OP = 2"

text \<open>What \<open>propose\<close> says under the mutex, from the state before and after.\<close>

definition propose_locked_calls ::
  "(nat \<Rightarrow> int) \<Rightarrow> CurpOp \<Rightarrow> 'f CurpMaster \<Rightarrow> 'f CurpMaster \<Rightarrow> span_call list" where
  "propose_locked_calls t op m m' =
     SetAttribute ''total_proposes'' (i64_of (total_proposes m')) #
     (if is_executed m (op_rpc_id op) then [SetAttribute ''result'' (Literal ''DUPLICATE''), SetOk]
      else if can_speculative_execute m op then
        [SetAttribute ''result'' (Literal ''FAST_PATH''),
         SetAttribute ''unsynced_count'' (i64_size (unsynced_ops m')),
         SetAttribute ''total_fast'' (i64_of (total_fast_path m')),
         SetAttribute ''latency_us'' (Int64 ((t 2 - t 1) sdiv 1000)), SetOk]
      else
        [SetAttribute ''result'' (Literal ''SLOW_PATH''),
         SetAttribute ''unsynced_keys'' (Int64 (to_i64 (int (card (unsynced_keys m'))))),
         SetAttribute ''total_slow'' (i64_of (total_slow_path m')), AddEvent ''need_sync'', SetOk])"

definition propose_traced ::
  "Tracer \<Rightarrow> (nat \<Rightarrow> int) \<Rightarrow> 'f CurpMaster \<Rightarrow> CurpOp \<Rightarrow>
    trace_msg list \<times> (curp_error + (ProposeResult \<times> 'f CurpMaster))" where
  "propose_traced tr t m op =
     with_span tr (t 0) (t 3) ''CurpMaster.propose'' SERVER
       (t_bind (t_calls [SetAttribute ''rpc_id'' (i64_of (op_rpc_id op)),
          SetAttribute ''client_id'' (i64_of (op_client_id op)), SetAttribute ''key'' (StdString (op_key op)),
          SetAttribute ''op_type'' (Int64 (OpType_to_int (op_type op)))]) (\<lambda>_.
        if curp_state m = RECOVERING then
          t_bind (t_calls [SetError msg_recovering]) (\<lambda>_.
          t_return (\<lparr>pr_success = False, pr_fast_path = False, pr_need_sync = False,
                     pr_error = ''master is recovering''\<rparr>, m))
        else
          t_bind (t_run (lock_curp m)) (\<lambda>m1.
            let (r, m2) = propose_locked op m1 in
            t_bind (t_calls (propose_locked_calls t op m1 m2)) (\<lambda>_. t_return (r, unlock_curp m2)))))"

definition read_traced ::
  "Tracer \<Rightarrow> (nat \<Rightarrow> int) \<Rightarrow> 'f CurpMaster \<Rightarrow> string \<Rightarrow>
    trace_msg list \<times> (curp_error + (ReadResult \<times> 'f CurpMaster))" where
  "read_traced tr t m key =
     with_span tr (t 0) (t 1) ''CurpMaster.read'' SERVER
       (t_bind (t_calls [SetAttribute ''key'' (StdString key)]) (\<lambda>_.
        if curp_state m = RECOVERING then
          t_bind (t_calls [SetError msg_recovering]) (\<lambda>_.
          t_return (\<lparr>rr_success = False, rr_value = []\<rparr>, m))
        else
          t_bind (t_run (lock_curp m)) (\<lambda>m1.
            if key \<in> unsynced_keys m1 then
              t_bind (t_calls [SetAttribute ''result'' (Literal ''CONFLICT''), SetError msg_unsynced]) (\<lambda>_.
              t_return (\<lparr>rr_success = False, rr_value = []\<rparr>, unlock_curp m1))
            else
              t_bind (t_calls [SetAttribute ''result'' (Literal ''SUCCESS''), SetOk]) (\<lambda>_.
              t_return (\<lparr>rr_success = True, rr_value = []\<rparr>, unlock_curp m1)))))"

definition sync_traced ::
  "Tracer \<Rightarrow> (nat \<Rightarrow> int) \<Rightarrow> 'f CurpMaster \<Rightarrow> trace_msg list \<times> (curp_error + (bool \<times> 'f CurpMaster))" where
  "sync_traced tr t m =
     with_span tr (t 0) (t 1) ''CurpMaster.sync'' SERVER
       (t_bind (t_run (lock_curp m)) (\<lambda>m1.
          if unsynced_ops m1 = [] then
            t_bind (t_calls [SetAttribute ''result'' (Literal ''SKIPPED''), SetOk]) (\<lambda>_.
            t_return (False, unlock_curp m1))
          else
            t_bind (t_calls [SetAttribute ''unsynced_count'' (i64_size (unsynced_ops m1)), SetOk]) (\<lambda>_.
            t_return (True, unlock_curp m1))))"

text \<open>The call of \<open>reset\<close> on the local witness, with the span of the witness.\<close>

definition reset_local ::
  "Tracer \<Rightarrow> int \<Rightarrow> int \<Rightarrow> 'f CurpMaster \<Rightarrow> heap \<Rightarrow> trace_msg list \<times> (curp_error + heap)" where
  "reset_local tr t0 t1 m h =
     (case local_witness m of
        None \<Rightarrow> ([], Inr h)
      | Some a \<Rightarrow>
          (span_block tr t0 t1 ''Witness.reset'' INTERNAL (witness_reset_calls (h a) (node_name m)),
           Inr (h(a := witness_reset (h a) (node_name m)))))"

definition do_sync_traced ::
  "Tracer \<Rightarrow> (nat \<Rightarrow> int) \<Rightarrow> 'f CurpMaster \<Rightarrow> heap \<Rightarrow>
    trace_msg list \<times> (curp_error + ('f CurpMaster \<times> heap))" where
  "do_sync_traced tr t m0 h =
     with_span tr (t 0) (t 5) ''CurpMaster.do_sync'' INTERNAL
       (t_bind (t_run (lock_curp m0)) (\<lambda>m.
          if unsynced_ops m = [] then
            t_bind (t_calls [SetAttribute ''result'' (Literal ''SKIPPED_EMPTY''), SetOk]) (\<lambda>_.
            t_return (unlock_curp m, h))
          else
            let m1 = m\<lparr>syncing := True\<rparr> in
            t_bind (t_calls [SetAttribute ''sync_count'' (i64_size (unsynced_ops m1)), AddEvent ''sync_started'']) (\<lambda>_.
            let entries = sync_entries m1;
                size = log_size (base m1);
                m2 = m1\<lparr>unsynced_keys := {}, unsynced_ops := [],
                        last_sync_index := (if 0 < size then size - 1 else 0)\<rparr>;
                m3 = m2\<lparr>syncing := False\<rparr>
            in
            t_bind (t_inner (reset_local tr (t 2) (t 3) m3 h)) (\<lambda>h'.
            t_bind (t_calls [SetAttribute ''duration_ms'' (Int64 ((t 4 - t 1) sdiv 1000000)),
              SetAttribute ''last_sync_index'' (Int64 (to_i64 (last_sync_index m3))),
              SetAttribute ''witness_reset'' (Bool True), AddEvent ''sync_completed'', SetOk]) (\<lambda>_.
            t_return (unlock_curp m3, h'))))))"

text \<open>The replay of \<open>recover\<close>: the span of a local witness is in the log of the master.\<close>

definition replay_witnesses ::
  "Tracer \<Rightarrow> (nat \<Rightarrow> int) \<Rightarrow> rpc_outcome \<Rightarrow> 'f CurpMaster \<Rightarrow> heap \<Rightarrow>
    trace_msg list \<times> (curp_error + (nat \<times> 'f CurpMaster \<times> heap))" where
  "replay_witnesses tr t out m h =
     (case local_witness m of
        Some a \<Rightarrow>
          (span_block tr (t 2) (t 3) ''Witness.get_recovery_data'' SERVER
             (witness_get_recovery_data_calls (h a) (node_name m)),
           replay_from_local_witness a m h)
      | None \<Rightarrow>
          (case witness_clients m of
             [] \<Rightarrow> ([], Inr (0, m, h))
           | client # _ \<Rightarrow> ([], replay_from_witness out client m h)))"

definition recover_traced ::
  "Tracer \<Rightarrow> (nat \<Rightarrow> int) \<Rightarrow> (nat \<Rightarrow> int) \<Rightarrow> rpc_outcome \<Rightarrow> 'f CurpMaster \<Rightarrow> heap \<Rightarrow>
    trace_msg list \<times> (curp_error + ('f CurpMaster \<times> heap))" where
  "recover_traced tr t ts out m0 h =
     with_span tr (t 0) (t 5) ''CurpMaster.recover'' INTERNAL
       (t_bind (t_calls [AddEvent ''state_recovering'']) (\<lambda>_.
        let m1 = recover_from_backup (m0\<lparr>curp_state := RECOVERING\<rparr>) in
        t_bind (t_inner (replay_witnesses tr t out m1 h)) (\<lambda>(n, m2, h2).
        t_bind (t_run (lock_curp m2)) (\<lambda>m3.
        t_bind (if unsynced_ops m3 \<noteq> [] then t_inner (do_sync_traced tr ts m3 h2) else t_return (m3, h2))
          (\<lambda>(m4, h4).
           let m5 = (unlock_curp m4)\<lparr>curp_state := NORMAL\<rparr> in
           t_bind (t_calls [SetAttribute ''recovered'' (i64_of (total_recovered m5)),
             SetAttribute ''replayed'' (Int64 (to_i64 (int n))),
             SetAttribute ''duration_ms'' (Int64 ((t 4 - t 1) sdiv 1000000)), SetOk]) (\<lambda>_.
           t_return (m5, h4)))))))"

lemma t_bind_Inr [simp]: "t_bind (t_run (Inr x)) g = g x" "t_bind (t_return x) g = g x"
  by (simp_all add: fun_eq_iff t_bind_def t_run_def t_inner_def t_return_def)

section \<open>Tracking the untraced code\<close>

text \<open>
  Traced code tracks untraced code: it has the same outcome, every span it opens is closed when it
  returns, and when it blocks the spans \<open>N\<close> are left open. The span it runs with only changes its
  status.
\<close>

definition tracks :: "string multiset \<Rightarrow> 'a traced \<Rightarrow> curp_error + 'a \<Rightarrow> bool" where
  "tracks N f r \<longleftrightarrow>
     (\<forall>s. case f s of
        (ms, Inl err) \<Rightarrow> r = Inl err \<and> started ms = finished ms + N
      | (ms, Inr (x, s')) \<Rightarrow> r = Inr x \<and> open_name (Some s') = open_name (Some s) \<and> started ms = finished ms)"

definition block_tracks :: "string multiset \<Rightarrow> trace_msg list \<times> (curp_error + 'a) \<Rightarrow> curp_error + 'a \<Rightarrow> bool" where
  "block_tracks N b r \<longleftrightarrow>
     snd b = r \<and> started (fst b) = finished (fst b) + (case r of Inl _ \<Rightarrow> N | Inr _ \<Rightarrow> {#})"

named_theorems tracking

lemma tracks_return [tracking]: "tracks N (t_return x) (Inr x)"
  by (simp add: tracks_def t_return_def)

lemma tracks_inner [tracking]: "block_tracks N b r \<Longrightarrow> tracks N (t_inner b) r"
  by (cases r) (auto simp: tracks_def block_tracks_def t_inner_def)

lemma tracks_run [tracking]: "(\<And>err. r = Inl err \<Longrightarrow> N = {#}) \<Longrightarrow> tracks N (t_run r) r"
  unfolding t_run_def by (rule tracks_inner) (cases r; simp add: block_tracks_def)

lemma tracks_bind:
  assumes "tracks N f r" and "\<And>x. r = Inr x \<Longrightarrow> tracks N (g x) (k x)"
  shows "tracks N (t_bind f g) (rbind r k)"
  unfolding tracks_def
proof
  fix s
  obtain ms o1 where f: "f s = (ms, o1)" by fastforce
  show "case t_bind f g s of (ms, Inl err) \<Rightarrow> rbind r k = Inl err \<and> started ms = finished ms + N
      | (ms, Inr (x, s')) \<Rightarrow> rbind r k = Inr x \<and> open_name (Some s') = open_name (Some s) \<and> started ms = finished ms"
  proof (cases o1)
    case (Inl err)
    with assms(1) f have "r = Inl err" "started ms = finished ms + N"
      by (auto simp: tracks_def dest!: spec [where x = s])
    with f Inl show ?thesis by (simp add: t_bind_def)
  next
    case (Inr p)
    obtain x s1 where p: "p = (x, s1)" by fastforce
    with assms(1) f Inr have r: "r = Inr x" "open_name (Some s1) = open_name (Some s)" "started ms = finished ms"
      by (auto simp: tracks_def dest!: spec [where x = s])
    obtain ms' o2 where g: "g x s1 = (ms', o2)" by fastforce
    from assms(2) [OF r(1)] have "tracks N (g x) (k x)" .
    with f Inr p g r show ?thesis
      by (auto simp: tracks_def t_bind_def add.assoc split: sum.splits dest!: spec [where x = s1])
  qed
qed

text \<open>A bind whose first part cannot block leaves no trace in the untraced code.\<close>

lemma tracks_calls [tracking]:
  assumes "tracks N (g ()) r"
  shows "tracks N (t_bind (t_calls cs) g) r"
proof -
  have "tracks N (t_calls cs) (Inr ())"
    unfolding tracks_def
  proof
    fix s
    obtain s' ms where "span_calls cs s = (s', ms)" by fastforce
    with span_calls_keep [OF this]
    show "case t_calls cs s of (ms, Inl err) \<Rightarrow> Inr () = Inl err \<and> started ms = finished ms + N
      | (ms, Inr (x, s')) \<Rightarrow> Inr () = Inr x \<and> open_name (Some s') = open_name (Some s) \<and> started ms = finished ms"
      by (simp add: t_calls_def open_name_def is_open_def)
  qed
  from tracks_bind [OF this, of g "\<lambda>_. r"] assms show ?thesis by simp
qed

lemma tracks_inner_bind:
  "block_tracks N b (Inr x) \<Longrightarrow> tracks N (g x) r \<Longrightarrow> tracks N (t_bind (t_inner b) g) r"
  using tracks_bind [OF tracks_inner, of N b "Inr x" g "\<lambda>_. r"] by simp

lemma with_span_tracks:
  assumes "tracks N body r"
  shows "block_tracks (N + (if tr_enabled tr then {#name#} else {#})) (with_span tr t0 t1 name kind body) r"
proof -
  obtain s ms where s: "Tracer_start_span tr t0 name kind = (s, ms)" by fastforce
  have name: "open_name (Some s) = (if tr_enabled tr then {#name#} else {#})"
    using s by (auto simp: Tracer_start_span_def new_Span_def Tracer_is_enabled_def open_name_def is_open_def Let_def)
  obtain ms' o1 where b: "body s = (ms', o1)" by fastforce
  with assms have "case o1 of Inl err \<Rightarrow> r = Inl err \<and> started ms' = finished ms' + N
      | Inr (x, s') \<Rightarrow> r = Inr x \<and> open_name (Some s') = open_name (Some s) \<and> started ms' = finished ms'"
    by (auto simp: tracks_def split: sum.splits dest!: spec [where x = s])
  with s b show ?thesis
    unfolding name [symmetric]
    by (auto simp: with_span_def block_tracks_def new_Span_msgs [OF s] Span_destroy_msgs ac_simps split: sum.splits)
qed

section \<open>The operations of the master track\<close>

lemma propose_tracks:
  "block_tracks (if tr_enabled tr then {#''CurpMaster.propose''#} else {#}) (propose_traced tr t m op) (propose m op)"
  unfolding propose_traced_def propose_def
  by (rule with_span_tracks [where N = "{#}", simplified], rule tracks_calls)
    (auto intro!: tracking tracks_bind simp: Let_def split: prod.splits)

lemma read_tracks:
  "block_tracks (if tr_enabled tr then {#''CurpMaster.read''#} else {#}) (read_traced tr t m key) (read_master m key)"
  unfolding read_traced_def read_master_def
  by (rule with_span_tracks [where N = "{#}", simplified], rule tracks_calls)
    (auto intro!: tracking tracks_bind)

lemma sync_tracks:
  "block_tracks (if tr_enabled tr then {#''CurpMaster.sync''#} else {#}) (sync_traced tr t m) (sync_master m)"
  unfolding sync_traced_def sync_master_def
  by (rule with_span_tracks [where N = "{#}", simplified])
    (auto intro!: tracking tracks_bind)

lemma reset_local_tracks:
  "block_tracks N (reset_local tr t0 t1 m h)
    (Inr (case local_witness m of None \<Rightarrow> h | Some a \<Rightarrow> h(a := witness_reset (h a) (node_name m))))"
  by (simp add: reset_local_def block_tracks_def span_block_balanced split: option.split)

lemma do_sync_tracks:
  "block_tracks (if tr_enabled tr then {#''CurpMaster.do_sync''#} else {#}) (do_sync_traced tr t m h) (do_sync m h)"
  unfolding do_sync_traced_def do_sync_def
  by (rule with_span_tracks [where N = "{#}", simplified])
    (auto intro!: tracking tracks_bind [OF tracks_run] tracks_inner_bind [OF reset_local_tracks]
      simp: Let_def node_name_def cong: option.case_cong)

lemma replay_witnesses_tracks:
  assumes "\<not> curp_mtx m"
  obtains n m' h' where
    "block_tracks N (replay_witnesses tr t out m h) (Inr (n, m', h'))"
    "(case local_witness m of
        Some a \<Rightarrow> replay_from_local_witness a m h
      | None \<Rightarrow> (case witness_clients m of [] \<Rightarrow> Inr (0, m, h) | client # _ \<Rightarrow> replay_from_witness out client m h))
     = Inr (n, m', h')"
    "\<not> curp_mtx m'"
proof -
  have free: "\<not> curp_mtx (fold replay_one rs m)" for rs using fold_replay_same(1) [of rs m] assms by simp
  show ?thesis
  proof (cases "local_witness m")
    case (Some a)
    obtain rs w where "witness_get_recovery_data (h a) (node_name m) = (rs, w)" by fastforce
    with Some assms free show ?thesis
      by (intro that [of "length rs" "fold replay_one rs m" "h(a := w)"])
        (simp_all add: replay_witnesses_def block_tracks_def span_block_balanced replay_from_local_witness_def replay_ops_eq)
  next
    case None
    show ?thesis
    proof (cases "witness_clients m")
      case Nil
      with None assms show ?thesis
        by (intro that [of 0 m h]) (simp_all add: replay_witnesses_def block_tracks_def)
    next
      case (Cons c cs)
      obtain rs w where "WitnessClient_get_recovery_data out (h c) (node_name m) = (rs, w)" by fastforce
      with None Cons assms free show ?thesis
        by (intro that [of "length rs" "fold replay_one rs m" "h(c := w)"])
          (simp_all add: replay_witnesses_def block_tracks_def replay_from_witness_def replay_ops_eq)
    qed
  qed
qed

lemma recover_tracks:
  assumes "\<not> curp_mtx m" and "tr_enabled tr"
  shows "block_tracks {#''CurpMaster.do_sync'', ''CurpMaster.recover''#}
    (recover_traced tr t ts out m h) (recover out m h)"
proof -
  define m1 where "m1 = recover_from_backup (m\<lparr>curp_state := RECOVERING\<rparr>)"
  have "\<not> curp_mtx m1" using assms(1) by (simp add: m1_def recover_from_backup_def)
  then obtain n m2 h2 where replay: "block_tracks {#''CurpMaster.do_sync''#} (replay_witnesses tr t out m1 h) (Inr (n, m2, h2))"
    and plain: "(case local_witness m1 of
        Some a \<Rightarrow> replay_from_local_witness a m1 h
      | None \<Rightarrow> (case witness_clients m1 of [] \<Rightarrow> Inr (0, m1, h) | client # _ \<Rightarrow> replay_from_witness out client m1 h))
     = Inr (n, m2, h2)" and free: "\<not> curp_mtx m2"
    by (rule replay_witnesses_tracks)
  have sync: "block_tracks {#''CurpMaster.do_sync''#} (do_sync_traced tr ts m3 h3) (do_sync m3 h3)" for m3 h3
    using do_sync_tracks [of tr ts m3 h3] assms(2) by simp
  have body: "tracks {#''CurpMaster.do_sync''#} body r \<Longrightarrow>
      block_tracks {#''CurpMaster.do_sync'', name#} (with_span tr t0 t1 name kind body) r"
    for body :: "('a CurpMaster \<times> heap) traced" and r name t0 t1 kind
    using with_span_tracks [of "{#''CurpMaster.do_sync''#}" body r tr name t0 t1 kind] assms(2) by (simp add: add_mset_commute)
  show ?thesis
    unfolding recover_traced_def recover_def m1_def [symmetric] Let_def plain
    by (rule body, rule tracks_calls, rule tracks_bind [OF tracks_inner [OF replay]])
      (use free in \<open>auto intro!: tracking tracks_bind sync simp: lock_curp_def\<close>)
qed

text \<open>
  The status of a finished \<open>propose\<close>: a request that is refused because of a key conflict ends \<open>ok\<close>, like
  one that was executed.
\<close>

lemma propose_status:
  assumes "tr_enabled tr" and "\<not> curp_mtx m"
  shows "\<exists>d. last (fst (propose_traced tr t m op)) =
    SpanEnd ''CurpMaster.propose'' d (if curp_state m = RECOVERING then ''error'' else ''ok'')"
  using assms
  by (simp add: propose_traced_def propose_locked_calls_def with_span_def t_bind_def t_calls_def t_return_def
      t_run_def t_inner_def lock_curp_def Tracer_start_span_def new_Span_def Tracer_is_enabled_def Span_destroy_def
      Span_end_def Span_set_error_def Span_set_ok_def Let_def split: prod.split)

section \<open>Properties\<close>

text \<open>
  C29. Tracing the master changes nothing of what it does: the traced operations have the outcomes of
  the untraced ones. In the trace of a recovery every span that starts also ends, with one exception:
  a recovery that blocks leaves its own span and that of the \<open>do_sync\<close> it called open for ever, and
  they are the only ones.
\<close>

theorem recover_traced_spans:
  assumes "tr_enabled tr" and "\<not> curp_mtx m"
  shows "snd (recover_traced tr t ts out m h) = recover out m h
    \<and> snd (propose_traced tr t m op) = propose m op
    \<and> snd (read_traced tr t m key) = read_master m key
    \<and> snd (sync_traced tr t m) = sync_master m
    \<and> snd (do_sync_traced tr t m h) = do_sync m h
    \<and> started (fst (recover_traced tr t ts out m h)) =
        finished (fst (recover_traced tr t ts out m h)) +
        (if recover out m h = Inl Deadlock then {#''CurpMaster.recover'', ''CurpMaster.do_sync''#} else {#})"
proof -
  have dead: "e = Deadlock" for e by (cases e) simp
  have "started (fst (recover_traced tr t ts out m h)) =
        finished (fst (recover_traced tr t ts out m h)) +
        (if recover out m h = Inl Deadlock then {#''CurpMaster.recover'', ''CurpMaster.do_sync''#} else {#})"
    using recover_tracks [OF assms(2,1), of t ts out h] dead
    by (cases "recover out m h") (auto simp: block_tracks_def add_mset_commute)
  then show ?thesis
    using recover_tracks [OF assms(2,1), of t ts out h] propose_tracks [of tr t m op] read_tracks [of tr t m key]
      sync_tracks [of tr t m] do_sync_tracks [of tr t m h]
    by (simp add: block_tracks_def)
qed

theorem recover_traced_spans_witness:
  "started (fst (recover_traced (new_Tracer\<lparr>tr_enabled := True\<rparr>) (\<lambda>_. 0) (\<lambda>_. 0) Delivered
        (sample_master\<lparr>local_witness := Some 0\<rparr>) (\<lambda>_. saved_witness))) =
     finished (fst (recover_traced (new_Tracer\<lparr>tr_enabled := True\<rparr>) (\<lambda>_. 0) (\<lambda>_. 0) Delivered
        (sample_master\<lparr>local_witness := Some 0\<rparr>) (\<lambda>_. saved_witness))) +
     {#''CurpMaster.recover'', ''CurpMaster.do_sync''#}"
proof -
  let ?m = "sample_master\<lparr>local_witness := Some 0\<rparr>" and ?tr = "new_Tracer\<lparr>tr_enabled := True\<rparr>"
  have free: "\<not> curp_mtx ?m" using master_invD(1) [OF sample_master_inv] by simp
  have data: "witness_get_recovery_data ((\<lambda>_. saved_witness) (0 :: nat)) (node_name ?m)
      = ([new_WitnessRecord 1 7 ''a'' [5] 3], saved_witness\<lparr>w_accepting := False\<rparr>)"
    using saved_witness_data sample_name by (simp add: node_name_def)
  have "recover Delivered ?m (\<lambda>_. saved_witness) = Inl Deadlock"
    using recover_local [OF free _ data, where out = Delivered] replay_unsynced_empty [of "[new_WitnessRecord 1 7 ''a'' [5] 3]" ?m]
    by (simp add: is_executed_def sample_master_state del: fold_simps)
  then show ?thesis
    using recover_traced_spans [of ?tr ?m "\<lambda>_. 0" "\<lambda>_. 0" Delivered "\<lambda>_. saved_witness"] free by simp
qed

end
