(* ===== verification/Curp_Client.thy ===== *)
theory Curp_Client
  imports Curp_Master
begin

unbundle bit_operations_syntax

text \<open>
  The CURP client (\<^verbatim>\<open>include/curp/curp_client.h\<close>, \<^verbatim>\<open>src/curp/curp_client.cpp\<close>): request
  identifiers, the format of a saved request, and a write, which sends a request to the master and
  to every witness at once. The two asynchronous calls touch different objects, so their order does
  not matter; both are complete when the function returns. \<open>outs i\<close> is what happens to the call to the
  \<open>i\<close>th witness, \<open>h\<close> the heap of witnesses, \<open>clk\<close> the clock of the witnesses.
\<close>

section \<open>Data\<close>

record ProposeResponse =
  mr_success :: bool
  mr_fast_path :: bool
  mr_need_sync :: bool
  mr_result :: bytes
  mr_error :: string

record ReadResponse =
  rd_success :: bool
  rd_value :: bytes
  rd_error :: string

record CurpClientConfig =
  cf_master_addr :: string
  cf_witness_addrs :: "string list"
  cf_client_id :: u64
  cf_timeout_ms :: u64

record WriteResult =
  wres_success :: bool
  wres_fast_path :: bool
  wres_rtt_count :: int
  wres_error :: string

text \<open>\<open>cc_witnesses\<close> are the heap addresses of the witnesses the stubs are connected to.\<close>

record CurpClient =
  cc_config :: CurpClientConfig
  cc_next_rpc_id :: u64
  cc_witnesses :: "nat list"
  cc_total_writes :: u64
  cc_total_reads :: u64
  cc_total_fast_path :: u64
  cc_total_slow_path :: u64
  cc_total_failed :: u64

definition new_CurpClient :: "(string \<Rightarrow> nat) \<Rightarrow> CurpClientConfig \<Rightarrow> CurpClient" where
  "new_CurpClient connect config =
     \<lparr>cc_config = config, cc_next_rpc_id = 1, cc_witnesses = map connect (cf_witness_addrs config),
      cc_total_writes = 0, cc_total_reads = 0, cc_total_fast_path = 0, cc_total_slow_path = 0,
      cc_total_failed = 0\<rparr>"

section \<open>The master stub\<close>

definition CurpMasterClient_propose :: "CurpOp \<Rightarrow> ProposeResponse" where
  "CurpMasterClient_propose op =
     \<lparr>mr_success = True, mr_fast_path = True, mr_need_sync = False, mr_result = [], mr_error = []\<rparr>"

definition CurpMasterClient_read :: "string \<Rightarrow> ReadResponse" where
  "CurpMasterClient_read key = \<lparr>rd_success = True, rd_value = [], rd_error = []\<rparr>"

definition CurpMasterClient_sync :: "u64 \<Rightarrow> bool" where
  "CurpMasterClient_sync rpc_id = True"

section \<open>Operations\<close>

definition next_rpc_id :: "CurpClient \<Rightarrow> u64 \<times> CurpClient" where
  "next_rpc_id c =
     (push_bit 48 (cf_client_id (cc_config c)) OR cc_next_rpc_id c,
      c\<lparr>cc_next_rpc_id := cc_next_rpc_id c + 1\<rparr>)"

definition client_reset :: "CurpClient \<Rightarrow> CurpClient" where
  "client_reset c = c\<lparr>cc_next_rpc_id := 1\<rparr>"

primrec op_code :: "OpType \<Rightarrow> u8" where
  "op_code PUT = 0"
| "op_code GET = 1"
| "op_code DELETE_OP = 2"

definition key_bytes :: "string \<Rightarrow> bytes" where
  "key_bytes key = map (\<lambda>ch. word_of_nat (of_char ch)) key"

definition serialize_request :: "CurpOp \<Rightarrow> bytes" where
  "serialize_request op =
     (let key_len = (word_of_nat (length (op_key op)) :: u32);
          value_len = (word_of_nat (length (op_value op)) :: u32)
      in [op_code (op_type op)] @ le_bytes 4 (unat key_len) @ key_bytes (op_key op)
         @ le_bytes 4 (unat value_len) @ op_value op)"

text \<open>The loop over the witnesses from index \<open>i\<close> on.\<close>

fun record_loop ::
  "u64 \<Rightarrow> (nat \<Rightarrow> rpc_outcome) \<Rightarrow> u64 \<Rightarrow> u64 \<Rightarrow> string \<Rightarrow> bytes \<Rightarrow> nat \<Rightarrow> nat list \<Rightarrow> int \<Rightarrow> heap \<Rightarrow> int \<times> heap" where
  "record_loop clk outs cid rpc_id key data i [] accepted h = (accepted, h)"
| "record_loop clk outs cid rpc_id key data i (a # as) accepted h =
     (let (result, w) = WitnessClient_record (outs i) clk (h a) ''master'' rpc_id key data cid
      in record_loop clk outs cid rpc_id key data (Suc i) as
           (if result = ACCEPTED then accepted + 1 else accepted) (h(a := w)))"

definition record_to_witnesses ::
  "u64 \<Rightarrow> (nat \<Rightarrow> rpc_outcome) \<Rightarrow> CurpClient \<Rightarrow> u64 \<Rightarrow> string \<Rightarrow> bytes \<Rightarrow> heap \<Rightarrow> int \<times> heap" where
  "record_to_witnesses clk outs c rpc_id key data h =
     record_loop clk outs (cf_client_id (cc_config c)) rpc_id key data 0 (cc_witnesses c) 0 h"

definition send_sync_to_master :: "u64 \<Rightarrow> bool" where
  "send_sync_to_master rpc_id = CurpMasterClient_sync rpc_id"

text \<open>The decision of \<open>parallel_write\<close> from the master's answer and the number of witnesses that accepted.\<close>

definition decide_write :: "u64 \<Rightarrow> ProposeResponse \<Rightarrow> int \<Rightarrow> int \<Rightarrow> WriteResult" where
  "decide_write rpc_id master_resp witness_accepted witness_count =
     (let sync_ok = send_sync_to_master rpc_id;
          synced = \<lparr>wres_success = True, wres_fast_path = False, wres_rtt_count = 2, wres_error = []\<rparr>;
          sync_failed = \<lparr>wres_success = False, wres_fast_path = False, wres_rtt_count = 1,
                         wres_error = ''sync failed''\<rparr>
      in if \<not> mr_success master_resp then
           \<lparr>wres_success = False, wres_fast_path = False, wres_rtt_count = 1, wres_error = mr_error master_resp\<rparr>
         else if mr_need_sync master_resp then (if sync_ok then synced else sync_failed)
         else if witness_accepted = witness_count then
           \<lparr>wres_success = True, wres_fast_path = True, wres_rtt_count = 1, wres_error = []\<rparr>
         else if sync_ok then synced else sync_failed)"

definition parallel_write ::
  "u64 \<Rightarrow> (nat \<Rightarrow> rpc_outcome) \<Rightarrow> CurpClient \<Rightarrow> CurpOp \<Rightarrow> heap \<Rightarrow> WriteResult \<times> heap" where
  "parallel_write clk outs c op h =
     (let request_data = serialize_request op;
          master_resp = CurpMasterClient_propose op;
          (accepted, h') = record_to_witnesses clk outs c (op_rpc_id op) (op_key op) request_data h
      in (decide_write (op_rpc_id op) master_resp accepted (to_i32 (int (length (cc_witnesses c)))), h'))"

definition client_write ::
  "u64 \<Rightarrow> (nat \<Rightarrow> rpc_outcome) \<Rightarrow> CurpClient \<Rightarrow> string \<Rightarrow> bytes \<Rightarrow> heap \<Rightarrow> WriteResult \<times> CurpClient \<times> heap" where
  "client_write clk outs c0 key value h =
     (let (rpc_id, c) = next_rpc_id c0;
          op = \<lparr>op_rpc_id = rpc_id, op_client_id = cf_client_id (cc_config c), op_type = PUT,
                op_key = key, op_value = value\<rparr>;
          (result, h') = parallel_write clk outs c op h;
          c1 = c\<lparr>cc_total_writes := cc_total_writes c + 1\<rparr>;
          c2 = (if wres_success result then
                  if wres_fast_path result
                  then c1\<lparr>cc_total_fast_path := cc_total_fast_path c1 + 1\<rparr>
                  else c1\<lparr>cc_total_slow_path := cc_total_slow_path c1 + 1\<rparr>
                else c1\<lparr>cc_total_failed := cc_total_failed c1 + 1\<rparr>)
      in (result, c2, h'))"

definition client_delete ::
  "u64 \<Rightarrow> (nat \<Rightarrow> rpc_outcome) \<Rightarrow> CurpClient \<Rightarrow> string \<Rightarrow> heap \<Rightarrow> WriteResult \<times> CurpClient \<times> heap" where
  "client_delete clk outs c0 key h =
     (let (rpc_id, c) = next_rpc_id c0;
          op = \<lparr>op_rpc_id = rpc_id, op_client_id = cf_client_id (cc_config c), op_type = DELETE_OP,
                op_key = key, op_value = []\<rparr>;
          (result, h') = parallel_write clk outs c op h;
          c1 = c\<lparr>cc_total_writes := cc_total_writes c + 1\<rparr>;
          c2 = (if \<not> wres_success result then c1\<lparr>cc_total_failed := cc_total_failed c1 + 1\<rparr> else c1)
      in (result, c2, h'))"

definition client_read :: "CurpClient \<Rightarrow> string \<Rightarrow> ReadResponse \<times> CurpClient" where
  "client_read c key =
     (let c1 = c\<lparr>cc_total_reads := cc_total_reads c + 1\<rparr>; resp = CurpMasterClient_read key
      in (\<lparr>rd_success = rd_success resp, rd_value = rd_value resp, rd_error = rd_error resp\<rparr>, c1))"

section \<open>Identifiers\<close>

definition rpc_id_of :: "u64 \<Rightarrow> u64 \<Rightarrow> u64" where
  "rpc_id_of cid seq = (push_bit 48 cid OR seq)"

lemma rpc_id_parts:
  "take_bit 48 (rpc_id_of cid seq) = take_bit 48 seq"
  "drop_bit 48 (rpc_id_of cid seq) = (take_bit 16 cid OR drop_bit 48 seq)"
  by (rule bit_word_eqI, auto simp: rpc_id_of_def bit_simps)+

lemma word_parts_eq: "(x :: u64) = y \<longleftrightarrow> take_bit 48 x = take_bit 48 y \<and> drop_bit 48 x = drop_bit 48 y"
  by (metis bits_ident)

lemma rpc_id_eq_iff:
  "rpc_id_of c s = rpc_id_of c' s' \<longleftrightarrow> take_bit 48 s = take_bit 48 s'
     \<and> (take_bit 16 c OR drop_bit 48 s) = (take_bit 16 c' OR drop_bit 48 s')"
  by (simp add: word_parts_eq [of "rpc_id_of c s"] rpc_id_parts)

lemma small_bits: "unat (w :: u64) < 2 ^ n \<Longrightarrow> bit w k \<Longrightarrow> k < n"
proof (rule ccontr)
  assume a: "unat w < 2 ^ n" "bit w k" "\<not> k < n"
  have "2 ^ k \<le> unat w"
  proof -
    have "bit (unat w) k" using a(2) by (simp add: bit_unsigned_iff)
    then show ?thesis by (metis bit_iff_odd div_less even_zero not_le)
  qed
  moreover have "(2 :: nat) ^ n \<le> 2 ^ k" using a(3) by simp
  ultimately show False using a(1) by simp
qed

lemma small_seq:
  assumes "unat (s :: u64) < 2 ^ 48"
  shows "take_bit 48 s = s" and "drop_bit 48 s = 0"
  using small_bits [OF assms] by (intro bit_word_eqI; fastforce simp: bit_simps)+

section \<open>Recording a request on every witness\<close>

text \<open>What a witness keeps: recording never removes a request.\<close>

definition witness_grows :: "Witness \<Rightarrow> Witness \<Rightarrow> bool" where
  "witness_grows w w' \<longleftrightarrow> set (w_records w) \<subseteq> set (w_records w') \<and> w_rpc_ids w \<subseteq> w_rpc_ids w'
     \<and> (witness_inv w \<longrightarrow> witness_inv w')"

lemma grows_refl [simp]: "witness_grows w w"
  by (simp add: witness_grows_def)

lemma grows_trans: "witness_grows u v \<Longrightarrow> witness_grows v w \<Longrightarrow> witness_grows u w"
  by (auto simp: witness_grows_def)

lemma record_grows: "witness_record t w m i k d c = (res, w') \<Longrightarrow> witness_grows w w'"
  using witness_record_records(1,2) [of t w m i k d c res w'] witness_inv_record [of w t m i k d c]
  by (auto simp: witness_grows_def)

lemma stub_record_effect:
  assumes "WitnessClient_record out t w m i k d c = (res, w')"
  shows "witness_grows w w'" and "res = ACCEPTED \<Longrightarrow> witness_record t w m i k d c = (ACCEPTED, w')"
proof -
  obtain r v where rec: "witness_record t w m i k d c = (r, v)" by fastforce
  have out: "out = Delivered \<and> res = r \<and> w' = v \<or> res \<noteq> ACCEPTED \<and> (w' = w \<or> w' = v)"
    using assms rec remote_record_delivered [of t w m i k d c]
    by (cases out) (auto simp: WitnessClient_record_def svc_Record_def stub_defs)
  then show "witness_grows w w'" using record_grows [OF rec] by auto
  show "res = ACCEPTED \<Longrightarrow> witness_record t w m i k d c = (ACCEPTED, w')" using out rec by auto
qed

lemma accepted_kept:
  assumes "witness_record t w m i k d c = (ACCEPTED, w')"
  shows "i \<in> w_rpc_ids w'" and "i \<notin> w_rpc_ids w \<Longrightarrow> (k, new_WitnessRecord t i k d c) \<in> set (w_records w')"
  using witness_record_records [OF assms] by auto

definition saved_on :: "u64 \<Rightarrow> string \<Rightarrow> WitnessRecord \<Rightarrow> Witness \<Rightarrow> Witness \<Rightarrow> bool" where
  "saved_on i k r w w' \<longleftrightarrow> i \<in> w_rpc_ids w' \<and> (i \<notin> w_rpc_ids w \<longrightarrow> (k, r) \<in> set (w_records w'))"

lemma saved_on_grows: "saved_on i k r w w' \<Longrightarrow> witness_grows w' w'' \<Longrightarrow> saved_on i k r w w''"
  by (auto simp: saved_on_def witness_grows_def)

lemma record_loop_saves:
  "record_loop t outs cid i k d j as acc h = (n, h') \<Longrightarrow>
    n \<le> acc + int (length as) \<and> (\<forall>a. witness_grows (h a) (h' a))
  \<and> (n = acc + int (length as) \<longrightarrow>
       (\<forall>a \<in> set as. saved_on i k (new_WitnessRecord t i k d cid) (h a) (h' a)))"
proof (induction as arbitrary: j acc h)
  case (Cons a as)
  let ?r = "new_WitnessRecord t i k d cid"
  obtain res w where rec: "WitnessClient_record (outs j) t (h a) ''master'' i k d cid = (res, w)" by fastforce
  let ?acc = "if res = ACCEPTED then acc + 1 else acc" and ?h = "h(a := w)"
  note eff = stub_record_effect [OF rec]
  have run: "record_loop t outs cid i k d (Suc j) as ?acc ?h = (n, h')" using Cons.prems by (simp add: rec)
  have le: "n \<le> ?acc + int (length as)" and grow: "\<forall>b. witness_grows (?h b) (h' b)"
    and rest: "n = ?acc + int (length as) \<longrightarrow> (\<forall>b \<in> set as. saved_on i k ?r (?h b) (h' b))"
    using Cons.IH [OF run] by simp_all
  have "witness_grows (h b) (?h b)" for b using eff(1) by simp
  then have grows: "\<forall>b. witness_grows (h b) (h' b)" using grow grows_trans by blast
  have "\<forall>b \<in> set (a # as). saved_on i k ?r (h b) (h' b)" if all: "n = acc + int (length (a # as))"
  proof
    fix b assume b: "b \<in> set (a # as)"
    have acc: "res = ACCEPTED" and n: "n = ?acc + int (length as)" using le all by (auto split: if_splits)
    have "saved_on i k ?r (h a) w" using accepted_kept [OF eff(2) [OF acc]] by (simp add: saved_on_def)
    moreover have "witness_grows w (h' a)" using grow by (metis fun_upd_same)
    ultimately have "saved_on i k ?r (h a) (h' a)" by (rule saved_on_grows)
    with b rest n show "saved_on i k ?r (h b) (h' b)" by (cases "b = a") auto
  qed
  with le grows show ?case by (auto split: if_splits)
qed simp

lemma record_bound:
  "witness_record t w m i k d c = (res, w') \<Longrightarrow> w_master_id w \<noteq> [] \<Longrightarrow> w_master_id w' = w_master_id w"
  "witness_record t w m i k d c = (ACCEPTED, w') \<Longrightarrow> i \<notin> w_rpc_ids w \<Longrightarrow> w_master_id w' = m"
  by (auto simp: witness_record_def witness_reject_def split: if_splits)

lemma stub_record_bound:
  assumes "WitnessClient_record out t w m i k d c = (res, w')" and "w_master_id w \<noteq> []"
  shows "w_master_id w' = w_master_id w"
proof -
  obtain r v where rec: "witness_record t w m i k d c = (r, v)" by fastforce
  have "w' = w \<or> w' = v"
    using assms(1) rec remote_record_delivered [of t w m i k d c]
    by (cases out) (auto simp: WitnessClient_record_def svc_Record_def stub_defs)
  then show ?thesis using record_bound(1) [OF rec] assms(2) by auto
qed

text \<open>Once a client has had a new request accepted, the witness is bound to the name \<open>master\<close>.\<close>

lemma record_loop_bound:
  "record_loop t outs cid i k d j as acc h = (n, h') \<Longrightarrow>
    (\<forall>a. w_master_id (h a) \<noteq> [] \<longrightarrow> w_master_id (h' a) = w_master_id (h a))
  \<and> (n = acc + int (length as) \<longrightarrow>
       (\<forall>a \<in> set as. i \<notin> w_rpc_ids (h a) \<longrightarrow> w_master_id (h' a) = ''master''))"
proof (induction as arbitrary: j acc h)
  case (Cons a as)
  obtain res w where rec: "WitnessClient_record (outs j) t (h a) ''master'' i k d cid = (res, w)" by fastforce
  let ?acc = "if res = ACCEPTED then acc + 1 else acc" and ?h = "h(a := w)"
  have run: "record_loop t outs cid i k d (Suc j) as ?acc ?h = (n, h')" using Cons.prems by (simp add: rec)
  note IH = Cons.IH [OF run] and le = record_loop_saves [OF run]
  have keep: "\<forall>b. w_master_id (h b) \<noteq> [] \<longrightarrow> w_master_id (h' b) = w_master_id (h b)"
    using IH stub_record_bound [OF rec] by (metis fun_upd_apply)
  moreover have "w_master_id (h' b) = ''master''"
    if all: "n = acc + int (length (a # as))" and b: "b \<in> set (a # as)" and new: "i \<notin> w_rpc_ids (h b)" for b
  proof -
    have acc: "res = ACCEPTED" and n: "n = ?acc + int (length as)" using le all by (auto split: if_splits)
    show ?thesis
    proof (cases "b = a")
      case True
      then have "w_master_id w = ''master''"
        using record_bound(2) [OF stub_record_effect(2) [OF rec acc]] new by simp
      then show ?thesis using IH True by (metis fun_upd_same list.distinct(1))
    next
      case False
      with b n IH new show ?thesis by simp
    qed
  qed
  ultimately show ?case by blast
qed simp

text \<open>When a witness accepts a request, in terms of its state.\<close>

definition accepts :: "Witness \<Rightarrow> string \<Rightarrow> u64 \<Rightarrow> string \<Rightarrow> bool" where
  "accepts w m i k \<longleftrightarrow> w_accepting w \<and> (w_master_id w = [] \<or> w_master_id w = m)
     \<and> length (w_records w) < kMaxRecords \<and> (i \<in> w_rpc_ids w \<or> um_find (w_records w) k = None)"

lemma accepts_iff: "fst (witness_record t w m i k d c) = ACCEPTED \<longleftrightarrow> accepts w m i k"
  by (auto simp: witness_record_def witness_reject_def accepts_def)

lemma stub_record_exact:
  "WitnessClient_record out t w m i k d c =
     (if out = Delivered then fst (witness_record t w m i k d c) else REJECTED_STOPPED,
      if out = Lost then w else snd (witness_record t w m i k d c))"
  by (cases "out = Delivered") (simp_all add: remote_record_delivered remote_failed)

lemma record_loop_exact:
  "record_loop t outs cid i k d j as acc h = (n, h') \<Longrightarrow> distinct as \<Longrightarrow>
    n = acc + int (length (filter (\<lambda>q. outs (j + q) = Delivered \<and> accepts (h (as ! q)) ''master'' i k) [0..<length as]))
  \<and> (\<forall>q < length as. h' (as ! q) = (if outs (j + q) = Lost then h (as ! q)
       else snd (witness_record t (h (as ! q)) ''master'' i k d cid)))
  \<and> (\<forall>a. a \<notin> set as \<longrightarrow> h' a = h a)"
proof (induction as arbitrary: j acc h)
  case (Cons a as)
  let ?w = "if outs j = Lost then h a else snd (witness_record t (h a) ''master'' i k d cid)"
  let ?acc = "if outs j = Delivered \<and> accepts (h a) ''master'' i k then acc + 1 else acc" and ?h = "h(a := ?w)"
  let ?P = "\<lambda>q. outs (j + q) = Delivered \<and> accepts (h ((a # as) ! q)) ''master'' i k"
  have run: "record_loop t outs cid i k d (Suc j) as ?acc ?h = (n, h')"
    using Cons.prems(1) by (simp add: stub_record_exact accepts_iff split: if_splits)
  have other: "as ! q \<noteq> a" if "q < length as" for q using Cons.prems(2) nth_mem [OF that] by auto
  have idx: "[0..<length (a # as)] = 0 # map Suc [0..<length as]" by (simp add: map_Suc_upt upt_conv_Cons del: upt_Suc)
  note IH = Cons.IH [OF run] and d = Cons.prems(2)
  have "filter (\<lambda>q. outs (Suc j + q) = Delivered \<and> accepts (?h (as ! q)) ''master'' i k) [0..<length as]
      = filter (?P \<circ> Suc) [0..<length as]"
    by (rule filter_cong) (simp_all add: other)
  then have "n = acc + int (length (filter ?P [0..<length (a # as)]))"
    using IH d unfolding idx by (simp add: filter_map)
  moreover have "\<forall>q < length (a # as). h' ((a # as) ! q) = (if outs (j + q) = Lost then h ((a # as) ! q)
       else snd (witness_record t (h ((a # as) ! q)) ''master'' i k d cid))"
    using IH d by (auto simp: other less_Suc_eq_0_disj)
  moreover have "\<forall>b. b \<notin> set (a # as) \<longrightarrow> h' b = h b" using IH d by simp
  ultimately show ?case by blast
qed simp

lemma count_all: "length (filter P [0..<n]) = n \<longleftrightarrow> (\<forall>q < n. P q)"
proof
  assume "length (filter P [0..<n]) = n"
  then have "filter P [0..<n] = [0..<n]" using length_filter_less [of _ "[0..<n]" P] filter_id_conv by fastforce
  then show "\<forall>q < n. P q" using filter_id_conv [of P "[0..<n]"] by auto
next
  assume "\<forall>q < n. P q"
  then have "filter P [0..<n] = [0..<n]" by simp
  then show "length (filter P [0..<n]) = n" by simp
qed

text \<open>The result of a write from the number of witnesses its loop counted.\<close>

lemma write_result:
  assumes "client_write clk outs c key value h = (res, c', h')" and "length (cc_witnesses c) < 2 ^ 31"
  shows "\<exists>n. record_loop clk outs (cf_client_id (cc_config c)) (fst (next_rpc_id c)) key
      (serialize_request \<lparr>op_rpc_id = fst (next_rpc_id c), op_client_id = cf_client_id (cc_config c),
         op_type = PUT, op_key = key, op_value = value\<rparr>) 0 (cc_witnesses c) 0 h = (n, h')
    \<and> res = (if n = int (length (cc_witnesses c))
       then \<lparr>wres_success = True, wres_fast_path = True, wres_rtt_count = 1, wres_error = []\<rparr>
       else \<lparr>wres_success = True, wres_fast_path = False, wres_rtt_count = 2, wres_error = []\<rparr>)
    \<and> c' = c\<lparr>cc_next_rpc_id := cc_next_rpc_id c + 1, cc_total_writes := cc_total_writes c + 1,
        cc_total_fast_path := cc_total_fast_path c + of_bool (wres_fast_path res),
        cc_total_slow_path := cc_total_slow_path c + of_bool (\<not> wres_fast_path res)\<rparr>"
proof -
  obtain i where nxt: "next_rpc_id c = (i, c\<lparr>cc_next_rpc_id := cc_next_rpc_id c + 1\<rparr>)"
    by (simp add: next_rpc_id_def)
  let ?cid = "cf_client_id (cc_config c)"
  let ?op = "\<lparr>op_rpc_id = i, op_client_id = ?cid, op_type = PUT, op_key = key, op_value = value\<rparr>"
  obtain n h1 where loop: "record_loop clk outs ?cid i key (serialize_request ?op) 0 (cc_witnesses c) 0 h = (n, h1)"
    by fastforce
  have "to_i32 (int (length (cc_witnesses c))) = int (length (cc_witnesses c))"
    using assms(2) by (intro to_i32_id) simp_all
  then have dec: "decide_write i (CurpMasterClient_propose op) m (to_i32 (int (length (cc_witnesses c))))
      = (if m = int (length (cc_witnesses c))
       then \<lparr>wres_success = True, wres_fast_path = True, wres_rtt_count = 1, wres_error = []\<rparr>
       else \<lparr>wres_success = True, wres_fast_path = False, wres_rtt_count = 2, wres_error = []\<rparr>)" for op m
    by (simp add: decide_write_def CurpMasterClient_propose_def send_sync_to_master_def CurpMasterClient_sync_def)
  show ?thesis
    using assms(1) by (cases "n = int (length (cc_witnesses c))")
      (auto simp: client_write_def parallel_write_def record_to_witnesses_def nxt loop dec Let_def)
qed

lemma fast_path_loop:
  assumes "client_write clk outs c key value h = (res, c', h')" and "wres_fast_path res"
    and "length (cc_witnesses c) < 2 ^ 31"
  shows "\<exists>n. record_loop clk outs (cf_client_id (cc_config c)) (fst (next_rpc_id c)) key
      (serialize_request \<lparr>op_rpc_id = fst (next_rpc_id c), op_client_id = cf_client_id (cc_config c),
         op_type = PUT, op_key = key, op_value = value\<rparr>) 0 (cc_witnesses c) 0 h = (n, h')
    \<and> n = 0 + int (length (cc_witnesses c))"
  using write_result [OF assms(1,3)] assms(2) by (auto split: if_splits)

section \<open>The format of a saved request\<close>

lemma key_bytes_inj: "key_bytes k = key_bytes k' \<Longrightarrow> k = k'"
proof -
  have "inj (\<lambda>ch :: char. word_of_nat (of_char ch) :: u8)"
  proof (rule injI)
    fix x y :: char
    assume "(word_of_nat (of_char x) :: u8) = word_of_nat (of_char y)"
    then have "unat (word_of_nat (of_char x) :: u8) = unat (word_of_nat (of_char y) :: u8)" by simp
    moreover have "(of_char x :: nat) < 256" "(of_char y :: nat) < 256" by simp_all
    ultimately have "(of_char x :: nat) = of_char y" by (simp add: unat_of_nat)
    then show "x = y" by simp
  qed
  then show "key_bytes k = key_bytes k' \<Longrightarrow> k = k'"
    by (simp add: key_bytes_def inj_map_eq_map)
qed

lemma length_field: "n < 2 ^ 32 \<Longrightarrow> le_val (le_bytes 4 (unat (word_of_nat n :: u32))) = n"
  by (simp add: unat_of_nat le_val_le_bytes)

section \<open>A sample client\<close>

definition sample_client :: "u64 \<Rightarrow> CurpClient" where
  "sample_client cid = new_CurpClient (\<lambda>addr. length addr)
     \<lparr>cf_master_addr = ''m'', cf_witness_addrs = [''w'', ''ww''], cf_client_id = cid, cf_timeout_ms = 5000\<rparr>"

lemma sample_write:
  "\<exists>res c' h'. client_write 1 (\<lambda>_. Delivered) (sample_client 3) ''k'' [1] (\<lambda>_. new_Witness []) = (res, c', h')
    \<and> wres_fast_path res"
proof -
  have cw: "cc_witnesses (sample_client 3) = [1, 2]" by (simp add: sample_client_def new_CurpClient_def)
  have "wres_fast_path (fst (client_write 1 (\<lambda>_. Delivered) (sample_client 3) ''k'' [1] (\<lambda>_. new_Witness [])))"
    by (simp add: client_write_def parallel_write_def record_to_witnesses_def Let_def next_rpc_id_def cw
        remote_record_delivered witness_record_def new_Witness_def kMaxRecords_def split_beta
        decide_write_def CurpMasterClient_propose_def to_i32_def)
  then show ?thesis by (metis fst_conv prod.exhaust)
qed

section \<open>Properties\<close>

text \<open>
  C32. When two request identifiers are equal, for all client identifiers and positions: the low 48
  bits of the positions agree, and so do the bits above them, where the low 16 bits of the client
  identifier and the rest of the position are mixed. As long as clients have issued fewer than \<open>2 ^ 48\<close> requests
  this means the same position and client identifiers that agree modulo \<open>2 ^ 16\<close>: identifiers are unique
  among clients whose identifiers fit in 16 bits, and clients 1 and 65537 issue the same ones.
\<close>

theorem rpc_ids_equal_iff:
  "(fst (next_rpc_id c) = fst (next_rpc_id c') \<longleftrightarrow>
      take_bit 48 (cc_next_rpc_id c) = take_bit 48 (cc_next_rpc_id c')
    \<and> (take_bit 16 (cf_client_id (cc_config c)) OR drop_bit 48 (cc_next_rpc_id c))
      = (take_bit 16 (cf_client_id (cc_config c')) OR drop_bit 48 (cc_next_rpc_id c')))
   \<and> (unat (cc_next_rpc_id c) < 2 ^ 48 \<and> unat (cc_next_rpc_id c') < 2 ^ 48 \<longrightarrow>
      (fst (next_rpc_id c) = fst (next_rpc_id c') \<longleftrightarrow> cc_next_rpc_id c = cc_next_rpc_id c'
        \<and> unat (cf_client_id (cc_config c)) mod 2 ^ 16 = unat (cf_client_id (cc_config c')) mod 2 ^ 16))"
proof -
  have id: "fst (next_rpc_id c) = rpc_id_of (cf_client_id (cc_config c)) (cc_next_rpc_id c)" for c
    by (simp add: next_rpc_id_def rpc_id_of_def)
  have low: "take_bit 16 x = take_bit 16 y \<longleftrightarrow> unat x mod 2 ^ 16 = unat y mod 2 ^ 16" for x y :: u64
    using word_unat_eq_iff [of "take_bit 16 x" "take_bit 16 y"] unfolding unsigned_take_bit_eq
    by (simp add: take_bit_eq_mod)
  show ?thesis
    using small_seq [of "cc_next_rpc_id c"] small_seq [of "cc_next_rpc_id c'"]
    by (auto simp: id rpc_id_eq_iff low)
qed

theorem rpc_ids_equal_iff_witness:
  "fst (next_rpc_id (sample_client 3)) \<noteq> fst (next_rpc_id (sample_client 4))
   \<and> fst (next_rpc_id (sample_client 1)) = fst (next_rpc_id (sample_client 65537))"
  using rpc_ids_equal_iff [of "sample_client 3" "sample_client 4"]
    rpc_ids_equal_iff [of "sample_client 1" "sample_client 65537"]
  by (simp add: sample_client_def new_CurpClient_def)

text \<open>
  C1. A fast-path write is durable: when \<open>write\<close> reports the fast path, every witness of the client holds
  the request's identifier afterwards, and a witness that did not know the identifier before holds the
  request itself, with its key and its serialised form; no request saved earlier is lost.
\<close>

theorem fast_path_durable:
  assumes "client_write clk outs c key value h = (res, c', h')" and "wres_fast_path res"
    and "length (cc_witnesses c) < 2 ^ 31"
  shows "(\<forall>a. witness_grows (h a) (h' a))
    \<and> (\<forall>a \<in> set (cc_witnesses c). fst (next_rpc_id c) \<in> w_rpc_ids (h' a)
      \<and> (fst (next_rpc_id c) \<notin> w_rpc_ids (h a) \<longrightarrow>
           (key, new_WitnessRecord clk (fst (next_rpc_id c)) key
              (serialize_request \<lparr>op_rpc_id = fst (next_rpc_id c), op_client_id = cf_client_id (cc_config c),
                 op_type = PUT, op_key = key, op_value = value\<rparr>) (cf_client_id (cc_config c)))
             \<in> set (w_records (h' a))))"
proof -
  let ?i = "fst (next_rpc_id c)" and ?cid = "cf_client_id (cc_config c)"
  let ?op = "\<lparr>op_rpc_id = ?i, op_client_id = ?cid, op_type = PUT, op_key = key, op_value = value\<rparr>"
  obtain n where loop: "record_loop clk outs ?cid ?i key (serialize_request ?op) 0 (cc_witnesses c) 0 h = (n, h')"
      and "n = 0 + int (length (cc_witnesses c))"
    using fast_path_loop [OF assms] by blast
  with record_loop_saves [OF loop] show ?thesis by (auto simp: saved_on_def)
qed

theorem fast_path_durable_witness:
  "\<exists>res c' h'. client_write 1 (\<lambda>_. Delivered) (sample_client 3) ''k'' [1] (\<lambda>_. new_Witness []) = (res, c', h')
    \<and> wres_fast_path res \<and> fst (next_rpc_id (sample_client 3)) \<in> w_rpc_ids (h' 1)
    \<and> fst (next_rpc_id (sample_client 3)) \<in> w_rpc_ids (h' 2)"
proof -
  have cw: "cc_witnesses (sample_client 3) = [1, 2]" by (simp add: sample_client_def new_CurpClient_def)
  obtain res c' h' where run: "client_write 1 (\<lambda>_. Delivered) (sample_client 3) ''k'' [1] (\<lambda>_. new_Witness []) = (res, c', h')"
      and "wres_fast_path res"
    using sample_write by blast
  from fast_path_durable [OF run this(2)] run this cw show ?thesis by simp
qed

text \<open>
  C33. Saved requests can be told apart: two operations with the same serialised form have the same
  type, key and value, as long as key and value are shorter than \<open>2 ^ 32\<close> bytes.
\<close>

theorem serialize_request_injective:
  assumes "serialize_request op = serialize_request op'"
    and "length (op_key op) < 2 ^ 32" "length (op_value op) < 2 ^ 32"
    and "length (op_key op') < 2 ^ 32" "length (op_value op') < 2 ^ 32"
  shows "op_type op = op_type op' \<and> op_key op = op_key op' \<and> op_value op = op_value op'"
proof -
  let ?n = "\<lambda>xs. le_bytes 4 (unat (word_of_nat (length xs) :: u32))"
  have code: "op_code (op_type op) = op_code (op_type op')"
    and rest: "?n (op_key op) @ key_bytes (op_key op) @ ?n (op_value op) @ op_value op
      = ?n (op_key op') @ key_bytes (op_key op') @ ?n (op_value op') @ op_value op'"
    using assms(1) by (simp_all add: serialize_request_def Let_def)
  have type: "op_type op = op_type op'"
    using code by (cases "op_type op"; cases "op_type op'") simp_all
  from rest have len: "?n (op_key op) = ?n (op_key op')"
    and rest2: "key_bytes (op_key op) @ ?n (op_value op) @ op_value op
      = key_bytes (op_key op') @ ?n (op_value op') @ op_value op'"
    by (simp_all add: append_eq_append_conv)
  have "length (op_key op) = length (op_key op')"
    using arg_cong [OF len, of le_val] length_field [OF assms(2)] length_field [OF assms(4)] by simp
  then have keys: "key_bytes (op_key op) = key_bytes (op_key op')"
    and rest3: "?n (op_value op) @ op_value op = ?n (op_value op') @ op_value op'"
    using rest2 by (simp_all add: append_eq_append_conv key_bytes_def)
  have "op_value op = op_value op'" using rest3 by (simp add: append_eq_append_conv)
  with type key_bytes_inj [OF keys] show ?thesis by simp
qed

theorem serialize_request_injective_witness:
  "serialize_request (sample_op 7 ''k'') \<noteq> serialize_request (sample_op 7 ''l'')"
proof
  assume eq: "serialize_request (sample_op 7 ''k'') = serialize_request (sample_op 7 ''l'')"
  have "op_key (sample_op 7 ''k'') = op_key (sample_op 7 ''l'')"
    using serialize_request_injective [OF eq] by (simp add: sample_op_def)
  then show False by (simp add: sample_op_def)
qed

text \<open>
  C36. A write of a client whose witnesses are different, in terms of what the witnesses are like before it. Every
  witness whose call is not lost handles the request, and no other witness changes. The result is always
  success: on the fast path, with one round trip, exactly when every call completes and every witness
  accepts, which is when it is accepting, bound to no other master, not full, and knows the identifier
  or has no request on the key; otherwise with two round trips. The counters follow the result.
\<close>

theorem client_write_exact:
  assumes "client_write clk outs c key value h = (res, c', h')"
    and "distinct (cc_witnesses c)" and "length (cc_witnesses c) < 2 ^ 31"
  defines "i \<equiv> fst (next_rpc_id c)" and "cid \<equiv> cf_client_id (cc_config c)" and "ws \<equiv> cc_witnesses c"
  defines "d \<equiv> serialize_request \<lparr>op_rpc_id = i, op_client_id = cid, op_type = PUT, op_key = key, op_value = value\<rparr>"
  shows "(wres_fast_path res \<longleftrightarrow> (\<forall>j < length ws. outs j = Delivered \<and> accepts (h (ws ! j)) ''master'' i key))
    \<and> wres_success res \<and> wres_error res = [] \<and> wres_rtt_count res = (if wres_fast_path res then 1 else 2)
    \<and> (\<forall>j < length ws. h' (ws ! j) = (if outs j = Lost then h (ws ! j)
          else snd (witness_record clk (h (ws ! j)) ''master'' i key d cid)))
    \<and> (\<forall>a. a \<notin> set ws \<longrightarrow> h' a = h a)
    \<and> c' = c\<lparr>cc_next_rpc_id := cc_next_rpc_id c + 1, cc_total_writes := cc_total_writes c + 1,
        cc_total_fast_path := cc_total_fast_path c + of_bool (wres_fast_path res),
        cc_total_slow_path := cc_total_slow_path c + of_bool (\<not> wres_fast_path res)\<rparr>"
proof -
  obtain n where loop: "record_loop clk outs cid i key d 0 ws 0 h = (n, h')"
      and res: "res = (if n = int (length ws)
        then \<lparr>wres_success = True, wres_fast_path = True, wres_rtt_count = 1, wres_error = []\<rparr>
        else \<lparr>wres_success = True, wres_fast_path = False, wres_rtt_count = 2, wres_error = []\<rparr>)"
      and c': "c' = c\<lparr>cc_next_rpc_id := cc_next_rpc_id c + 1, cc_total_writes := cc_total_writes c + 1,
        cc_total_fast_path := cc_total_fast_path c + of_bool (wres_fast_path res),
        cc_total_slow_path := cc_total_slow_path c + of_bool (\<not> wres_fast_path res)\<rparr>"
    using write_result [OF assms(1,3)] unfolding i_def cid_def ws_def d_def by blast
  have exact: "n = int (length (filter (\<lambda>j. outs j = Delivered \<and> accepts (h (ws ! j)) ''master'' i key) [0..<length ws]))"
      "\<forall>j < length ws. h' (ws ! j) = (if outs j = Lost then h (ws ! j)
          else snd (witness_record clk (h (ws ! j)) ''master'' i key d cid))" "\<forall>a. a \<notin> set ws \<longrightarrow> h' a = h a"
    using record_loop_exact [OF loop assms(2) [folded ws_def]] by simp_all
  have "n = int (length ws) \<longleftrightarrow> (\<forall>j < length ws. outs j = Delivered \<and> accepts (h (ws ! j)) ''master'' i key)"
    using exact(1) count_all by simp
  with exact(2,3) res c' show ?thesis by simp
qed

theorem client_write_exact_witness:
  "\<exists>res c' h'. client_write 1 (\<lambda>j. if j = 1 then ReplyLost else Delivered) (sample_client 3) ''k'' [1]
      (\<lambda>_. new_Witness []) = (res, c', h')
    \<and> wres_success res \<and> \<not> wres_fast_path res \<and> wres_rtt_count res = 2 \<and> cc_total_slow_path c' = 1"
proof -
  let ?outs = "\<lambda>j :: nat. if j = 1 then ReplyLost else Delivered"
  obtain res c' h' where run:
    "client_write 1 ?outs (sample_client 3) ''k'' [1] (\<lambda>_. new_Witness []) = (res, c', h')"
    using prod_cases3 by blast
  have cw: "cc_witnesses (sample_client 3) = [1, 2]" "cc_total_slow_path (sample_client 3) = 0"
    by (simp_all add: sample_client_def new_CurpClient_def)
  have "\<not> wres_fast_path res" "wres_success res" "wres_rtt_count res = (if wres_fast_path res then 1 else 2)"
    "cc_total_slow_path c' = of_bool (\<not> wres_fast_path res)"
    using client_write_exact [OF run] cw by auto
  with run show ?thesis by auto
qed

text \<open>
  After \<open>reset\<close> a client issues the identifiers of its first requests again, which masters and
  witnesses then take for retransmissions.
\<close>

theorem client_reset_repeats_ids:
  "fst (next_rpc_id (client_reset (snd (next_rpc_id (new_CurpClient connect config)))))
     = fst (next_rpc_id (new_CurpClient connect config))"
  by (simp add: next_rpc_id_def client_reset_def new_CurpClient_def)

end
