(* ===== verification/Client_Trace.thy ===== *)
theory Client_Trace
  imports Curp_Client Witness_Trace
begin

text \<open>
  The operations of the CURP client with their tracing spans (\<^verbatim>\<open>src/curp/curp_client.cpp\<close>). A write runs two
  asynchronous tasks with spans of their own, so their messages reach the logger in any order that
  keeps the order of each task: a schedule \<open>sched\<close> says whose message comes next. Readings of the
  steady clock are the values of \<open>t\<close>, numbered by the place in the function. The witnesses log in their
  own processes.
\<close>

section \<open>Interleaved logs and nested spans\<close>

fun merge_logs :: "bool list \<Rightarrow> 'a list \<Rightarrow> 'a list \<Rightarrow> 'a list" where
  "merge_logs bs [] ys = ys"
| "merge_logs bs (x # xs) [] = x # xs"
| "merge_logs [] (x # xs) (y # ys) = x # merge_logs [] xs (y # ys)"
| "merge_logs (b # bs) (x # xs) (y # ys) =
     (if b then x # merge_logs bs xs (y # ys) else y # merge_logs bs (x # xs) ys)"

text \<open>
  A function whose span lives around other messages: calls on the span, then the rest of the log up to the
  end of the function, which is made of the messages of the last calls and those of others.
\<close>

definition span_nest ::
  "Tracer \<Rightarrow> int \<Rightarrow> int \<Rightarrow> string \<Rightarrow> SpanKind \<Rightarrow> span_call list \<Rightarrow> (trace_msg list \<Rightarrow> trace_msg list)
    \<Rightarrow> span_call list \<Rightarrow> trace_msg list" where
  "span_nest tr t0 t1 name kind pre around post =
     (let (s, ms) = Tracer_start_span tr t0 name kind;
          (s1, ms1) = span_calls pre s;
          (s2, ms2) = span_calls post s1
      in ms @ ms1 @ around ms2 @ Span_destroy t1 s2)"

section \<open>The operations\<close>

definition client_init_traced ::
  "Tracer \<Rightarrow> (nat \<Rightarrow> int) \<Rightarrow> (string \<Rightarrow> nat) \<Rightarrow> CurpClientConfig \<Rightarrow> trace_msg list \<times> CurpClient" where
  "client_init_traced tr t connect config =
     (let c = new_CurpClient connect config in
      (span_block tr (t 0) (t 1) ''CurpClient.init'' INTERNAL
         [SetAttribute ''client_id'' (i64_of (cf_client_id config)),
          SetAttribute ''master_addr'' (StdString (cf_master_addr config)),
          SetAttribute ''witness_count'' (i64_size (cc_witnesses c)), SetOk], c))"

definition send_sync_traced :: "Tracer \<Rightarrow> int \<Rightarrow> int \<Rightarrow> u64 \<Rightarrow> trace_msg list \<times> bool" where
  "send_sync_traced tr t0 t1 rpc_id =
     (let result = CurpMasterClient_sync rpc_id in
      (span_block tr t0 t1 ''CurpClient.send_sync'' CLIENT
         ([SetAttribute ''rpc_id'' (i64_of rpc_id), SetAttribute ''success'' (Bool result)] @
          (if result then [SetOk] else [SetError ''sync request failed''])), result))"

text \<open>The two tasks of \<open>parallel_write\<close>.\<close>

definition master_task :: "Tracer \<Rightarrow> int \<Rightarrow> int \<Rightarrow> CurpClient \<Rightarrow> CurpOp \<Rightarrow> trace_msg list \<times> ProposeResponse" where
  "master_task tr t0 t1 c op =
     (let resp = CurpMasterClient_propose op in
      (span_block tr t0 t1 ''CurpClient.master_propose'' CLIENT
         ([SetAttribute ''rpc_id'' (i64_of (op_rpc_id op)),
           SetAttribute ''target'' (StdString (cf_master_addr (cc_config c))),
           SetAttribute ''success'' (Bool (mr_success resp)), SetAttribute ''fast_path'' (Bool (mr_fast_path resp)),
           SetAttribute ''need_sync'' (Bool (mr_need_sync resp))] @
          (if mr_success resp then [SetOk] else [SetError (mr_error resp)])), resp))"

definition witness_task ::
  "Tracer \<Rightarrow> int \<Rightarrow> int \<Rightarrow> u64 \<Rightarrow> (nat \<Rightarrow> rpc_outcome) \<Rightarrow> CurpClient \<Rightarrow> CurpOp \<Rightarrow> bytes \<Rightarrow> heap
    \<Rightarrow> trace_msg list \<times> int \<times> heap" where
  "witness_task tr t0 t1 clk outs c op request_data h =
     (let (accepted, h') = record_to_witnesses clk outs c (op_rpc_id op) (op_key op) request_data h in
      (span_block tr t0 t1 ''CurpClient.witness_record'' CLIENT
         [SetAttribute ''rpc_id'' (i64_of (op_rpc_id op)), SetAttribute ''witness_count'' (i64_size (cc_witnesses c)),
          SetAttribute ''accepted'' (Int64 accepted),
          SetAttribute ''all_accepted'' (Bool (accepted = to_i32 (int (length (cc_witnesses c))))), SetOk],
       accepted, h'))"

text \<open>
  \<open>parallel_write\<close>. On the paths that return before the witness task has been waited for, the task runs on
  until its future is destroyed, just before the span of the function.
\<close>

definition parallel_write_traced ::
  "Tracer \<Rightarrow> (nat \<Rightarrow> int) \<Rightarrow> bool list \<Rightarrow> u64 \<Rightarrow> (nat \<Rightarrow> rpc_outcome) \<Rightarrow> CurpClient \<Rightarrow> CurpOp \<Rightarrow> heap
    \<Rightarrow> trace_msg list \<times> WriteResult \<times> heap" where
  "parallel_write_traced tr t sched clk outs c op h =
     (let pre = [SetAttribute ''rpc_id'' (i64_of (op_rpc_id op)), SetAttribute ''key'' (StdString (op_key op))];
          request_data = serialize_request op;
          (ms_m, master_resp) = master_task tr (t 1) (t 2) c op;
          (ms_w, witness_accepted, h') = witness_task tr (t 3) (t 4) clk outs c op request_data h;
          witness_count = to_i32 (int (length (cc_witnesses c)));
          (ms_s, sync_ok) = send_sync_traced tr (t 5) (t 6) (op_rpc_id op);
          nest = span_nest tr (t 0) (t 7) ''CurpClient.parallel_write'' INTERNAL pre
      in
      if \<not> mr_success master_resp then
        (nest (\<lambda>post. merge_logs sched (ms_m @ post) ms_w)
           [SetAttribute ''result'' (Literal ''MASTER_REJECTED''),
            SetAttribute ''error'' (StdString (mr_error master_resp)), SetError (mr_error master_resp)],
         \<lparr>wres_success = False, wres_fast_path = False, wres_rtt_count = 1, wres_error = mr_error master_resp\<rparr>, h')
      else if mr_need_sync master_resp then
        if sync_ok then
          (nest (\<lambda>post. merge_logs sched (ms_m @ ms_s @ post) ms_w)
             [SetAttribute ''result'' (Literal ''SYNC_SUCCESS''), SetAttribute ''rtt_count'' (Int64 2), SetOk],
           \<lparr>wres_success = True, wres_fast_path = False, wres_rtt_count = 2, wres_error = []\<rparr>, h')
        else
          (nest (\<lambda>post. merge_logs sched (ms_m @ ms_s @ post) ms_w)
             [SetAttribute ''result'' (Literal ''SYNC_FAILED''), SetError ''sync failed''],
           \<lparr>wres_success = False, wres_fast_path = False, wres_rtt_count = 1, wres_error = ''sync failed''\<rparr>, h')
      else if witness_accepted = witness_count then
        (nest (\<lambda>post. merge_logs sched ms_m ms_w @ post)
           [SetAttribute ''result'' (Literal ''FAST_PATH''), SetAttribute ''witness_accepted'' (Int64 witness_accepted),
            SetAttribute ''rtt_count'' (Int64 1), SetOk],
         \<lparr>wres_success = True, wres_fast_path = True, wres_rtt_count = 1, wres_error = []\<rparr>, h')
      else if sync_ok then
        (nest (\<lambda>post. merge_logs sched ms_m ms_w @ ms_s @ post)
           [SetAttribute ''result'' (Literal ''SYNC_AFTER_PARTIAL_WITNESS''),
            SetAttribute ''witness_accepted'' (Int64 witness_accepted), SetAttribute ''rtt_count'' (Int64 2), SetOk],
         \<lparr>wres_success = True, wres_fast_path = False, wres_rtt_count = 2, wres_error = []\<rparr>, h')
      else
        (nest (\<lambda>post. merge_logs sched ms_m ms_w @ ms_s @ post)
           [SetAttribute ''result'' (Literal ''SYNC_FAILED''), SetError ''sync failed after partial witness''],
         \<lparr>wres_success = False, wres_fast_path = False, wres_rtt_count = 1, wres_error = ''sync failed''\<rparr>, h'))"

definition client_write_traced ::
  "Tracer \<Rightarrow> (nat \<Rightarrow> int) \<Rightarrow> (nat \<Rightarrow> int) \<Rightarrow> bool list \<Rightarrow> u64 \<Rightarrow> (nat \<Rightarrow> rpc_outcome) \<Rightarrow> CurpClient \<Rightarrow> string \<Rightarrow> bytes
    \<Rightarrow> heap \<Rightarrow> trace_msg list \<times> WriteResult \<times> CurpClient \<times> heap" where
  "client_write_traced tr t ts sched clk outs c0 key value h =
     (let (rpc_id, c) = next_rpc_id c0;
          op = \<lparr>op_rpc_id = rpc_id, op_client_id = cf_client_id (cc_config c), op_type = PUT,
                op_key = key, op_value = value\<rparr>;
          (ms, result, h') = parallel_write_traced tr ts sched clk outs c op h;
          latency = SetAttribute ''latency_ms'' (Int64 ((t 2 - t 1) sdiv 1000000));
          c1 = c\<lparr>cc_total_writes := cc_total_writes c + 1\<rparr>;
          c2 = (if wres_success result then
                  if wres_fast_path result
                  then c1\<lparr>cc_total_fast_path := cc_total_fast_path c1 + 1\<rparr>
                  else c1\<lparr>cc_total_slow_path := cc_total_slow_path c1 + 1\<rparr>
                else c1\<lparr>cc_total_failed := cc_total_failed c1 + 1\<rparr>)
      in (span_nest tr (t 0) (t 3) ''CurpClient.write'' CLIENT
            [SetAttribute ''key'' (StdString key), SetAttribute ''value_size'' (i64_size value),
             SetAttribute ''rpc_id'' (i64_of rpc_id), SetAttribute ''client_id'' (i64_of (op_client_id op))]
            (\<lambda>post. ms @ post)
            (if wres_success result then
               [SetAttribute ''result'' (Literal ''SUCCESS''), SetAttribute ''fast_path'' (Bool (wres_fast_path result)),
                SetAttribute ''rtt_count'' (Int64 (wres_rtt_count result)), latency, SetOk]
             else
               [SetAttribute ''result'' (Literal ''FAILED''), SetAttribute ''error'' (StdString (wres_error result)),
                latency, SetError (wres_error result)]),
          result, c2, h'))"

definition client_delete_traced ::
  "Tracer \<Rightarrow> (nat \<Rightarrow> int) \<Rightarrow> (nat \<Rightarrow> int) \<Rightarrow> bool list \<Rightarrow> u64 \<Rightarrow> (nat \<Rightarrow> rpc_outcome) \<Rightarrow> CurpClient \<Rightarrow> string
    \<Rightarrow> heap \<Rightarrow> trace_msg list \<times> WriteResult \<times> CurpClient \<times> heap" where
  "client_delete_traced tr t ts sched clk outs c0 key h =
     (let (rpc_id, c) = next_rpc_id c0;
          op = \<lparr>op_rpc_id = rpc_id, op_client_id = cf_client_id (cc_config c), op_type = DELETE_OP,
                op_key = key, op_value = []\<rparr>;
          (ms, result, h') = parallel_write_traced tr ts sched clk outs c op h;
          c1 = c\<lparr>cc_total_writes := cc_total_writes c + 1\<rparr>;
          c2 = (if \<not> wres_success result then c1\<lparr>cc_total_failed := cc_total_failed c1 + 1\<rparr> else c1)
      in (span_nest tr (t 0) (t 3) ''CurpClient.delete'' CLIENT
            [SetAttribute ''key'' (StdString key), SetAttribute ''rpc_id'' (i64_of rpc_id)]
            (\<lambda>post. ms @ post)
            ([SetAttribute ''success'' (Bool (wres_success result)),
              SetAttribute ''latency_ms'' (Int64 ((t 2 - t 1) sdiv 1000000))] @
             (if wres_success result then [SetOk] else [SetError (wres_error result)])),
          result, c2, h'))"

definition client_read_traced ::
  "Tracer \<Rightarrow> (nat \<Rightarrow> int) \<Rightarrow> CurpClient \<Rightarrow> string \<Rightarrow> trace_msg list \<times> ReadResponse \<times> CurpClient" where
  "client_read_traced tr t c key =
     (let c1 = c\<lparr>cc_total_reads := cc_total_reads c + 1\<rparr>;
          resp = CurpMasterClient_read key;
          latency = SetAttribute ''latency_ms'' (Int64 ((t 2 - t 1) sdiv 1000000))
      in (span_block tr (t 0) (t 3) ''CurpClient.read'' CLIENT
            (SetAttribute ''key'' (StdString key) #
             (if rd_success resp then
                [SetAttribute ''result'' (Literal ''SUCCESS''), SetAttribute ''value_size'' (i64_size (rd_value resp)),
                 latency, SetOk]
              else
                [SetAttribute ''result'' (Literal ''FAILED''), SetAttribute ''error'' (StdString (rd_error resp)),
                 latency, SetError (rd_error resp)])),
          \<lparr>rd_success = rd_success resp, rd_value = rd_value resp, rd_error = rd_error resp\<rparr>, c1))"

section \<open>Lemmas\<close>

text \<open>The schedules give exactly the interleavings of two logs.\<close>

lemma merge_shuffles: "merge_logs bs xs ys \<in> shuffles xs ys"
  by (induction bs xs ys rule: merge_logs.induct) (auto simp: Cons_in_shuffles_iff)

lemma shuffles_merge: "zs \<in> shuffles xs ys \<Longrightarrow> \<exists>bs. merge_logs bs xs ys = zs"
proof (induction zs arbitrary: xs ys)
  case (Cons z zs)
  then consider xs' where "xs = z # xs'" "zs \<in> shuffles xs' ys" | ys' where "ys = z # ys'" "zs \<in> shuffles xs ys'"
    by (auto simp: Cons_in_shuffles_iff neq_Nil_conv)
  then show ?case
  proof cases
    case 1
    then obtain bs where "merge_logs bs xs' ys = zs" using Cons.IH by blast
    with 1 show ?thesis by (cases ys) (auto intro: exI [of _ "True # bs"])
  next
    case 2
    then obtain bs where "merge_logs bs xs ys' = zs" using Cons.IH by blast
    with 2 show ?thesis by (cases xs) (auto intro: exI [of _ "False # bs"])
  qed
qed simp

lemma merge_messages [simp]:
  "started (merge_logs bs xs ys) = started xs + started ys" "finished (merge_logs bs xs ys) = finished xs + finished ys"
  by (induction bs xs ys rule: merge_logs.induct) (auto simp: ac_simps)

lemma span_nest_balanced:
  assumes "\<And>ms. started ms = {#} \<Longrightarrow> finished ms = {#} \<Longrightarrow> started (around ms) = finished (around ms)"
  shows "started (span_nest tr t0 t1 name kind pre around post) = finished (span_nest tr t0 t1 name kind pre around post)"
proof -
  obtain s ms where s: "Tracer_start_span tr t0 name kind = (s, ms)" by fastforce
  obtain s1 ms1 where c1: "span_calls pre s = (s1, ms1)" by fastforce
  obtain s2 ms2 where c2: "span_calls post s1 = (s2, ms2)" by fastforce
  note k1 = span_calls_keep [OF c1] and k2 = span_calls_keep [OF c2]
  have "open_name (Some s2) = open_name (Some s)" using k1 k2 by (simp add: open_name_def is_open_def)
  moreover have "span_nest tr t0 t1 name kind pre around post = ms @ ms1 @ around ms2 @ Span_destroy t1 s2"
    by (simp add: span_nest_def s c1 c2)
  ultimately show ?thesis using assms [of ms2] k1 k2 by (simp add: new_Span_msgs [OF s] Span_destroy_msgs)
qed

lemma span_nest_last:
  assumes "tr_enabled tr"
  shows "last (span_nest tr t0 t1 name kind pre around post) =
    SpanEnd name ((t1 - t0) sdiv 1000000) (status_after (pre @ post) ''ok'')"
proof -
  obtain s ms where start: "Tracer_start_span tr t0 name kind = (s, ms)" by fastforce
  obtain s1 ms1 where c1: "span_calls pre s = (s1, ms1)" by fastforce
  obtain s2 ms2 where c2: "span_calls post s1 = (s2, ms2)" by fastforce
  have s: "s = \<lparr>sp_valid = True, sp_ended = False, sp_name = name, sp_status = ''ok'', sp_start_time = t0\<rparr>"
    using assms start by (simp add: Tracer_start_span_def new_Span_def Tracer_is_enabled_def Let_def)
  have "s2 = s\<lparr>sp_status := status_after (pre @ post) ''ok''\<rparr>"
    using span_calls_keep [OF c1] span_calls_keep [OF c2] by (simp add: s status_after_append)
  then have "Span_destroy t1 s2 = [SpanEnd name ((t1 - t0) sdiv 1000000) (status_after (pre @ post) ''ok'')]"
    by (simp add: s Span_destroy_def Span_end_def Span_duration_ms_def)
  moreover have "span_nest tr t0 t1 name kind pre around post = ms @ ms1 @ around ms2 @ Span_destroy t1 s2"
    by (simp add: span_nest_def start c1 c2)
  ultimately show ?thesis by simp
qed

section \<open>The traced client\<close>

lemma task_results [simp]:
  "snd (send_sync_traced tr t0 t1 i) = send_sync_to_master i" "snd (master_task tr t0 t1 c op) = CurpMasterClient_propose op"
  "snd (witness_task tr t0 t1 clk outs c op d h) = record_to_witnesses clk outs c (op_rpc_id op) (op_key op) d h"
  by (simp_all add: send_sync_traced_def master_task_def witness_task_def send_sync_to_master_def Let_def split: prod.split)

lemma task_balanced [simp]:
  "started (fst (send_sync_traced tr t0 t1 i)) = finished (fst (send_sync_traced tr t0 t1 i))"
  "started (fst (master_task tr t0 t1 c op)) = finished (fst (master_task tr t0 t1 c op))"
  "started (fst (witness_task tr t0 t1 clk outs c op d h)) = finished (fst (witness_task tr t0 t1 clk outs c op d h))"
  by (simp_all add: send_sync_traced_def master_task_def witness_task_def span_block_balanced Let_def split: prod.split)

lemma parallel_write_traced_exact:
  "snd (parallel_write_traced tr t sched clk outs c op h) = parallel_write clk outs c op h"
  "started (fst (parallel_write_traced tr t sched clk outs c op h)) =
   finished (fst (parallel_write_traced tr t sched clk outs c op h))"
proof -
  obtain ms_m resp where m: "master_task tr (t 1) (t 2) c op = (ms_m, resp)" by fastforce
  obtain ms_w accepted h' where w: "witness_task tr (t 3) (t 4) clk outs c op (serialize_request op) h = (ms_w, accepted, h')"
    using prod_cases3 by blast
  obtain ms_s ok where s: "send_sync_traced tr (t 5) (t 6) (op_rpc_id op) = (ms_s, ok)" by fastforce
  note tasks = task_results(1) [of tr "t 5" "t 6" "op_rpc_id op", unfolded s snd_conv, symmetric]
    task_results(2) [of tr "t 1" "t 2" c op, unfolded m snd_conv, symmetric]
    task_results(3) [of tr "t 3" "t 4" clk outs c op "serialize_request op" h, unfolded w snd_conv, symmetric]
  show "snd (parallel_write_traced tr t sched clk outs c op h) = parallel_write clk outs c op h"
    unfolding parallel_write_traced_def parallel_write_def decide_write_def m w s tasks Let_def prod.case by simp
  have "started ms_m = finished ms_m" "started ms_w = finished ms_w" "started ms_s = finished ms_s"
    using task_balanced(2) [of tr "t 1" "t 2" c op]
      task_balanced(3) [of tr "t 3" "t 4" clk outs c op "serialize_request op" h]
      task_balanced(1) [of tr "t 5" "t 6" "op_rpc_id op"] by (simp_all only: m w s fst_conv)
  then show "started (fst (parallel_write_traced tr t sched clk outs c op h)) =
      finished (fst (parallel_write_traced tr t sched clk outs c op h))"
    unfolding parallel_write_traced_def m w s Let_def prod.case by (auto intro!: span_nest_balanced)
qed

text \<open>
  Tracing changes no outcome of the client, every span of a write or a delete that starts also ends, for
  every interleaving of the two tasks, and the last message says whether the operation succeeded.
\<close>

theorem client_write_traced_exact:
  "snd (client_write_traced tr t ts sched clk outs c key v h) = client_write clk outs c key v h
   \<and> started (fst (client_write_traced tr t ts sched clk outs c key v h)) =
     finished (fst (client_write_traced tr t ts sched clk outs c key v h))
   \<and> (tr_enabled tr \<longrightarrow> last (fst (client_write_traced tr t ts sched clk outs c key v h)) =
       SpanEnd ''CurpClient.write'' ((t 3 - t 0) sdiv 1000000)
         (if wres_success (fst (client_write clk outs c key v h)) then ''ok'' else ''error''))"
proof -
  obtain i c1 where n: "next_rpc_id c = (i, c1)" by fastforce
  define op where "op = \<lparr>op_rpc_id = i, op_client_id = cf_client_id (cc_config c1), op_type = PUT, op_key = key, op_value = v\<rparr>"
  obtain ms r h' where p: "parallel_write_traced tr ts sched clk outs c1 op h = (ms, r, h')" using prod_cases3 by blast
  have plain: "parallel_write clk outs c1 op h = (r, h')" using parallel_write_traced_exact(1) [of tr ts sched clk outs c1 op h] p by simp
  have bal: "started ms = finished ms" using parallel_write_traced_exact(2) [of tr ts sched clk outs c1 op h] p by simp
  have "snd (client_write_traced tr t ts sched clk outs c key v h) = client_write clk outs c key v h"
    "wres_success (fst (client_write clk outs c key v h)) = wres_success r"
    by (simp_all add: client_write_traced_def client_write_def n op_def [symmetric] p plain Let_def)
  moreover have "started (fst (client_write_traced tr t ts sched clk outs c key v h)) =
      finished (fst (client_write_traced tr t ts sched clk outs c key v h))"
    by (simp add: client_write_traced_def n op_def [symmetric] p Let_def span_nest_balanced bal)
  moreover have "last (fst (client_write_traced tr t ts sched clk outs c key v h)) =
      SpanEnd ''CurpClient.write'' ((t 3 - t 0) sdiv 1000000) (if wres_success r then ''ok'' else ''error'')" if "tr_enabled tr"
    by (simp add: client_write_traced_def n op_def [symmetric] p Let_def span_nest_last [OF that])
  ultimately show ?thesis by auto
qed

lemma client_delete_traced_exact:
  "snd (client_delete_traced tr t ts sched clk outs c key h) = client_delete clk outs c key h"
  "started (fst (client_delete_traced tr t ts sched clk outs c key h)) =
   finished (fst (client_delete_traced tr t ts sched clk outs c key h))"
proof -
  obtain i c1 where n: "next_rpc_id c = (i, c1)" by fastforce
  define op where "op = \<lparr>op_rpc_id = i, op_client_id = cf_client_id (cc_config c1), op_type = DELETE_OP, op_key = key, op_value = []\<rparr>"
  obtain ms r h' where p: "parallel_write_traced tr ts sched clk outs c1 op h = (ms, r, h')" using prod_cases3 by blast
  have plain: "parallel_write clk outs c1 op h = (r, h')" and bal: "started ms = finished ms"
    using parallel_write_traced_exact [of tr ts sched clk outs c1 op h] p by simp_all
  show "snd (client_delete_traced tr t ts sched clk outs c key h) = client_delete clk outs c key h"
    by (simp add: client_delete_traced_def client_delete_def n op_def [symmetric] p plain Let_def)
  show "started (fst (client_delete_traced tr t ts sched clk outs c key h)) =
      finished (fst (client_delete_traced tr t ts sched clk outs c key h))"
    by (simp add: client_delete_traced_def n op_def [symmetric] p Let_def span_nest_balanced bal)
qed

lemma client_read_traced_result:
  "snd (client_read_traced tr t c key) = client_read c key"
  "started (fst (client_read_traced tr t c key)) = finished (fst (client_read_traced tr t c key))"
  "snd (client_init_traced tr t connect config) = new_CurpClient connect config"
  "started (fst (client_init_traced tr t connect config)) = finished (fst (client_init_traced tr t connect config))"
  by (simp_all add: client_read_traced_def client_read_def client_init_traced_def span_block_balanced Let_def)

end
