(* ===== verification/Raft_Vote.thy ===== *)
theory Raft_Vote
  imports Raft_Node
begin

text \<open>
  Voting on one node: what \<open>RequestVote\<close> answers, and that a node gives its vote of a term to at
  most one candidate whatever it does in between. The second is proved once, in the locale
  \<open>vote_register\<close>, for anything with terms that do not decrease and votes that do not change
  within a term, and interpreted on the steps of a node.
\<close>

section \<open>What a node can do\<close>

text \<open>
  Every section under the node's mutex with any message, reply and clock. A section that fails
  with an error takes no step.
\<close>

inductive node_step :: "'f store_env \<Rightarrow> 'f RaftNode \<Rightarrow> 'f RaftNode \<Rightarrow> bool" for E where
  step_RequestVote: "RequestVote E c s request = Inr (s', reply) \<Longrightarrow> node_step E s s'"
| step_AppendEntries: "AppendEntries E c s args = Inr (s', areply) \<Longrightarrow> node_step E s s'"
| step_Elect: "Elect E s = Inr (s', request, peers) \<Longrightarrow> node_step E s s'"
| step_GetVoteAnswer: "GetVoteAnswer s request answer = (s', got) \<Longrightarrow> node_step E s s'"
| step_collectVote: "collectVote_granted s request count = (s', count', lead) \<Longrightarrow> node_step E s s'"
| step_ticker: "ticker_round c s = (s', elect) \<Longrightarrow> node_step E s s'"
| step_heartbeat: "SendHeartBeats_round E c s = Inr (Some (s', msgs)) \<Longrightarrow> node_step E s s'"
| step_handle: "handleAppendEntries E c s target args answer' = Inr s' \<Longrightarrow> node_step E s s'"
| step_kill: "kill s = s' \<Longrightarrow> node_step E s s'"

definition vote_of :: "'f RaftNode \<Rightarrow> int option" where
  "vote_of s = (if votedFor s = -1 then None else Some (votedFor s))"

text \<open>The effect of a step on term, vote and role.\<close>

definition term_vote_law :: "'f RaftNode \<Rightarrow> 'f RaftNode \<Rightarrow> bool" where
  "term_vote_law s s' \<longleftrightarrow>
     currentTerm s \<le> currentTerm s'
   \<and> (currentTerm s' = currentTerm s \<longrightarrow> votedFor s \<noteq> -1 \<longrightarrow> votedFor s' = votedFor s)
   \<and> cluster_configs s' = cluster_configs s \<and> cur_node_id s' = cur_node_id s"

text \<open>A step that does not make a leader.\<close>

definition no_new_leader :: "'f RaftNode \<Rightarrow> 'f RaftNode \<Rightarrow> bool" where
  "no_new_leader s s' \<longleftrightarrow> (role s' = LEADER \<longrightarrow> role s = LEADER \<and> currentTerm s' = currentTerm s)"

lemma law_refl [simp]: "term_vote_law s s" "no_new_leader s s"
  by (simp_all add: term_vote_law_def no_new_leader_def)

lemma law_RequestVote:
  "RequestVote E c s request = Inr (s', reply) \<Longrightarrow> term_vote_law s s' \<and> no_new_leader s s'"
  by (auto simp: RequestVote_def Let_def rbind_Inr_iff term_vote_law_def no_new_leader_def
      split: if_splits)

lemma law_advance [simp]:
  "currentTerm (advance_commit a s) = currentTerm s" "votedFor (advance_commit a s) = votedFor s"
  "role (advance_commit a s) = role s" "cluster_configs (advance_commit a s) = cluster_configs s"
  "cur_node_id (advance_commit a s) = cur_node_id s" "log (advance_commit a s) = log s"
  "nextIndex (advance_commit a s) = nextIndex s" "matchIndex (advance_commit a s) = matchIndex s"
  "lastIncludedIndex (advance_commit a s) = lastIncludedIndex s"
  by (simp_all add: advance_commit_def)

lemma law_trans:
  "term_vote_law s s' \<Longrightarrow> term_vote_law s' s'' \<Longrightarrow> term_vote_law s s''"
  "no_new_leader s s' \<Longrightarrow> no_new_leader s' s'' \<Longrightarrow> no_new_leader s s''"
  by (auto simp: term_vote_law_def no_new_leader_def)

lemma law_ae_enter: "term_vote_law s (ae_enter c s args) \<and> no_new_leader s (ae_enter c s args)"
  by (simp add: ae_enter_def Let_def term_vote_law_def no_new_leader_def)

lemma law_ae_log: "ae_log E s args = Inr (s', reply) \<Longrightarrow> term_vote_law s s' \<and> no_new_leader s s'"
  by (auto simp: ae_log_def Let_def rbind_Inr_iff term_vote_law_def no_new_leader_def
      split: if_splits)

lemma law_AppendEntries:
  "AppendEntries E c s args = Inr (s', reply) \<Longrightarrow> term_vote_law s s' \<and> no_new_leader s s'"
  using law_ae_enter [of s c args] law_ae_log [of E "ae_enter c s args" args s' reply]
  by (auto simp: AppendEntries_def split: if_splits intro: law_trans)

lemma law_Elect:
  "Elect E s = Inr (s', request, peers) \<Longrightarrow> term_vote_law s s' \<and> no_new_leader s s'"
  by (auto simp: Elect_def Let_def rbind_Inr_iff term_vote_law_def no_new_leader_def
      split: if_splits)

lemma law_GetVoteAnswer:
  "GetVoteAnswer s request answer = (s', got) \<Longrightarrow> term_vote_law s s' \<and> no_new_leader s s'"
  by (auto simp: GetVoteAnswer_def Let_def term_vote_law_def no_new_leader_def
      split: if_splits option.splits)

lemma law_collectVote:
  "collectVote_granted s request count = (s', count', lead) \<Longrightarrow> term_vote_law s s'"
  by (auto simp: collectVote_granted_def become_leader_def Let_def term_vote_law_def split: if_splits)

lemma law_ticker: "ticker_round c s = (s', elect) \<Longrightarrow> term_vote_law s s' \<and> no_new_leader s s'"
  by (auto simp: ticker_round_def term_vote_law_def no_new_leader_def)

lemma law_heartbeat:
  "SendHeartBeats_round E c s = Inr (Some (s', msgs)) \<Longrightarrow> term_vote_law s s' \<and> no_new_leader s s'"
  by (auto simp: SendHeartBeats_round_def rbind_Inr_iff term_vote_law_def no_new_leader_def
      split: if_splits)

lemma handle_success_keeps:
  "handle_success E s target args = Inr s' \<Longrightarrow>
    currentTerm s' = currentTerm s \<and> votedFor s' = votedFor s \<and> role s' = role s
  \<and> cluster_configs s' = cluster_configs s \<and> cur_node_id s' = cur_node_id s \<and> log s' = log s"
  by (auto simp: handle_success_def Let_def rbind_Inr_iff split: if_splits)

lemma law_handle:
  assumes "handleAppendEntries E c s target args answer = Inr s'"
  shows "term_vote_law s s' \<and> no_new_leader s s'"
proof (cases "\<exists>reply. answer = Some reply \<and> aer_success reply \<and> role s = LEADER \<and> ae_term args = currentTerm s")
  case True
  with assms have "handle_success E s target args = Inr s'" by (auto simp: handleAppendEntries_def)
  from handle_success_keeps [OF this] show ?thesis by (simp add: term_vote_law_def no_new_leader_def)
next
  case False
  with assms show ?thesis
    by (auto simp: handleAppendEntries_def rbind_Inr_iff term_vote_law_def no_new_leader_def
        split: if_splits option.splits)
qed

lemma law_kill: "term_vote_law s (kill s) \<and> no_new_leader s (kill s)"
  by (auto simp: kill_def term_vote_law_def no_new_leader_def)

lemmas node_laws = law_RequestVote law_AppendEntries law_Elect law_GetVoteAnswer law_collectVote
  law_ticker law_heartbeat law_handle

lemma law_step: "node_step E s s' \<Longrightarrow> term_vote_law s s'"
  by (cases rule: node_step.cases) (auto dest: node_laws simp: law_kill)

section \<open>Votes within a term\<close>

locale vote_register =
  fixes step :: "'s \<Rightarrow> 's \<Rightarrow> bool"
    and term_of :: "'s \<Rightarrow> int"
    and vote :: "'s \<Rightarrow> 'c option"
  assumes term_mono: "step s s' \<Longrightarrow> term_of s \<le> term_of s'"
    and vote_kept: "step s s' \<Longrightarrow> term_of s' = term_of s \<Longrightarrow> vote s = Some v \<Longrightarrow> vote s' = Some v"
begin

lemma terms_mono: "step\<^sup>*\<^sup>* s s' \<Longrightarrow> term_of s \<le> term_of s'"
  by (induction rule: rtranclp_induct) (use term_mono order_trans in blast)+

lemma vote_final: "step\<^sup>*\<^sup>* s s' \<Longrightarrow> term_of s' = term_of s \<Longrightarrow> vote s = Some v \<Longrightarrow> vote s' = Some v"
proof (induction rule: rtranclp_induct)
  case (step y z)
  have "term_of y = term_of s"
    using terms_mono [OF step.hyps(1)] term_mono [OF step.hyps(2)] step.prems(1) by simp
  then show ?case using vote_kept [OF step.hyps(2)] step.IH step.prems by simp
qed simp

end

interpretation votes: vote_register "node_step E" currentTerm vote_of for E :: "'f store_env"
proof unfold_locales
  fix s s' :: "'f RaftNode" and v
  assume "node_step E s s'"
  then have law: "term_vote_law s s'" by (rule law_step)
  then show "currentTerm s \<le> currentTerm s'" by (simp add: term_vote_law_def)
  assume "currentTerm s' = currentTerm s" and "vote_of s = Some v"
  with law show "vote_of s' = Some v" by (auto simp: term_vote_law_def vote_of_def split: if_splits)
qed

section \<open>The answer to a vote request\<close>

definition up_to_date :: "Entry list \<Rightarrow> RequestVoteArgs \<Rightarrow> bool" where
  "up_to_date es request \<longleftrightarrow>
     e_term (last es) < rv_lastLogTerm request
   \<or> e_term (last es) = rv_lastLogTerm request \<and> int (length es) - 1 \<le> rv_lastLogIndex request"

definition may_vote :: "'f RaftNode \<Rightarrow> RequestVoteArgs \<Rightarrow> bool" where
  "may_vote s request \<longleftrightarrow>
     currentTerm s < rv_term request
   \<or> currentTerm s = rv_term request \<and> (votedFor s = -1 \<or> votedFor s = rv_candidateId request)"

lemma last_index_rep: "node_ok E s es \<Longrightarrow> VirtualLogIdx s (log_size s - 1) = int (length es) - 1"
  using log_size_rep [of E s es] log_size_pos [of E s es] node_okD(2,6) [of E s es]
    virtual_id [of s "log_size s - 1"] by simp

lemma node_ok_term:
  "node_ok E s es \<Longrightarrow> 0 \<le> t \<Longrightarrow> t < 2 ^ 31 \<Longrightarrow>
    node_ok E (s\<lparr>currentTerm := t, votedFor := v, role := r\<rparr>) es"
  by (simp add: node_ok_def)

lemma request_vote_rep:
  assumes "node_ok E s es" and "0 \<le> rv_term request" "rv_term request < 2 ^ 31"
    and "0 \<le> rv_lastLogIndex request" "rv_lastLogIndex request < 2 ^ 31"
  shows "\<exists>s' reply. RequestVote E c s request = Inr (s', reply)
    \<and> (rvr_voteGranted reply \<longleftrightarrow> may_vote s request \<and> up_to_date es request)
    \<and> rvr_term reply = max (currentTerm s) (rv_term request)
    \<and> currentTerm s' = max (currentTerm s) (rv_term request)
    \<and> (rvr_voteGranted reply \<longrightarrow> votedFor s' = rv_candidateId request \<and> role s' = FOLLOWER)
    \<and> log s' = log s \<and> node_ok E s' es"
proof -
  let ?s1 = "if currentTerm s < rv_term request
    then s\<lparr>currentTerm := rv_term request, votedFor := -1, role := FOLLOWER\<rparr> else s"
  have ok1: "node_ok E ?s1 es" using node_ok_term [OF assms(1-3)] assms(1) by simp
  have log1: "log ?s1 = log s" by simp
  have ok2: "node_ok E (?s1\<lparr>currentTerm := rv_term request, votedFor := v, role := r\<rparr>) es" for v r
    by (rule node_ok_term [OF ok1 assms(2,3)])
  have last: "last_entry_term E (log s) = Inr (e_term (last es))"
    by (rule last_term_rep [OF node_okD(1-3) [OF assms(1)]])
  have idx: "VirtualLogIdx ?s1 (log_size ?s1 - 1) = int (length es) - 1"
    by (rule last_index_rep [OF ok1])
  have u: "to_u64 (rv_lastLogIndex request) = rv_lastLogIndex request"
    using assms(4,5) by (rule to_u64_small)
  consider "rv_term request < currentTerm s" | "currentTerm s = rv_term request"
    | "currentTerm s < rv_term request" by linarith
  then show ?thesis
  proof cases
    case 1
    then show ?thesis using assms(1) by (simp add: RequestVote_def may_vote_def)
  next
    case 2
    then show ?thesis using assms(1) last idx u ok2
      by (auto simp: RequestVote_def may_vote_def up_to_date_def Let_def)
  next
    case 3
    then show ?thesis using ok1 last idx u ok2
      by (auto simp: RequestVote_def may_vote_def up_to_date_def Let_def)
  qed
qed

lemma grant_facts:
  assumes "RequestVote E c s request = Inr (s', reply)" and "rvr_voteGranted reply"
  shows "currentTerm s' = rv_term request" and "votedFor s' = rv_candidateId request"
  using assms by (auto simp: RequestVote_def Let_def rbind_Inr_iff split: if_splits)

lemma grant_needs_free_vote:
  assumes "RequestVote E c s request = Inr (s', reply)" and "rvr_voteGranted reply"
  shows "may_vote s request"
  using assms by (auto simp: RequestVote_def may_vote_def Let_def rbind_Inr_iff split: if_splits)

section \<open>A sample node\<close>

definition sample_configs :: "NodeConfig list" where
  "sample_configs = [\<lparr>addr = ''a:1''\<rparr>, \<lparr>addr = ''b:2''\<rparr>, \<lparr>addr = ''c:3''\<rparr>]"

definition sample_node :: "bytes RaftNode" where
  "sample_node = new_RaftNode mem_env sample_configs ''dir'' 0"

lemma new_node_ok:
  assumes "i < 3"
  shows "node_ok mem_env (new_RaftNode mem_env sample_configs dir (int i)) [default_Entry]"
proof -
  have "logvec_room mem_env (new_LogVec mem_env dir) [default_Entry]"
    using sample_room [of dir] by (simp add: logvec_room_def)
  from lv.push_rep [OF rep_mem_new this] assms show ?thesis
    by (simp add: node_ok_def new_RaftNode_def log_fine_def default_Entry_def sample_configs_def)
qed

lemma sample_node_ok: "node_ok mem_env sample_node [default_Entry]"
  using new_node_ok [of 0 "''dir''"] by (simp add: sample_node_def)

definition sample_request :: "int \<Rightarrow> RequestVoteArgs" where
  "sample_request cand = \<lparr>rv_term = 1, rv_candidateId = cand, rv_lastLogIndex = 0, rv_lastLogTerm = 0\<rparr>"

lemma sample_grant:
  "\<exists>s' reply. RequestVote mem_env c sample_node (sample_request cand) = Inr (s', reply)
    \<and> rvr_voteGranted reply \<and> node_ok mem_env s' [default_Entry]
    \<and> currentTerm s' = 1 \<and> votedFor s' = cand"
  using request_vote_rep [OF sample_node_ok, of "sample_request cand" c]
  by (force simp: sample_request_def may_vote_def up_to_date_def sample_node_def new_RaftNode_def
      default_Entry_def)

section \<open>Properties\<close>

text \<open>
  C11. \<open>RequestVote\<close> always answers. It grants the vote exactly when the term is not older than the
  node's, the node has not voted for another candidate in that term, and the candidate's log is at
  least as up to date; it moves to the newer of the two terms and leaves the log alone.
\<close>

theorem vote_granted_iff:
  assumes "node_ok E s es" and "0 \<le> rv_term request" "rv_term request < 2 ^ 31"
    and "0 \<le> rv_lastLogIndex request" "rv_lastLogIndex request < 2 ^ 31"
  shows "\<exists>s' reply. RequestVote E c s request = Inr (s', reply)
    \<and> (rvr_voteGranted reply \<longleftrightarrow> may_vote s request \<and> up_to_date es request)
    \<and> rvr_term reply = max (currentTerm s) (rv_term request)
    \<and> currentTerm s' = rvr_term reply \<and> log s' = log s \<and> node_ok E s' es"
  using request_vote_rep [OF assms, of c] by auto

theorem vote_granted_iff_witness:
  "\<exists>s' reply. RequestVote mem_env \<lparr>now = 5, rnd = 9\<rparr> sample_node (sample_request 2) = Inr (s', reply)
    \<and> rvr_voteGranted reply"
  using vote_granted_iff [OF sample_node_ok, of "sample_request 2"]
  by (force simp: sample_request_def may_vote_def up_to_date_def sample_node_def new_RaftNode_def
      default_Entry_def)

text \<open>
  A node votes for at most one candidate in a term: after it has granted a vote, and whatever
  requests, replies and timeouts it handles then, a vote it grants for the same term goes to the same
  candidate.
\<close>

theorem one_vote_per_term:
  assumes "RequestVote E c s request = Inr (s1, reply)" and "rvr_voteGranted reply"
    and "(node_step E)\<^sup>*\<^sup>* s1 s2"
    and "RequestVote E c' s2 request' = Inr (s3, reply')" and "rvr_voteGranted reply'"
    and "rv_term request' = rv_term request" and "rv_candidateId request \<noteq> -1"
  shows "rv_candidateId request' = rv_candidateId request"
proof -
  have v1: "vote_of s1 = Some (rv_candidateId request)" and t1: "currentTerm s1 = rv_term request"
    using grant_facts [OF assms(1,2)] assms(7) by (simp_all add: vote_of_def)
  have run: "(node_step E)\<^sup>*\<^sup>* s1 s3"
    using assms(3) step_RequestVote [OF assms(4)] by simp
  have "currentTerm s3 = rv_term request" and v3: "votedFor s3 = rv_candidateId request'"
    using grant_facts [OF assms(4,5)] assms(6) by simp_all
  with votes.vote_final [OF run] t1 v1 have "vote_of s3 = Some (rv_candidateId request)" by simp
  with v3 show ?thesis by (simp add: vote_of_def split: if_splits)
qed

theorem one_vote_per_term_witness:
  "\<exists>s1 r1. RequestVote mem_env \<lparr>now = 5, rnd = 9\<rparr> sample_node (sample_request 2) = Inr (s1, r1)
     \<and> rvr_voteGranted r1
     \<and> {rv_candidateId r | r c s3 r3. rv_term r = 1 \<and> RequestVote mem_env c s1 r = Inr (s3, r3)
          \<and> rvr_voteGranted r3} \<subseteq> {2}"
proof -
  obtain s1 r1 where grant: "RequestVote mem_env \<lparr>now = 5, rnd = 9\<rparr> sample_node (sample_request 2) = Inr (s1, r1)"
      "rvr_voteGranted r1"
    using sample_grant [of "\<lparr>now = 5, rnd = 9\<rparr>" 2] by blast
  from one_vote_per_term [OF grant rtranclp.rtrancl_refl] grant show ?thesis
    by (auto simp: sample_request_def)
qed

text \<open>
  The bounds of the election timeout: whatever \<open>std::rand\<close> returns, a reset of the vote timer
  puts the deadline between \<open>MinElectTimeOut\<close> and \<open>MaxElectTimeOut\<close> milliseconds ahead, every
  delay in that range comes from some value of \<open>std::rand\<close>, and three heartbeat periods fit into
  the shortest delay.
\<close>

theorem election_timeout_bounds:
  "{deadline (voteTimer (ResetVoteTimer c s)) - now c | c. 0 \<le> rnd c \<and> rnd c < 2 ^ 31}
     = {MinElectTimeOut..MaxElectTimeOut}
   \<and> 3 * HeartBeatTimeOut < MinElectTimeOut"
proof -
  have delay: "deadline (voteTimer (ResetVoteTimer c s)) - now c
      = GetRandomElectTimeOut (rnd c) MinElectTimeOut MaxElectTimeOut" for c
    by (simp add: ResetVoteTimer_def timer_reset_def Let_def)
  have all: "d \<in> {deadline (voteTimer (ResetVoteTimer c s)) - now c | c. 0 \<le> rnd c \<and> rnd c < 2 ^ 31}"
    if "d \<in> {MinElectTimeOut..MaxElectTimeOut}" for d
  proof -
    let ?c = "\<lparr>now = 0, rnd = d - MinElectTimeOut\<rparr>"
    have "d - 600 < 401" "0 \<le> d - 600" using that by (simp_all add: MinElectTimeOut_def MaxElectTimeOut_def)
    then have "d = GetRandomElectTimeOut (rnd ?c) MinElectTimeOut MaxElectTimeOut \<and> 0 \<le> rnd ?c \<and> rnd ?c < 2 ^ 31"
      by (simp add: GetRandomElectTimeOut_def MinElectTimeOut_def MaxElectTimeOut_def signed_modulo_int_def sgn_if)
    then show ?thesis unfolding mem_Collect_eq delay by blast
  qed
  have "\<And>r. 0 \<le> r \<Longrightarrow> GetRandomElectTimeOut r MinElectTimeOut MaxElectTimeOut \<in> {MinElectTimeOut..MaxElectTimeOut}"
    using timeout_range [of _ MinElectTimeOut MaxElectTimeOut] by (simp add: MinElectTimeOut_def MaxElectTimeOut_def)
  with all show ?thesis
    by (auto simp: delay HeartBeatTimeOut_def MinElectTimeOut_def)
qed

end
