(* ===== verification/Raft_Replication.thy ===== *)
theory Raft_Replication
  imports Raft_Vote
begin

text \<open>
  Log replication between a leader and a follower: what a heartbeat round sends, how
  \<open>AppendEntries\<close> merges the entries into the follower's log, how the leader moves its commit index
  after a success and backs up \<open>nextIndex\<close> after a conflict, and that the exchange of the two nodes
  ends with the leader's log on the follower.
\<close>

section \<open>The follower\<close>

text \<open>Messages whose numbers stay in the range the code computes in.\<close>

definition args_ok :: "AppendEntriesArgs \<Rightarrow> bool" where
  "args_ok args \<longleftrightarrow>
     0 \<le> ae_term args \<and> ae_term args < 2 ^ 31 \<and> 0 \<le> ae_prevLogIndex args
   \<and> ae_prevLogIndex args + 1 + int (length (ae_entries args)) < 2 ^ 31 - 1
   \<and> 0 \<le> ae_leaderCommit args \<and> ae_leaderCommit args < 2 ^ 31
   \<and> (\<forall>e \<in> set (ae_entries args). 0 \<le> e_term e)"

lemma conflict_search_spec:
  assumes "node_ok E s es" and "0 \<le> i" "i < int (length es)"
  shows "\<exists>j. conflict_search E s x i = Inr j \<and> 0 \<le> j \<and> j \<le> i
    \<and> (commitIndex s < i \<and> e_term (es ! nat i) = x \<longrightarrow> j < i)"
  using assms(2,3)
proof (induction "nat i" arbitrary: i)
  case 0
  then have "i = 0" by simp
  then show ?case using node_okD(14) [OF assms(1)]
    by (simp add: conflict_search.simps to_u64_def)
next
  case (Suc n)
  note ok = node_okD [OF assms(1)]
  have i: "0 < i" "i < 2 ^ 31" "to_u64 i = i"
    using Suc.hyps(2) Suc.prems ok(3) by (simp_all add: machine_simps)
  have t: "entry_term_at E (log s) (RealLogIdx s i) = Inr (e_term (es ! nat i))"
    using term_at_rep [OF ok(1) Suc.prems] real_id [OF ok(6) Suc.prems(1) i(2)] by simp
  have "n = nat (i - 1)" using Suc.hyps(2) by simp
  from Suc.hyps(1) [OF this] i Suc.prems obtain j where
    "conflict_search E s x (i - 1) = Inr j" "0 \<le> j" "j \<le> i - 1" by auto
  with t i show ?case by (subst conflict_search.simps) (simp add: i)
qed

lemma length_merge: "i \<le> length es \<Longrightarrow> length (merge_spec es i fs) \<le> max (length es) (i + length fs)"
proof (induction fs arbitrary: i)
  case (Cons f fs)
  then show ?case using Cons.IH [of "Suc i"] by (auto simp: Suc_le_eq)
qed simp

text \<open>
  The result of a merge in full: the first \<open>k\<close> new entries have the terms of the entries that are there;
  if these are all, nothing changes, and otherwise everything from there on is replaced by the rest of the
  new entries.
\<close>

definition merged :: "Entry list \<Rightarrow> nat \<Rightarrow> Entry list \<Rightarrow> Entry list \<Rightarrow> bool" where
  "merged es i fs es' \<longleftrightarrow> (\<exists>k \<le> length fs.
     (\<forall>j < k. i + j < length es \<and> e_term (es ! (i + j)) = e_term (fs ! j))
   \<and> (if k = length fs then es' = es
      else (length es \<le> i + k \<or> e_term (es ! (i + k)) \<noteq> e_term (fs ! k)) \<and> es' = take (i + k) es @ drop k fs))"

lemma merged_here:
  "fs \<noteq> [] \<Longrightarrow> length es \<le> i \<or> e_term (es ! i) \<noteq> e_term (hd fs) \<Longrightarrow> merged es i fs (take i es @ fs)"
  unfolding merged_def by (intro exI [of _ 0]) (auto simp: hd_conv_nth)

lemma merged_next:
  assumes "merged es (Suc i) fs es'" and "i < length es" "e_term (es ! i) = e_term f"
  shows "merged es i (f # fs) es'"
proof -
  obtain k where k: "k \<le> length fs" "\<forall>j < k. Suc i + j < length es \<and> e_term (es ! (Suc i + j)) = e_term (fs ! j)"
    "if k = length fs then es' = es
      else (length es \<le> Suc i + k \<or> e_term (es ! (Suc i + k)) \<noteq> e_term (fs ! k)) \<and> es' = take (Suc i + k) es @ drop k fs"
    using assms(1) unfolding merged_def by blast
  have "\<forall>j < Suc k. i + j < length es \<and> e_term (es ! (i + j)) = e_term ((f # fs) ! j)"
    using k(2) assms(2,3) by (auto simp: less_Suc_eq_0_disj)
  with k show ?thesis unfolding merged_def by (intro exI [of _ "Suc k"]) auto
qed

lemma merge_merged: "i \<le> length es \<Longrightarrow> merged es i fs (merge_spec es i fs)"
proof (induction fs arbitrary: i)
  case Nil
  then show ?case by (simp add: merged_def)
next
  case (Cons f fs)
  show ?case
  proof (cases "i < length es \<and> e_term (es ! i) = e_term f")
    case True
    with merged_next [OF Cons.IH [of "Suc i"], of f] show ?thesis by simp
  next
    case False
    then have "merge_spec es i (f # fs) = take i es @ f # fs" using Cons.prems by auto
    with merged_here [of "f # fs" es i] False show ?thesis by auto
  qed
qed

lemma set_merge: "set (merge_spec es i fs) \<subseteq> set es \<union> set fs"
proof (induction es i fs rule: merge_spec.induct)
  case (2 es i f fs)
  have "set (take i es) \<subseteq> set es" by (rule set_take_subset)
  with 2 show ?case by auto
qed simp

lemma merge_fine:
  assumes "log_fine es" and "0 < i" "i \<le> length es" and "i + length fs < 2 ^ 31 - 1"
    and "\<forall>e \<in> set fs. 0 \<le> e_term e"
  shows "log_fine (merge_spec es i fs)"
proof -
  have pre: "take i (merge_spec es i fs) = take i es" by (rule merge_prefix [OF assms(3)])
  have "merge_spec es i fs \<noteq> []" using pre assms(1,2) by (auto simp: log_fine_def)
  moreover have "merge_spec es i fs ! 0 = es ! 0" using pre assms(2) by (metis nth_take)
  moreover have "length (merge_spec es i fs) < 2 ^ 31 - 1"
    using length_merge [OF assms(3), of fs] assms(1,4)
    by (auto simp: log_fine_def max_def split: if_splits)
  ultimately show ?thesis using set_merge [of es i fs] assms(1,5) by (auto simp: log_fine_def)
qed

definition prev_matches :: "Entry list \<Rightarrow> AppendEntriesArgs \<Rightarrow> bool" where
  "prev_matches es args \<longleftrightarrow>
     ae_prevLogIndex args < int (length es)
   \<and> e_term (es ! nat (ae_prevLogIndex args)) = ae_prevLogTerm args"

text \<open>The index up to which a successful call has compared or written the log.\<close>

definition new_match :: "AppendEntriesArgs \<Rightarrow> int" where
  "new_match args = ae_prevLogIndex args + int (length (ae_entries args))"

lemma advance_commit_rep:
  assumes "node_ok E s es" and "0 \<le> ae_leaderCommit args" "ae_leaderCommit args < 2 ^ 31"
  shows "commitIndex (advance_commit args s)
      = max (commitIndex s) (min (ae_leaderCommit args) (int (length es) - 1)) \<or>
     commitIndex (advance_commit args s) = int (length es) - 1 \<and> int (length es) - 1 < commitIndex s"
    and "node_ok E (advance_commit args s) es"
proof -
  have u: "to_u64 (ae_leaderCommit args) = ae_leaderCommit args" using assms(2,3) by (rule to_u64_small)
  have pos: "0 \<le> int (length es) - 1 \<and> int (length es) - 1 < 2 ^ 31"
    using log_size_pos [OF assms(1)] log_size_rep [OF assms(1)] node_okD(2) [OF assms(1)] by simp
  note last_index_rep [OF assms(1)] u
  then show "commitIndex (advance_commit args s)
      = max (commitIndex s) (min (ae_leaderCommit args) (int (length es) - 1)) \<or>
     commitIndex (advance_commit args s) = int (length es) - 1 \<and> int (length es) - 1 < commitIndex s"
    by (auto simp: advance_commit_def)
  show "node_ok E (advance_commit args s) es"
    using assms u pos last_index_rep [OF assms(1)] by (simp add: node_ok_def advance_commit_def)
qed

lemma node_ok_log:
  "node_ok E s es \<Longrightarrow> logvec_rep E lg es' \<Longrightarrow> log_fine es' \<Longrightarrow> node_ok E (s\<lparr>log := lg\<rparr>) es'"
  by (simp add: node_ok_def)

lemma ae_enter_ok: "node_ok E s es \<Longrightarrow> args_ok args \<Longrightarrow> node_ok E (ae_enter c s args) es"
  using node_ok_term [of E "ResetVoteTimer c s"] by (simp add: args_ok_def ae_enter_def Let_def)

lemma ae_enter_keeps:
  "log (ae_enter c s args) = log s"
  "commitIndex (ae_enter c s args) = commitIndex s"
  "currentTerm s \<le> ae_term args \<Longrightarrow> currentTerm (ae_enter c s args) = ae_term args"
  by (simp_all add: ae_enter_def Let_def)

lemma append_success:
  assumes ok: "node_ok E s es" and args: "args_ok args" and room: "logvec_room E (log s) (ae_entries args)"
    and new: "currentTerm s \<le> ae_term args" and prev: "prev_matches es args"
  shows "\<exists>s' reply. AppendEntries E c s args = Inr (s', reply) \<and> aer_success reply
    \<and> aer_term reply = ae_term args \<and> currentTerm s' = ae_term args
    \<and> node_ok E s' (merge_spec es (Suc (nat (ae_prevLogIndex args))) (ae_entries args))
    \<and> (let last = int (length (merge_spec es (Suc (nat (ae_prevLogIndex args))) (ae_entries args))) - 1
       in commitIndex s' = max (commitIndex s) (min (ae_leaderCommit args) last) \<or>
          commitIndex s' = last \<and> last < commitIndex s)"
proof -
  let ?p = "ae_prevLogIndex args" and ?fs = "ae_entries args"
  let ?s2 = "ae_enter c s args"
  let ?m = "merge_spec es (Suc (nat ?p)) ?fs"
  note ok2 = ae_enter_ok [OF ok args, of c] and log2 = ae_enter_keeps(1) [of c s args]
    and c2 = ae_enter_keeps(2) [of c s args] and t2 = ae_enter_keeps(3) [OF new, of c]
  note n2 = node_okD [OF ok2]
  have p: "0 \<le> ?p" "?p < int (length es)" "?p < 2 ^ 31"
    using args prev n2(3) by (simp_all add: args_ok_def prev_matches_def)
  have u: "to_u64 ?p = ?p" and real: "RealLogIdx ?s2 ?p = ?p"
    using p real_id [OF n2(6)] by (simp_all add: to_u64_small)
  have size: "log_size ?s2 = int (length es)" "VirtualLogIdx ?s2 (log_size ?s2) = int (length es)"
    using log_size_rep [OF ok2] log_size_pos [OF ok2] virtual_id [OF n2(6), of "log_size ?s2"] by simp_all
  have t: "entry_term_at E (log s) ?p = Inr (ae_prevLogTerm args)"
    using term_at_rep [OF n2(1) p(1,2)] prev log2 by (simp add: prev_matches_def)
  have bound: "?p + 1 + 0 + int (length ?fs) < 2 ^ 31" "length es < 2 ^ 31"
    using args n2(3) by (simp_all add: args_ok_def)
  have Suc: "nat (?p + 1 + 0) = Suc (nat ?p)" using p(1) by simp
  from merge_rep [OF n2(1)  _ p(1) _ bound] room log2
  obtain lg where lg: "merge_entries E ?p 0 ?fs (log s) = Inr lg" "logvec_rep E lg ?m"
    unfolding Suc by auto
  have "Suc (nat ?p) \<le> length es" and "Suc (nat ?p) + length ?fs < 2 ^ 31 - 1"
    using p args by (simp_all add: args_ok_def Suc_le_eq nat_less_iff) linarith
  then have fine: "log_fine ?m"
    using merge_fine [OF n2(16)] args by (simp add: args_ok_def)
  let ?s3 = "?s2\<lparr>log := lg\<rparr>"
  have ok3: "node_ok E ?s3 ?m" by (rule node_ok_log [OF ok2 lg(2) fine])
  have run: "AppendEntries E c s args = Inr (advance_commit args ?s3,
      default_AppendEntriesReply\<lparr>aer_term := ae_term args, aer_success := True\<rparr>)"
    using new u real size t lg(1) log2 t2 n2(6) p by (simp add: AppendEntries_def ae_log_def Let_def)
  have "0 \<le> ae_leaderCommit args" "ae_leaderCommit args < 2 ^ 31"
    using args by (simp_all add: args_ok_def)
  note adv = advance_commit_rep [OF ok3 this]
  have "commitIndex ?s3 = commitIndex s" using c2 by simp
  with run adv t2 show ?thesis by (simp add: Let_def)
qed

lemma append_stale:
  "ae_term args < currentTerm s \<Longrightarrow>
    AppendEntries E c s args = Inr (s, default_AppendEntriesReply\<lparr>aer_term := currentTerm s\<rparr>)"
  by (simp add: AppendEntries_def default_AppendEntriesReply_def)

lemma append_conflict:
  assumes ok: "node_ok E s es" and args: "args_ok args"
    and new: "currentTerm s \<le> ae_term args" and prev: "\<not> prev_matches es args"
  shows "\<exists>s' reply. AppendEntries E c s args = Inr (s', reply) \<and> \<not> aer_success reply
    \<and> aer_term reply = ae_term args \<and> currentTerm s' = ae_term args \<and> log s' = log s
    \<and> commitIndex s' = commitIndex s \<and> node_ok E s' es
    \<and> (if int (length es) \<le> ae_prevLogIndex args
       then aer_xTerm reply = -1 \<and> aer_xLen reply = int (length es)
       else aer_xTerm reply = e_term (es ! nat (ae_prevLogIndex args))
          \<and> aer_xTerm reply \<noteq> ae_prevLogTerm args
          \<and> 1 \<le> aer_xIndex reply \<and> aer_xIndex reply \<le> ae_prevLogIndex args + 1
          \<and> (commitIndex s < ae_prevLogIndex args \<longrightarrow> aer_xIndex reply \<le> ae_prevLogIndex args))"
proof -
  let ?p = "ae_prevLogIndex args"
  let ?s2 = "ae_enter c s args"
  note ok2 = ae_enter_ok [OF ok args, of c]
    and s2 = ae_enter_keeps(1,2) [of c s args] ae_enter_keeps(3) [OF new, of c]
  note n2 = node_okD [OF ok2]
  have p: "0 \<le> ?p" "?p < 2 ^ 31" using args by (simp_all add: args_ok_def)
  have u: "to_u64 ?p = ?p" and real: "RealLogIdx ?s2 ?p = ?p"
    using p real_id [OF n2(6)] by (simp_all add: to_u64_small)
  have size: "log_size ?s2 = int (length es)" "VirtualLogIdx ?s2 (log_size ?s2) = int (length es)"
    using log_size_rep [OF ok2] log_size_pos [OF ok2] virtual_id [OF n2(6), of "log_size ?s2"] by simp_all
  have xlen: "to_i32 (int (length es)) = int (length es)"
    using n2(3) by (simp add: machine_simps)
  show ?thesis
  proof (cases "int (length es) \<le> ?p")
    case True
    then have "AppendEntries E c s args = Inr (?s2, default_AppendEntriesReply\<lparr>aer_term := ae_term args,
        aer_success := False, aer_xTerm := -1, aer_xLen := int (length es)\<rparr>)"
      using new u size s2 n2(6) xlen p by (simp add: AppendEntries_def ae_log_def Let_def)
    then show ?thesis using True s2 ok2 by simp
  next
    case False
    then have t: "entry_term_at E (log s) ?p = Inr (e_term (es ! nat ?p))"
      using term_at_rep [OF n2(1) p(1)] s2 by simp
    have neq: "e_term (es ! nat ?p) \<noteq> ae_prevLogTerm args" using prev False by (simp add: prev_matches_def)
    obtain j where j: "conflict_search E ?s2 (e_term (es ! nat ?p)) ?p = Inr j" "0 \<le> j" "j \<le> ?p"
        "commitIndex s < ?p \<longrightarrow> j < ?p"
      using conflict_search_spec [OF ok2 p(1), of "e_term (es ! nat ?p)"] False s2 by auto
    have "in_i32 (j + 1)" using j p False n2(3) by (simp add: in_i32_def)
    then have "AppendEntries E c s args = Inr (?s2, default_AppendEntriesReply\<lparr>aer_term := ae_term args,
        aer_success := False, aer_xTerm := e_term (es ! nat ?p), aer_xIndex := j + 1,
        aer_xLen := int (length es)\<rparr>)"
      using False new u real size s2 n2(6) xlen t neq j(1) p by (simp add: AppendEntries_def ae_log_def Let_def)
    then show ?thesis using False s2 ok2 neq j by auto
  qed
qed

section \<open>The leader\<close>

definition leader_ok :: "'f RaftNode \<Rightarrow> Entry list \<Rightarrow> bool" where
  "leader_ok s es \<longleftrightarrow>
     (\<forall>i < length (cluster_configs s).
        1 \<le> nextIndex s ! i \<and> nextIndex s ! i \<le> int (length es)
      \<and> 0 \<le> matchIndex s ! i \<and> matchIndex s ! i < int (length es))"

lemma leader_okD:
  assumes "leader_ok s es" and "i < length (cluster_configs s)"
  shows "1 \<le> nextIndex s ! i" "nextIndex s ! i \<le> int (length es)"
    "0 \<le> matchIndex s ! i" "matchIndex s ! i < int (length es)"
  using assms by (simp_all add: leader_ok_def)

lemma become_leader_ok:
  assumes "node_ok E s es"
  shows "node_ok E (become_leader s) es" and "leader_ok (become_leader s) es"
proof -
  note ok = node_okD [OF assms]
  have "VirtualLogIdx s (log_size s) = int (length es)" "1 \<le> int (length es)"
    using log_size_rep [OF assms] log_size_pos [OF assms] virtual_id [OF ok(6), of "log_size s"] by simp_all
  then show "node_ok E (become_leader s) es" and "leader_ok (become_leader s) es"
    using assms ok by (auto simp: become_leader_def Let_def node_ok_def leader_ok_def)
qed

lemma heartbeat_rep:
  assumes "node_ok E s es" and "leader_ok s es" and "i < length (cluster_configs s)"
  shows "heartbeat_args E s i = Inr (Some
    \<lparr>ae_term = currentTerm s, ae_leaderId = to_i32 (cur_node_id s),
     ae_prevLogIndex = nextIndex s ! i - 1, ae_prevLogTerm = e_term (es ! nat (nextIndex s ! i - 1)),
     ae_entries = drop (nat (nextIndex s ! i)) es, ae_leaderCommit = commitIndex s\<rparr>)"
proof -
  note ok = node_okD [OF assms(1)] and lead = leader_okD [OF assms(2,3)]
  let ?n = "nextIndex s ! i"
  have bound: "?n < 2 ^ 31 - 1" using lead(2) ok(3) by simp
  have prev: "to_u64 (?n - 1) = ?n - 1" "to_i32 (?n - 1) = ?n - 1"
    using lead(1) bound by (auto intro!: to_u64_small to_i32_id)
  have cur: "to_i32 ?n = ?n" and commit: "to_i32 (commitIndex s) = commitIndex s"
    using lead(1) bound ok(14,15) by (auto intro!: to_i32_id)
  have real: "RealLogIdx s ?n = ?n" "RealLogIdx s (?n - 1) = ?n - 1"
    using real_id [OF ok(6)] lead(1) bound by simp_all
  have t: "entry_term_at E (log s) (?n - 1) = Inr (e_term (es ! nat (?n - 1)))"
    using term_at_rep [OF ok(1)] lead(1,2) by simp
  have size: "logvec_size (log s) = length es" by (rule lv.size_rep [OF ok(1)])
  have "iter_collect (length es - nat ?n) E (log s) (iter_plus (logvec_begin (log s)) ?n) (logvec_end (log s))
      = Some (drop (nat ?n) es)"
    using collect_forward [OF ok(1), of "iter_plus (logvec_begin (log s)) ?n" "nat ?n"] ok(3) lead(1,2)
    by (simp add: iter_plus_def logvec_begin_def new_LogVecIterator_def to_i64_def nat_le_iff)
  moreover have "\<not> ?n - 1 < int (length es) - 1 \<Longrightarrow> drop (nat ?n) es = []"
    using lead(1,2) by simp
  ultimately show ?thesis
    using prev cur commit real t size ok(6,7) assms(3) lead(1) bound last_index_rep [OF assms(1)]
    by (simp add: heartbeat_args_def Let_def in_i32_def)
qed

text \<open>Replicas of index \<open>N\<close> other than the leader itself.\<close>

definition replicas :: "'f RaftNode \<Rightarrow> int \<Rightarrow> nat" where
  "replicas s N = length (filter (\<lambda>i. int i \<noteq> cur_node_id s \<and> N \<le> matchIndex s ! i)
     [0..<length (cluster_configs s)])"

lemma count_matches_rep:
  assumes "node_ok E s es" and "0 \<le> N" "N < int (length es)"
  shows "\<forall>i \<in> set is. i < length (cluster_configs s) \<Longrightarrow>
    count_matches E s N is c = Inr (c + (if e_term (es ! nat N) = currentTerm s
      then int (length (filter (\<lambda>i. int i \<noteq> cur_node_id s \<and> N \<le> matchIndex s ! i) is)) else 0))"
proof (induction "is" arbitrary: c)
  case (Cons i "is")
  note ok = node_okD [OF assms(1)]
  have N: "to_u64 N = N" "RealLogIdx s N = N"
    using assms(2,3) ok(3) real_id [OF ok(6)] by (simp_all add: machine_simps)
  have "entry_term_at E (log s) N = Inr (e_term (es ! nat N))"
    by (rule term_at_rep [OF ok(1) assms(2,3)])
  moreover have "i < length (matchIndex s)" using Cons.prems ok(8) by simp
  ultimately show ?case using Cons N by simp
qed simp

definition committable :: "'f RaftNode \<Rightarrow> Entry list \<Rightarrow> int \<Rightarrow> bool" where
  "committable s es N \<longleftrightarrow>
     length (cluster_configs s) div 2 < 1 + (if e_term (es ! nat N) = currentTerm s then replicas s N else 0)"

lemma replicas_bound: "replicas s N \<le> length (cluster_configs s)"
  unfolding replicas_def using length_filter_le [of _ "[0..<length (cluster_configs s)]"] by simp

lemma commit_search_spec:
  assumes "node_ok E s es"
  shows "0 \<le> N \<Longrightarrow> N < int (length es) \<Longrightarrow>
    \<exists>M. commit_search E s N = Inr M \<and> 0 \<le> M \<and> M \<le> N \<and> (commitIndex s \<le> N \<longrightarrow> commitIndex s \<le> M)
      \<and> (commitIndex s < M \<longrightarrow> committable s es M)"
proof (induction "nat N" arbitrary: N)
  case 0
  then have "N = 0" by simp
  then show ?case using node_okD(14) [OF assms] by (simp add: commit_search.simps to_u64_def)
next
  case (Suc n)
  note ok = node_okD [OF assms]
  have N: "0 < N" "to_u64 N = N" using Suc.hyps(2) Suc.prems ok(3) by (simp_all add: machine_simps)
  have count: "count_matches E s N [0..<length (cluster_configs s)] 1
      = Inr (1 + (if e_term (es ! nat N) = currentTerm s then int (replicas s N) else 0))" (is "_ = Inr ?c")
    using count_matches_rep [OF assms Suc.prems, of "[0..<length (cluster_configs s)]" 1]
    by (simp add: replicas_def)
  have c: "to_u64 ?c = ?c" using replicas_bound [of s N] ok(9) by (simp add: to_u64_def)
  have "n = nat (N - 1)" using Suc.hyps(2) by simp
  from Suc.hyps(1) [OF this] N Suc.prems obtain M where
    M: "commit_search E s (N - 1) = Inr M" "0 \<le> M" "M \<le> N - 1"
      "commitIndex s \<le> N - 1 \<longrightarrow> commitIndex s \<le> M" "commitIndex s < M \<longrightarrow> committable s es M" by auto
  have maj: "int (length (cluster_configs s) div 2) < ?c \<longleftrightarrow> committable s es N"
    by (simp add: committable_def) linarith
  show ?case
  proof (cases "commitIndex s < N")
    case True
    show ?thesis
    proof (cases "committable s es N")
      case True
      then have "commit_search E s N = Inr N"
        using count c maj N \<open>commitIndex s < N\<close> by (subst commit_search.simps) simp
      then show ?thesis using True Suc.prems \<open>commitIndex s < N\<close> by simp
    next
      case False
      then have "commit_search E s N = commit_search E s (N - 1)"
        using count c maj N \<open>commitIndex s < N\<close> by (subst commit_search.simps) simp
      then show ?thesis using M \<open>commitIndex s < N\<close> by auto
    qed
  next
    case False
    then have "commit_search E s N = Inr N" using N by (subst commit_search.simps) simp
    then show ?thesis using False Suc.prems by auto
  qed
qed

lemma handle_success_rep:
  assumes ok: "node_ok E s es" and lead: "leader_ok s es" and target: "target < length (cluster_configs s)"
    and prev: "0 \<le> ae_prevLogIndex args" and sent: "new_match args < int (length es)"
  shows "\<exists>s'. handle_success E s target args = Inr s'
    \<and> matchIndex s' = (matchIndex s)[target := max (matchIndex s ! target) (new_match args)]
    \<and> nextIndex s' = (nextIndex s)[target := max (matchIndex s ! target) (new_match args) + 1]
    \<and> (commitIndex s < int (length es) \<longrightarrow> commitIndex s \<le> commitIndex s') \<and> commitIndex s' < int (length es)
    \<and> (commitIndex s < commitIndex s' \<longrightarrow> committable s' es (commitIndex s'))
    \<and> node_ok E s' es \<and> leader_ok s' es"
proof -
  note n = node_okD [OF ok] and l = leader_okD [OF lead target]
  define m where "m = max (matchIndex s ! target) (new_match args)"
  let ?s1 = "s\<lparr>matchIndex := (matchIndex s)[target := m], nextIndex := (nextIndex s)[target := m + 1]\<rparr>"
  have nm: "0 \<le> new_match args" "new_match args < 2 ^ 31" "to_u64 (new_match args) = new_match args"
    using prev sent n(3) by (simp_all add: new_match_def machine_simps)
  have m: "0 \<le> m" "m < int (length es)" using l nm sent by (simp_all add: m_def)
  then have m64: "to_u64 (m + 1) = m + 1" using n(3) by (simp add: machine_simps)
  have ok1: "node_ok E ?s1 es" using ok by (simp add: node_ok_def)
  have lead1: "leader_ok ?s1 es"
    using lead m n(7,8) target by (auto simp: leader_ok_def nth_list_update)
  have pos: "0 \<le> int (length es) - 1" using n(2) by (simp add: Suc_leI)
  have last: "to_i32 (VirtualLogIdx ?s1 (log_size ?s1 - 1)) = int (length es) - 1"
    using last_index_rep [OF ok1] n(3) pos by (simp add: to_i32_id)
  from commit_search_spec [OF ok1 pos] obtain M where
    M: "commit_search E ?s1 (int (length es) - 1) = Inr M" "0 \<le> M" "M \<le> int (length es) - 1"
      "commitIndex s < int (length es) \<longrightarrow> commitIndex s \<le> M" "commitIndex s < M \<longrightarrow> committable ?s1 es M"
    by auto
  have M64: "to_u64 M = M" using M(2,3) n(3) by (simp add: machine_simps)
  let ?s' = "?s1\<lparr>commitIndex := M\<rparr>"
  have max: "(if matchIndex s ! target < new_match args then new_match args else matchIndex s ! target) = m"
    by (simp add: m_def)
  have range: "in_i32 (new_match args)" using nm by (simp add: in_i32_def)
  have at: "vec_at (matchIndex s) target = Inr (matchIndex s ! target)"
    "vec_at (nextIndex s) target = Inr (nextIndex s ! target)" using target n(7,8) by simp_all
  have run: "handle_success E s target args = Inr ?s'"
    by (simp only: handle_success_def new_match_def [symmetric] Let_def range at rbind_simps nm(3) max m64
        last M(1) M64 not_True_eq_False if_False)
  have "node_ok E ?s' es" using ok1 M(2,3) n(3) by (simp add: node_ok_def)
  moreover have "leader_ok ?s' es" using lead1 by (simp add: leader_ok_def)
  moreover have "committable ?s' es M = committable ?s1 es M" by (simp add: committable_def replicas_def)
  ultimately show ?thesis using run M by (auto simp: m_def)
qed

lemma rollback_search_spec:
  assumes "node_ok E s es" and "0 \<le> x"
  shows "0 \<le> i \<Longrightarrow> i < int (length es) \<Longrightarrow>
    \<exists>j. rollback_search E s x i = Inr j \<and> 0 \<le> j \<and> j \<le> i \<and> e_term (es ! nat j) \<le> x"
proof (induction "nat i" arbitrary: i)
  case 0
  then have "i = 0" by simp
  then show ?case using node_okD(4,6) [OF assms(1)] assms(2)
    by (simp add: rollback_search.simps to_u64_def)
next
  case (Suc n)
  note ok = node_okD [OF assms(1)]
  have i: "0 < i" "i < 2 ^ 31" "to_u64 i = i"
    using Suc.hyps(2) Suc.prems ok(3) by (simp_all add: machine_simps)
  have t: "entry_term_at E (log s) (RealLogIdx s i) = Inr (e_term (es ! nat i))"
    using term_at_rep [OF ok(1) Suc.prems] real_id [OF ok(6) Suc.prems(1) i(2)] by simp
  have "n = nat (i - 1)" using Suc.hyps(2) by simp
  from Suc.hyps(1) [OF this] i Suc.prems obtain j where
    "rollback_search E s x (i - 1) = Inr j" "0 \<le> j" "j \<le> i - 1" "e_term (es ! nat j) \<le> x" by auto
  with t i ok(6) show ?case by (subst rollback_search.simps) simp
qed

text \<open>
  Where the leader goes on after a conflict answer: the length of a log that is too short, its
  own last entry of the conflicting term, or the index the follower names.
\<close>

lemma rollback_next_cases:
  assumes ok: "node_ok E s es" and lead: "leader_ok s es" and target: "target < length (cluster_configs s)"
    and short: "aer_xTerm reply = -1 \<Longrightarrow> 1 \<le> aer_xLen reply \<and> aer_xLen reply < 2 ^ 31"
    and conflict: "aer_xTerm reply \<noteq> -1 \<Longrightarrow> 0 \<le> aer_xTerm reply
      \<and> 1 \<le> aer_xIndex reply \<and> aer_xIndex reply < 2 ^ 31"
  shows "\<exists>m. rollback_next E s target reply = Inr m
    \<and> (if aer_xTerm reply = -1 then m = aer_xLen reply
       else m = aer_xIndex reply
         \<or> (\<exists>j. 0 \<le> j \<and> j \<le> nextIndex s ! target - 1 \<and> e_term (es ! nat j) = aer_xTerm reply \<and> m = j + 1))"
proof -
  note n = node_okD [OF ok] and l = leader_okD [OF lead target]
  let ?n = "nextIndex s ! target"
  have bound: "?n < 2 ^ 31 - 1" using l(2) n(3) by simp
  show ?thesis
  proof (cases "aer_xTerm reply = -1")
    case True
    with short have "to_u64 (aer_xLen reply) = aer_xLen reply" by (auto intro!: to_u64_small)
    with True short n(6) show ?thesis by (auto simp: rollback_next_def)
  next
    case False
    note c = conflict [OF False]
    have i0: "to_i32 (to_u64 (?n - 1)) = ?n - 1" "to_u64 (?n - 1) = ?n - 1"
      using l(1) bound by (simp_all add: to_u64_small to_i32_id)
    have r: "0 \<le> ?n - 1" "?n - 1 < int (length es)" using l(1,2) by simp_all
    from rollback_search_spec [OF ok _ r] c obtain j where
      j: "rollback_search E s (aer_xTerm reply) (?n - 1) = Inr j" "0 \<le> j" "j \<le> ?n - 1"
        "e_term (es ! nat j) \<le> aer_xTerm reply" by blast
    have u: "to_u64 (j + 1) = j + 1" "in_i32 (j + 1)" "to_u64 (aer_xIndex reply) = aer_xIndex reply"
      using j bound c by (auto simp: in_i32_def intro!: to_u64_small)
    have t: "entry_term_at E (log s) (RealLogIdx s j) = Inr (e_term (es ! nat j))"
      using term_at_rep [OF n(1) j(2)] real_id [OF n(6) j(2)] j(3) r(2) bound by simp
    show ?thesis using False i0 j t u c n(6,7) target l(1)
      by (auto simp: rollback_next_def Let_def)
  qed
qed

text \<open>A conflict answer to the message the leader would send now moves \<open>nextIndex\<close> strictly down.\<close>

lemma rollback_next_rep:
  assumes ok: "node_ok E s es" and lead: "leader_ok s es" and target: "target < length (cluster_configs s)"
    and short: "aer_xTerm reply = -1 \<Longrightarrow> 1 \<le> aer_xLen reply \<and> aer_xLen reply < nextIndex s ! target"
    and conflict: "aer_xTerm reply \<noteq> -1 \<Longrightarrow> 0 \<le> aer_xTerm reply
      \<and> aer_xTerm reply \<noteq> e_term (es ! nat (nextIndex s ! target - 1))
      \<and> 1 \<le> aer_xIndex reply \<and> aer_xIndex reply < nextIndex s ! target"
  shows "\<exists>m. rollback_next E s target reply = Inr m \<and> 1 \<le> m \<and> m < nextIndex s ! target"
proof -
  have bound: "nextIndex s ! target < 2 ^ 31" using leader_okD(2) [OF lead target] node_okD(3) [OF ok] by simp
  obtain m where m: "rollback_next E s target reply = Inr m"
    "if aer_xTerm reply = -1 then m = aer_xLen reply
       else m = aer_xIndex reply
         \<or> (\<exists>j. 0 \<le> j \<and> j \<le> nextIndex s ! target - 1 \<and> e_term (es ! nat j) = aer_xTerm reply \<and> m = j + 1)"
    using rollback_next_cases [OF ok lead target, of reply] short conflict bound by force
  show ?thesis
  proof (cases "aer_xTerm reply = -1")
    case True
    with m short show ?thesis by simp
  next
    case False
    with m(2) conflict [OF False] have "1 \<le> m \<and> m < nextIndex s ! target"
      by (auto simp: order.order_iff_strict)
    with m(1) show ?thesis by blast
  qed
qed

section \<open>Leader and follower together\<close>

text \<open>
  Log Matching: two logs with entries of the same term at an index agree up to that index.
\<close>

definition log_match :: "Entry list \<Rightarrow> Entry list \<Rightarrow> bool" where
  "log_match xs ys \<longleftrightarrow>
     (\<forall>i < min (length xs) (length ys). e_term (xs ! i) = e_term (ys ! i) \<longrightarrow> take (Suc i) xs = take (Suc i) ys)"

lemma log_matchD:
  "log_match xs ys \<Longrightarrow> i < length xs \<Longrightarrow> i < length ys \<Longrightarrow> e_term (xs ! i) = e_term (ys ! i) \<Longrightarrow>
    take (Suc i) xs = take (Suc i) ys"
  by (simp add: log_match_def)

text \<open>Merging the rest of a matching log gives that log, or changes nothing because it is there.\<close>

lemma merge_of_log:
  assumes "log_match es L"
  shows "i \<le> length es \<Longrightarrow> i \<le> length L \<Longrightarrow> take i es = take i L \<Longrightarrow>
    merge_spec es i (drop i L) = L \<or> merge_spec es i (drop i L) = es \<and> take (length L) es = L"
proof (induction "length L - i" arbitrary: i)
  case 0
  then show ?case by simp
next
  case (Suc n)
  then have i: "i < length L" by simp
  have drop: "drop i L = L ! i # drop (Suc i) L" by (rule Cons_nth_drop_Suc [OF i, symmetric])
  have all: "take i es @ drop i L = L" using Suc.prems(3) by simp
  show ?case
  proof (cases "i < length es \<and> e_term (es ! i) = e_term (L ! i)")
    case True
    then have "take (Suc i) es = take (Suc i) L" using log_matchD [OF assms] i by simp
    with Suc.hyps(1) [of "Suc i"] Suc.hyps(2) True i show ?thesis by (simp add: drop)
  next
    case False
    then have "merge_spec es i (drop i L) = take i es @ drop i L"
      using Suc.prems(1) unfolding drop by auto
    with all show ?thesis by simp
  qed
qed

lemma heartbeat_args_ok:
  assumes "node_ok E s L" and "leader_ok s L" and "i < length (cluster_configs s)"
    and "heartbeat_args E s i = Inr (Some args)"
  shows "args_ok args" and "ae_prevLogIndex args < int (length L)" and "new_match args = int (length L) - 1"
    and "ae_term args = currentTerm s" and "ae_entries args = drop (Suc (nat (ae_prevLogIndex args))) L"
    and "ae_prevLogIndex args = nextIndex s ! i - 1"
    and "ae_prevLogTerm args = e_term (L ! nat (nextIndex s ! i - 1))"
proof -
  note n = node_okD [OF assms(1)] and l = leader_okD [OF assms(2,3)]
  have args: "args = \<lparr>ae_term = currentTerm s, ae_leaderId = to_i32 (cur_node_id s),
     ae_prevLogIndex = nextIndex s ! i - 1, ae_prevLogTerm = e_term (L ! nat (nextIndex s ! i - 1)),
     ae_entries = drop (nat (nextIndex s ! i)) L, ae_leaderCommit = commitIndex s\<rparr>"
    using heartbeat_rep [OF assms(1-3)] assms(4) by simp
  show "args_ok args" using args n l by (auto simp: args_ok_def dest: in_set_dropD)
  show "ae_prevLogIndex args < int (length L)" "new_match args = int (length L) - 1"
    "ae_term args = currentTerm s" "ae_prevLogIndex args = nextIndex s ! i - 1"
    "ae_prevLogTerm args = e_term (L ! nat (nextIndex s ! i - 1))"
    using args l by (simp_all add: new_match_def)
  have "Suc (nat (nextIndex s ! i - 1)) = nat (nextIndex s ! i)" using l(1) by simp
  then show "ae_entries args = drop (Suc (nat (ae_prevLogIndex args))) L" using args by simp
qed

lemma room_drop: "logvec_room E lg L \<Longrightarrow> logvec_room E lg (drop k L)"
proof -
  assume a: "logvec_room E lg L"
  have "length (concat (map (encode_entry E) (drop k L))) \<le> length (concat (map (encode_entry E) L))"
    using append_take_drop_id [of k L] by (metis concat_append length_append map_append le_add2)
  with a show ?thesis by (auto simp: logvec_room_def dest: in_set_dropD)
qed

lemma replicate_success:
  assumes s: "node_ok E s L" "leader_ok s L" "i < length (cluster_configs s)"
    and f: "node_ok E f es" "log_match es L" "currentTerm f \<le> currentTerm s" "logvec_room E (log f) L"
    and args: "heartbeat_args E s i = Inr (Some args)" and prev: "prev_matches es args"
  shows "\<exists>f' reply es'. AppendEntries E c f args = Inr (f', reply) \<and> aer_success reply
    \<and> aer_term reply = currentTerm s \<and> node_ok E f' es' \<and> take (length L) es' = L"
proof -
  note a = heartbeat_args_ok [OF s args]
  let ?p = "nat (ae_prevLogIndex args)"
  have room: "logvec_room E (log f) (ae_entries args)" unfolding a(5) by (rule room_drop [OF f(4)])
  have p: "?p < length es" "?p < length L" "e_term (es ! ?p) = e_term (L ! ?p)"
    using prev a args_ok_def [of args] by (auto simp: prev_matches_def nat_less_iff)
  then have "take (Suc ?p) es = take (Suc ?p) L" by (intro log_matchD [OF f(2)])
  from merge_of_log [OF f(2) _ _ this] p have
    "merge_spec es (Suc ?p) (ae_entries args) = L \<or>
     merge_spec es (Suc ?p) (ae_entries args) = es \<and> take (length L) es = L"
    unfolding a(5) by simp
  then have "take (length L) (merge_spec es (Suc ?p) (ae_entries args)) = L" by auto
  with append_success [OF f(1) a(1) room _ prev, of c] a(4) f(3) show ?thesis by auto
qed

text \<open>
  One exchange: the leader's message of a heartbeat round, the follower's handler, and the leader's
  handling of the reply; and exchanges until the first success, at most \<open>k\<close> of them.
\<close>

definition exchange ::
  "'f store_env \<Rightarrow> tick \<Rightarrow> nat \<Rightarrow> 'f RaftNode \<Rightarrow> 'f RaftNode \<Rightarrow> raft_error + ('f RaftNode \<times> 'f RaftNode \<times> bool)" where
  "exchange E c target s f =
     rbind (heartbeat_args E s target) (\<lambda>a.
       case a of
         None \<Rightarrow> Inr (s, f, False)
       | Some args \<Rightarrow>
           rbind (AppendEntries E c f args) (\<lambda>(f', reply).
           rbind (handleAppendEntries E c s target args (Some reply)) (\<lambda>s'.
             Inr (s', f', aer_success reply))))"

primrec repair ::
  "nat \<Rightarrow> 'f store_env \<Rightarrow> tick \<Rightarrow> nat \<Rightarrow> 'f RaftNode \<Rightarrow> 'f RaftNode
     \<Rightarrow> raft_error + ('f RaftNode \<times> 'f RaftNode \<times> bool)" where
  "repair 0 E c target s f = Inr (s, f, False)"
| "repair (Suc k) E c target s f =
     rbind (exchange E c target s f) (\<lambda>(s', f', ok).
       if ok then Inr (s', f', True) else repair k E c target s' f')"

lemma exchange_conflict:
  assumes s: "node_ok E s L" "leader_ok s L" "i < length (cluster_configs s)" "role s = LEADER"
    and f: "node_ok E f es" "currentTerm f \<le> currentTerm s"
    and agree: "take (Suc (nat (commitIndex f))) es = take (Suc (nat (commitIndex f))) L"
    and args: "heartbeat_args E s i = Inr (Some args)" and prev: "\<not> prev_matches es args"
  shows "\<exists>m f'. exchange E c i s f = Inr (s\<lparr>nextIndex := (nextIndex s)[i := m]\<rparr>, f', False)
    \<and> 1 \<le> m \<and> m < nextIndex s ! i \<and> node_ok E f' es \<and> log f' = log f
    \<and> commitIndex f' = commitIndex f \<and> currentTerm f' = currentTerm s"
proof -
  note a = heartbeat_args_ok [OF s(1-3) args]
  let ?p = "ae_prevLogIndex args"
  have p0: "0 \<le> ?p" using a(1) by (simp add: args_ok_def)
  obtain f' reply where r: "AppendEntries E c f args = Inr (f', reply)" "\<not> aer_success reply"
      "aer_term reply = currentTerm s" "currentTerm f' = currentTerm s" "log f' = log f"
      "commitIndex f' = commitIndex f" "node_ok E f' es"
    and x: "if int (length es) \<le> ?p then aer_xTerm reply = -1 \<and> aer_xLen reply = int (length es)
       else aer_xTerm reply = e_term (es ! nat ?p)
          \<and> aer_xTerm reply \<noteq> ae_prevLogTerm args
          \<and> 1 \<le> aer_xIndex reply \<and> aer_xIndex reply \<le> ?p + 1
          \<and> (commitIndex f < ?p \<longrightarrow> aer_xIndex reply \<le> ?p)"
    using append_conflict [OF f(1) a(1) _ prev, of c] f(2) a(4) by auto
  have above: "\<not> int (length es) \<le> ?p \<Longrightarrow> commitIndex f < ?p"
  proof (rule ccontr)
    assume "\<not> int (length es) \<le> ?p" "\<not> commitIndex f < ?p"
    then have "nat ?p < Suc (nat (commitIndex f))" using p0 by simp
    then have "es ! nat ?p = L ! nat ?p" using agree by (metis nth_take)
    with prev \<open>\<not> int (length es) \<le> ?p\<close> a(6,7) show False by (simp add: prev_matches_def)
  qed
  have pos: "1 \<le> int (length es)" and nonneg: "\<not> int (length es) \<le> ?p \<Longrightarrow> 0 \<le> e_term (es ! nat ?p)"
    using node_okD(2,5) [OF f(1)] p0 by (simp_all add: Suc_leI nat_less_iff)
  from rollback_next_rep [OF s(1-3), of reply] x above pos nonneg a(6,7)
  obtain m where m: "rollback_next E s i reply = Inr m" "1 \<le> m" "m < nextIndex s ! i"
    by (cases "int (length es) \<le> ?p") auto
  have "i < length (nextIndex s)" using s(3) node_okD(7) [OF s(1)] by simp
  then have "exchange E c i s f = Inr (s\<lparr>nextIndex := (nextIndex s)[i := m]\<rparr>, f', False)"
    using args r m s(4) a(4) by (simp add: exchange_def handleAppendEntries_def)
  with r m show ?thesis by blast
qed

lemma exchange_success:
  assumes s: "node_ok E s L" "leader_ok s L" "i < length (cluster_configs s)" "role s = LEADER"
      "commitIndex s < int (length L)"
    and f: "node_ok E f es" "log_match es L" "currentTerm f \<le> currentTerm s" "logvec_room E (log f) L"
    and args: "heartbeat_args E s i = Inr (Some args)" and prev: "prev_matches es args"
  shows "\<exists>s' f' es'. exchange E c i s f = Inr (s', f', True)
    \<and> node_ok E f' es' \<and> take (length L) es' = L \<and> matchIndex s' ! i = int (length L) - 1"
proof -
  note a = heartbeat_args_ok [OF s(1-3) args]
  obtain f' reply es' where r: "AppendEntries E c f args = Inr (f', reply)" "aer_success reply"
      "node_ok E f' es'" "take (length L) es' = L"
    using replicate_success [OF s(1-3) f args prev, of c] by blast
  have "0 \<le> ae_prevLogIndex args" "new_match args < int (length L)"
    using a(1,3) by (simp_all add: args_ok_def)
  from handle_success_rep [OF s(1-3) this] obtain s' where
    s': "handle_success E s i args = Inr s'"
      "matchIndex s' = (matchIndex s)[i := max (matchIndex s ! i) (new_match args)]" by blast
  have "matchIndex s' ! i = int (length L) - 1"
    using s'(2) a(3) leader_okD(4) [OF s(2,3)] s(3) node_okD(8) [OF s(1)] by simp
  moreover have "exchange E c i s f = Inr (s', f', True)"
    using args r s' s(4) a(4) by (simp add: exchange_def handleAppendEntries_def)
  ultimately show ?thesis using r by blast
qed

lemma repair_ends:
  assumes "node_ok E s L" "leader_ok s L" "i < length (cluster_configs s)" "role s = LEADER"
      "commitIndex s < int (length L)"
    and "node_ok E f es" "log_match es L" "currentTerm f \<le> currentTerm s" "logvec_room E (log f) L"
    and "take (Suc (nat (commitIndex f))) es = take (Suc (nat (commitIndex f))) L"
    and "nat (nextIndex s ! i) \<le> k"
  shows "\<exists>s' f' es'. repair k E c i s f = Inr (s', f', True)
    \<and> node_ok E f' es' \<and> take (length L) es' = L \<and> matchIndex s' ! i = int (length L) - 1"
  using assms
proof (induction k arbitrary: s f)
  case 0
  then show ?case using leader_okD(1) [OF 0(2,3)] by simp
next
  case (Suc k)
  obtain args where args: "heartbeat_args E s i = Inr (Some args)"
    using heartbeat_rep [OF Suc.prems(1-3)] by blast
  show ?case
  proof (cases "prev_matches es args")
    case True
    from exchange_success [OF Suc.prems(1-9) args True, of c] show ?thesis by auto
  next
    case False
    obtain m f' where m: "exchange E c i s f = Inr (s\<lparr>nextIndex := (nextIndex s)[i := m]\<rparr>, f', False)"
        "1 \<le> m" "m < nextIndex s ! i" and f': "node_ok E f' es" "log f' = log f"
        "commitIndex f' = commitIndex f" "currentTerm f' = currentTerm s"
      using exchange_conflict [OF Suc.prems(1-4,6,8,10) args False, of c] by blast
    let ?s = "s\<lparr>nextIndex := (nextIndex s)[i := m]\<rparr>"
    have len: "i < length (nextIndex s)" using Suc.prems(3) node_okD(7) [OF Suc.prems(1)] by simp
    have 1: "node_ok E ?s L" using Suc.prems(1) by (simp add: node_ok_def)
    have "nextIndex s ! i \<le> int (length L)" by (rule leader_okD(2) [OF Suc.prems(2,3)])
    then have 2: "leader_ok ?s L"
      using Suc.prems(2) m(2,3) len by (auto simp: leader_ok_def nth_list_update)
    have "nat (nextIndex ?s ! i) \<le> k" using m(2,3) Suc.prems(11) len by simp
    with Suc.IH [OF 1 2 _ _ _ f'(1) Suc.prems(7)] Suc.prems(3-5,9,10) f' m(1) show ?thesis by simp
  qed
qed

lemma heartbeat_all_rep:
  assumes "node_ok E s L" and "leader_ok s L"
  shows "\<forall>i \<in> set is. i < length (cluster_configs s) \<Longrightarrow>
    \<exists>msgs. heartbeat_all E s is = Inr msgs \<and> map fst msgs = filter (\<lambda>i. int i \<noteq> cur_node_id s) is
      \<and> (\<forall>(i, args) \<in> set msgs. heartbeat_args E s i = Inr (Some args))"
proof (induction "is")
  case (Cons i "is")
  then obtain msgs where "heartbeat_all E s is = Inr msgs"
      "map fst msgs = filter (\<lambda>i. int i \<noteq> cur_node_id s) is"
      "\<forall>(i, args) \<in> set msgs. heartbeat_args E s i = Inr (Some args)" by auto
  with heartbeat_rep [OF assms, of i] Cons.prems show ?case by simp
qed simp

section \<open>A sample leader\<close>

definition sample_leader :: "bytes RaftNode" where
  "sample_leader = become_leader (sample_node\<lparr>log := sample_log, currentTerm := 1\<rparr>)"

lemma sample_leader_ok:
  "node_ok mem_env sample_leader [default_Entry, sample_entry]"
  "leader_ok sample_leader [default_Entry, sample_entry]"
  "role sample_leader = LEADER" "currentTerm sample_leader = 1" "commitIndex sample_leader = 0"
  "length (cluster_configs sample_leader) = 3"
proof -
  have fine: "log_fine [default_Entry, sample_entry]"
    by (simp add: log_fine_def default_Entry_def sample_entry_def)
  have "node_ok mem_env (sample_node\<lparr>log := sample_log\<rparr>) [default_Entry, sample_entry]"
    by (rule node_ok_log [OF sample_node_ok rep_sample fine])
  then have "node_ok mem_env (sample_node\<lparr>log := sample_log, currentTerm := 1\<rparr>) [default_Entry, sample_entry]"
    by (simp add: node_ok_def)
  note become_leader_ok [OF this]
  then show "node_ok mem_env sample_leader [default_Entry, sample_entry]"
    "leader_ok sample_leader [default_Entry, sample_entry]" by (simp_all add: sample_leader_def)
  show "role sample_leader = LEADER" "currentTerm sample_leader = 1" "commitIndex sample_leader = 0"
    "length (cluster_configs sample_leader) = 3"
    by (simp_all add: sample_leader_def become_leader_def sample_node_def new_RaftNode_def Let_def
        sample_configs_def)
qed

lemma sample_match: "log_match [default_Entry] [default_Entry, sample_entry]"
  by (simp add: log_match_def)

lemma sample_node_room: "logvec_room mem_env (log sample_node) [default_Entry, sample_entry]"
proof -
  have "f_content mem_env (lv_data_file (log sample_node)) = []"
    using rep_facts(4) [OF node_okD(1) [OF sample_node_ok]]
    by (simp add: encode_entry_def mem_env_def default_length)
  then show ?thesis
    by (simp add: logvec_room_def encode_entry_def default_length)
      (simp add: mem_env_def default_entry_ok sample_entry_ok sample_length default_length)
qed

section \<open>Properties\<close>

text \<open>
  C9. \<open>AppendEntries\<close> always answers. It succeeds exactly when the term is not older and the
  follower has an entry of the given term at the previous index. Then the log up to that index is kept. As
  long as the new entries have the terms of the entries that follow it, these stay; from the first new
  entry that has another term, or for which there is none, the rest of the log is replaced by the
  new entries themselves. Without success the log stays as it was.
\<close>

theorem append_entries_outcome:
  assumes "node_ok E s es" and "args_ok args" and "logvec_room E (log s) (ae_entries args)"
  shows "\<exists>s' reply es'. AppendEntries E c s args = Inr (s', reply) \<and> node_ok E s' es'
    \<and> (aer_success reply \<longleftrightarrow> currentTerm s \<le> ae_term args \<and> prev_matches es args)
    \<and> aer_term reply = max (currentTerm s) (ae_term args) \<and> currentTerm s' = aer_term reply
    \<and> (let i = Suc (nat (ae_prevLogIndex args)) in
       if aer_success reply
       then merged es i (ae_entries args) es' \<and> take i es' = take i es
          \<and> (\<forall>k < length (ae_entries args). i + k < length es' \<and> e_term (es' ! (i + k)) = e_term (ae_entries args ! k))
          \<and> (i + length (ae_entries args) \<le> length es
               \<and> (\<forall>k < length (ae_entries args). e_term (es ! (i + k)) = e_term (ae_entries args ! k)) \<longrightarrow> es' = es)
       else es' = es)"
proof (cases "ae_term args < currentTerm s")
  case True
  then show ?thesis using assms(1) by (simp add: append_stale default_AppendEntriesReply_def)
next
  case False
  then have new: "currentTerm s \<le> ae_term args" by simp
  show ?thesis
  proof (cases "prev_matches es args")
    case True
    let ?i = "Suc (nat (ae_prevLogIndex args))"
    have i: "?i \<le> length es" using True assms(2) by (simp add: prev_matches_def args_ok_def Suc_le_eq nat_less_iff)
    from append_success [OF assms new True, of c] obtain s' reply where
      "AppendEntries E c s args = Inr (s', reply)" "aer_success reply" "aer_term reply = ae_term args"
      "currentTerm s' = ae_term args" "node_ok E s' (merge_spec es ?i (ae_entries args))" by blast
    with True new merge_merged [OF i] merge_prefix [OF i] merge_agrees [OF i] merge_same [of ?i _ es] show ?thesis
      by (simp add: Let_def del: merge_spec.simps) metis
  next
    case False
    with append_conflict [OF assms(1,2) new False, of c] new show ?thesis by (auto simp: Let_def)
  qed
qed

definition sample_append :: AppendEntriesArgs where
  "sample_append = \<lparr>ae_term = 1, ae_leaderId = 1, ae_prevLogIndex = 0, ae_prevLogTerm = 0,
     ae_entries = [sample_entry], ae_leaderCommit = 0\<rparr>"

theorem append_entries_outcome_witness:
  "\<exists>s' reply. AppendEntries mem_env \<lparr>now = 5, rnd = 9\<rparr> sample_node sample_append = Inr (s', reply)
    \<and> aer_success reply \<and> node_ok mem_env s' [default_Entry, sample_entry]"
proof -
  have "logvec_room mem_env (log sample_node) (drop 1 [default_Entry, sample_entry])"
    by (rule room_drop [OF sample_node_room])
  then have "logvec_room mem_env (log sample_node) (ae_entries sample_append)"
    by (simp add: sample_append_def)
  moreover have "args_ok sample_append" by (simp add: args_ok_def sample_append_def sample_entry_def)
  moreover have "currentTerm sample_node \<le> ae_term sample_append" "prev_matches [default_Entry] sample_append"
    by (simp_all add: sample_append_def prev_matches_def default_Entry_def sample_node_def new_RaftNode_def)
  ultimately obtain s' reply es' where
    "AppendEntries mem_env \<lparr>now = 5, rnd = 9\<rparr> sample_node sample_append = Inr (s', reply)"
    "node_ok mem_env s' es'" "aer_success reply"
    "merged [default_Entry] (Suc (nat (ae_prevLogIndex sample_append))) (ae_entries sample_append) es'"
    using append_entries_outcome [OF sample_node_ok, of sample_append "\<lparr>now = 5, rnd = 9\<rparr>"] by (auto simp: Let_def)
  moreover from this(4) have "es' = [default_Entry, sample_entry]"
    by (auto simp: merged_def sample_append_def le_Suc_eq)
  ultimately show ?thesis by blast
qed

text \<open>
  C12. A heartbeat round of a leader never fails: it sends every other node one message, with the
  leader's term, the entries from that node's \<open>nextIndex\<close> on, and the term of the entry before them.
\<close>

theorem heartbeat_round_complete:
  assumes "node_ok E s L" and "leader_ok s L" and "role s = LEADER"
  shows "\<exists>s' msgs. SendHeartBeats_round E c s = Inr (Some (s', msgs))
    \<and> map fst msgs = filter (\<lambda>i. int i \<noteq> cur_node_id s) [0..<length (cluster_configs s)]
    \<and> (\<forall>(i, args) \<in> set msgs. ae_term args = currentTerm s
        \<and> ae_prevLogIndex args = nextIndex s ! i - 1 \<and> ae_entries args = drop (nat (nextIndex s ! i)) L
        \<and> ae_prevLogTerm args = e_term (L ! nat (nextIndex s ! i - 1)))"
proof -
  obtain msgs where msgs: "heartbeat_all E s [0..<length (cluster_configs s)] = Inr msgs"
      "map fst msgs = filter (\<lambda>i. int i \<noteq> cur_node_id s) [0..<length (cluster_configs s)]"
      "\<forall>(i, args) \<in> set msgs. heartbeat_args E s i = Inr (Some args)"
    using heartbeat_all_rep [OF assms(1,2), of "[0..<length (cluster_configs s)]"] by auto
  have peer: "i < length (cluster_configs s)" if "(i, args) \<in> set msgs" for i args
  proof -
    have "i \<in> set (map fst msgs)" using that by force
    then show ?thesis unfolding msgs(2) by simp
  qed
  have "\<forall>(i, args) \<in> set msgs. ae_term args = currentTerm s
        \<and> ae_prevLogIndex args = nextIndex s ! i - 1 \<and> ae_entries args = drop (nat (nextIndex s ! i)) L
        \<and> ae_prevLogTerm args = e_term (L ! nat (nextIndex s ! i - 1))"
    using msgs(3) peer heartbeat_rep [OF assms(1,2)] by fastforce
  with msgs(1,2) assms(3) show ?thesis by (simp add: SendHeartBeats_round_def)
qed

theorem heartbeat_round_complete_witness:
  "\<exists>s' msgs. SendHeartBeats_round mem_env \<lparr>now = 5, rnd = 9\<rparr> sample_leader = Inr (Some (s', msgs))
    \<and> map fst msgs = filter (\<lambda>i. int i \<noteq> cur_node_id sample_leader) [0..<length (cluster_configs sample_leader)]"
  using heartbeat_round_complete [OF sample_leader_ok(1-3), of "\<lparr>now = 5, rnd = 9\<rparr>"] by blast

text \<open>
  C10. A success reply moves the leader's record of that follower forward and the commit index never
  back; if the commit index advances, the entry there is of the leader's own term and a majority
  of the cluster, the leader included, has it.
\<close>

theorem commit_needs_majority:
  assumes "node_ok E s L" "leader_ok s L" "role s = LEADER" "commitIndex s < int (length L)"
    and "target < length (cluster_configs s)" "int target \<noteq> cur_node_id s"
    and "ae_term args = currentTerm s" "0 \<le> ae_prevLogIndex args" "new_match args < int (length L)"
    and "aer_success reply"
  shows "\<exists>s'. handleAppendEntries E c s target args (Some reply) = Inr s'
    \<and> matchIndex s' ! target = max (matchIndex s ! target) (new_match args)
    \<and> nextIndex s' ! target = matchIndex s' ! target + 1
    \<and> commitIndex s \<le> commitIndex s' \<and> commitIndex s' < int (length L)
    \<and> (commitIndex s < commitIndex s' \<longrightarrow> e_term (L ! nat (commitIndex s')) = currentTerm s
         \<and> length (cluster_configs s) < 2 * (1 + replicas s' (commitIndex s')))
    \<and> node_ok E s' L \<and> leader_ok s' L"
proof -
  obtain s' where s': "handle_success E s target args = Inr s'"
      "matchIndex s' = (matchIndex s)[target := max (matchIndex s ! target) (new_match args)]"
      "nextIndex s' = (nextIndex s)[target := max (matchIndex s ! target) (new_match args) + 1]"
      "commitIndex s \<le> commitIndex s'" "commitIndex s' < int (length L)"
      "commitIndex s < commitIndex s' \<longrightarrow> committable s' L (commitIndex s')"
      "node_ok E s' L" "leader_ok s' L"
    using handle_success_rep [OF assms(1,2,5,8,9)] assms(4) by blast
  note keep = handle_success_keeps [OF s'(1)] and n = node_okD [OF assms(1)]
  have run: "handleAppendEntries E c s target args (Some reply) = Inr s'"
    using assms(3,7,10) s'(1) by (simp add: handleAppendEntries_def)
  have two: "2 \<le> length (cluster_configs s)" using assms(5,6) n(10,11) by linarith
  have "e_term (L ! nat (commitIndex s')) = currentTerm s
      \<and> length (cluster_configs s) < 2 * (1 + replicas s' (commitIndex s'))"
    if "commitIndex s < commitIndex s'"
  proof -
    have c: "committable s' L (commitIndex s')" using s'(6) that by simp
    have t: "e_term (L ! nat (commitIndex s')) = currentTerm s"
    proof (rule ccontr)
      assume "e_term (L ! nat (commitIndex s')) \<noteq> currentTerm s"
      then have "length (cluster_configs s) div 2 < 1" using c keep by (simp add: committable_def)
      with two show False by simp
    qed
    with c keep show ?thesis by (auto simp: committable_def)
  qed
  with run s' n(7,8) assms(5) show ?thesis by auto
qed

theorem commit_needs_majority_witness:
  "\<exists>s'. handleAppendEntries mem_env \<lparr>now = 5, rnd = 9\<rparr> sample_leader 1 sample_append
      (Some (default_AppendEntriesReply\<lparr>aer_term := 1, aer_success := True\<rparr>)) = Inr s'
    \<and> matchIndex s' ! 1 = max (matchIndex sample_leader ! 1) 1"
proof -
  have "cur_node_id sample_leader = 0"
    by (simp add: sample_leader_def become_leader_def sample_node_def new_RaftNode_def Let_def)
  then show ?thesis
    using commit_needs_majority [OF sample_leader_ok(1-3), of 1 sample_append
        "default_AppendEntriesReply\<lparr>aer_term := 1, aer_success := True\<rparr>" "\<lparr>now = 5, rnd = 9\<rparr>"]
    by (auto simp: sample_leader_ok sample_append_def new_match_def)
qed

text \<open>
  C8. Replication makes progress: if leader and follower exchange messages undisturbed, each
  refusal moves the leader's \<open>nextIndex\<close> for that follower strictly down, so after at most as many
  rounds as its initial value a call succeeds, and the follower then has the leader's whole log as
  a prefix of its own and the leader knows it.
\<close>

theorem repair_terminates:
  assumes "node_ok E s L" "leader_ok s L" "i < length (cluster_configs s)" "role s = LEADER"
      "commitIndex s < int (length L)"
    and "node_ok E f es" "log_match es L" "currentTerm f \<le> currentTerm s" "logvec_room E (log f) L"
    and "take (Suc (nat (commitIndex f))) es = take (Suc (nat (commitIndex f))) L"
  shows "\<exists>s' f' es'. repair (nat (nextIndex s ! i)) E c i s f = Inr (s', f', True)
    \<and> node_ok E f' es' \<and> take (length L) es' = L \<and> matchIndex s' ! i = int (length L) - 1"
  by (rule repair_ends [OF assms order_refl])

theorem repair_terminates_witness:
  "\<exists>s' f' es'. repair (nat (nextIndex sample_leader ! 1)) mem_env \<lparr>now = 5, rnd = 9\<rparr> 1 sample_leader sample_node
      = Inr (s', f', True)
    \<and> node_ok mem_env f' es' \<and> take 2 es' = [default_Entry, sample_entry]"
proof -
  have "currentTerm sample_node = 0" "commitIndex sample_node = 0"
    by (simp_all add: sample_node_def new_RaftNode_def)
  then show ?thesis
    using repair_terminates [OF sample_leader_ok(1,2) _ sample_leader_ok(3) _ sample_node_ok sample_match
        _ sample_node_room, of 1 "\<lparr>now = 5, rnd = 9\<rparr>"]
    by (auto simp: sample_leader_ok numeral_2_eq_2)
qed

end
