(* ===== verification/Raft_Cluster.thy ===== *)
theory Raft_Cluster
  imports Raft_Replication
begin

text \<open>
  A cluster of Raft nodes and the threads they start: pending \<open>Elect\<close> threads, the vote-collecting
  threads of every election with the vote count they share, heartbeat loops and replication
  threads. A step of the cluster is one section under a node's mutex, or the loss of a request or
  reply; the steps of different threads interleave in any order. A node address in the
  configuration at index \<open>p\<close> is the address of node \<open>p\<close>. The ticker and the heartbeat loops may
  run a round at any time, which includes every schedule the timers allow. The theory proves
  Election Safety.
\<close>

section \<open>Threads and steps\<close>

datatype vote_phase = VCalling | VReplied "RequestVoteReply option" | VGranted

record vote_thread =
  vt_owner :: nat
  vt_args :: RequestVoteArgs
  vt_phase :: vote_phase

datatype append_phase = ACalling | AReplied "AppendEntriesReply option" | ADone

record append_thread =
  at_owner :: nat
  at_target :: nat
  at_args :: AppendEntriesArgs
  at_phase :: append_phase

text \<open>
  Election \<open>a\<close> keeps its shared count at \<open>voteCounts ! a\<close>; its thread for peer \<open>p\<close> is
  \<open>vthreads (a, p)\<close> until it ends.
\<close>

record 'f cluster =
  nodes :: "'f RaftNode list"
  elects :: "nat \<Rightarrow> nat"
  voteCounts :: "int list"
  vthreads :: "nat \<times> nat \<Rightarrow> vote_thread option"
  heartbeats :: "nat \<Rightarrow> nat"
  athreads :: "append_thread list"

definition set_node :: "nat \<Rightarrow> 'f RaftNode \<Rightarrow> 'f cluster \<Rightarrow> 'f cluster" where
  "set_node i x s = s\<lparr>nodes := (nodes s)[i := x]\<rparr>"

definition set_thread :: "nat \<times> nat \<Rightarrow> vote_thread option \<Rightarrow> 'f cluster \<Rightarrow> 'f cluster" where
  "set_thread ap th s = s\<lparr>vthreads := (vthreads s)(ap := th)\<rparr>"

definition start_election :: "nat \<Rightarrow> RequestVoteArgs \<Rightarrow> nat list \<Rightarrow> 'f cluster \<Rightarrow> 'f cluster" where
  "start_election i args peers s =
     s\<lparr>voteCounts := voteCounts s @ [1],
       vthreads := (\<lambda>(a, p). if a = length (voteCounts s) \<and> p \<in> set peers
          then Some \<lparr>vt_owner = i, vt_args = args, vt_phase = VCalling\<rparr> else vthreads s (a, p))\<rparr>"

definition start_appends :: "nat \<Rightarrow> (nat \<times> AppendEntriesArgs) list \<Rightarrow> 'f cluster \<Rightarrow> 'f cluster" where
  "start_appends i msgs s = s\<lparr>athreads := athreads s @
     map (\<lambda>(p, args). \<lparr>at_owner = i, at_target = p, at_args = args, at_phase = ACalling\<rparr>) msgs\<rparr>"

definition set_athread :: "nat \<Rightarrow> append_phase \<Rightarrow> 'f cluster \<Rightarrow> 'f cluster" where
  "set_athread k ph s = s\<lparr>athreads := (athreads s)[k := (athreads s ! k)\<lparr>at_phase := ph\<rparr>]\<rparr>"

inductive cluster_step :: "'f store_env \<Rightarrow> 'f cluster \<Rightarrow> 'f cluster \<Rightarrow> bool" for E where
  c_ticker: "i < length (nodes s) \<Longrightarrow> ticker_round c (nodes s ! i) = (x, go) \<Longrightarrow>
    cluster_step E s (set_node i x s\<lparr>elects := (elects s)(i := elects s i + of_bool go)\<rparr>)"
| c_elect: "i < length (nodes s) \<Longrightarrow> 0 < elects s i \<Longrightarrow> Elect E (nodes s ! i) = Inr (x, args, peers) \<Longrightarrow>
    cluster_step E s (start_election i args peers (set_node i x s)\<lparr>elects := (elects s)(i := elects s i - 1)\<rparr>)"
| c_vote_request: "vthreads s (a, p) = Some th \<Longrightarrow> vt_phase th = VCalling \<Longrightarrow>
    RequestVote E c (nodes s ! p) (vt_args th) = Inr (x, reply) \<Longrightarrow> answer = Some reply \<or> answer = None \<Longrightarrow>
    cluster_step E s (set_thread (a, p) (Some (th\<lparr>vt_phase := VReplied answer\<rparr>)) (set_node p x s))"
| c_vote_lost: "vthreads s (a, p) = Some th \<Longrightarrow> vt_phase th = VCalling \<Longrightarrow>
    cluster_step E s (set_thread (a, p) (Some (th\<lparr>vt_phase := VReplied None\<rparr>)) s)"
| c_vote_answer: "vthreads s (a, p) = Some th \<Longrightarrow> vt_phase th = VReplied answer \<Longrightarrow>
    GetVoteAnswer (nodes s ! vt_owner th) (vt_args th) answer = (x, got) \<Longrightarrow>
    cluster_step E s (set_thread (a, p) (if got then Some (th\<lparr>vt_phase := VGranted\<rparr>) else None)
      (set_node (vt_owner th) x s))"
| c_vote_count: "vthreads s (a, p) = Some th \<Longrightarrow> vt_phase th = VGranted \<Longrightarrow>
    collectVote_granted (nodes s ! vt_owner th) (vt_args th) (voteCounts s ! a) = (x, count, lead) \<Longrightarrow>
    cluster_step E s (set_thread (a, p) None (set_node (vt_owner th) x s)
      \<lparr>voteCounts := (voteCounts s)[a := count],
       heartbeats := (heartbeats s)(vt_owner th := heartbeats s (vt_owner th) + of_bool lead)\<rparr>)"
| c_heartbeat: "i < length (nodes s) \<Longrightarrow> 0 < heartbeats s i \<Longrightarrow>
    SendHeartBeats_round E c (nodes s ! i) = Inr (Some (x, msgs)) \<Longrightarrow>
    cluster_step E s (start_appends i msgs (set_node i x s))"
| c_heartbeat_stop: "i < length (nodes s) \<Longrightarrow> 0 < heartbeats s i \<Longrightarrow>
    SendHeartBeats_round E c (nodes s ! i) = Inr None \<or> killed (nodes s ! i) \<Longrightarrow>
    cluster_step E s (s\<lparr>heartbeats := (heartbeats s)(i := heartbeats s i - 1)\<rparr>)"
| c_append_request: "k < length (athreads s) \<Longrightarrow> athreads s ! k = th \<Longrightarrow> at_phase th = ACalling \<Longrightarrow>
    AppendEntries E c (nodes s ! at_target th) (at_args th) = Inr (x, areply) \<Longrightarrow>
    aanswer = Some areply \<or> aanswer = None \<Longrightarrow>
    cluster_step E s (set_athread k (AReplied aanswer) (set_node (at_target th) x s))"
| c_append_lost: "k < length (athreads s) \<Longrightarrow> at_phase (athreads s ! k) = ACalling \<Longrightarrow>
    cluster_step E s (set_athread k (AReplied None) s)"
| c_append_answer: "k < length (athreads s) \<Longrightarrow> athreads s ! k = th \<Longrightarrow> at_phase th = AReplied aanswer \<Longrightarrow>
    handleAppendEntries E c (nodes s ! at_owner th) (at_target th) (at_args th) aanswer = Inr x \<Longrightarrow>
    cluster_step E s (set_athread k ADone (set_node (at_owner th) x s))"
| c_kill: "i < length (nodes s) \<Longrightarrow> cluster_step E s (set_node i (kill (nodes s ! i)) s)"

definition initial_cluster :: "'f store_env \<Rightarrow> NodeConfig list \<Rightarrow> (nat \<Rightarrow> string) \<Rightarrow> 'f cluster" where
  "initial_cluster E configs dirs =
     \<lparr>nodes = map (\<lambda>i. new_RaftNode E configs (dirs i) (int i)) [0..<length configs],
      elects = (\<lambda>_. 0), voteCounts = [], vthreads = (\<lambda>_. None), heartbeats = (\<lambda>_. 0), athreads = []\<rparr>"

abbreviation cluster_reach :: "'f store_env \<Rightarrow> 'f cluster \<Rightarrow> 'f cluster \<Rightarrow> bool" where
  "cluster_reach E \<equiv> (cluster_step E)\<^sup>*\<^sup>*"

section \<open>Quorums\<close>

locale quorum_system =
  fixes quorum :: "'a set \<Rightarrow> bool"
  assumes intersect: "quorum A \<Longrightarrow> quorum B \<Longrightarrow> A \<inter> B \<noteq> {}"
begin

lemma unique_choice:
  assumes "quorum A" and "quorum B" and "\<forall>v \<in> A. choice v = Some x" and "\<forall>v \<in> B. choice v = Some y"
  shows "x = y"
proof -
  obtain v where "v \<in> A" "v \<in> B" using intersect [OF assms(1,2)] by blast
  with assms(3,4) show ?thesis by force
qed

end

definition majority :: "nat \<Rightarrow> nat set \<Rightarrow> bool" where
  "majority n Q \<longleftrightarrow> Q \<subseteq> {..<n} \<and> n div 2 < card Q"

interpretation maj: quorum_system "majority n" for n
proof unfold_locales
  fix A B assume "majority n A" "majority n B"
  then have sub: "A \<subseteq> {..<n}" "B \<subseteq> {..<n}" and big: "n div 2 < card A" "n div 2 < card B"
    by (simp_all add: majority_def)
  have fin: "finite A" "finite B" using sub finite_subset by blast+
  show "A \<inter> B \<noteq> {}"
  proof
    assume "A \<inter> B = {}"
    then have "card A + card B = card (A \<union> B)" using card_Un_disjoint [OF fin] by simp
    also have "\<dots> \<le> n" using sub card_mono [of "{..<n}" "A \<union> B"] by simp
    finally show False using big by linarith
  qed
qed

section \<open>The voting invariant\<close>

text \<open>
  \<open>V v t\<close> is the candidate node \<open>v\<close> has voted for in term \<open>t\<close>, \<open>I a\<close> the candidate and term of
  election \<open>a\<close>, and \<open>K a\<close> the nodes whose votes its count holds. They are not part of the state.
\<close>

type_synonym votes = "nat \<Rightarrow> int \<Rightarrow> int option"

definition vle :: "votes \<Rightarrow> votes \<Rightarrow> bool" where
  "vle V V' \<longleftrightarrow> (\<forall>i t c. V i t = Some c \<longrightarrow> V' i t = Some c)"

definition voters :: "votes \<Rightarrow> nat \<Rightarrow> nat \<Rightarrow> int \<Rightarrow> nat set" where
  "voters V n c t = {v. v < n \<and> V v t = Some (int c)}"

definition elected :: "votes \<Rightarrow> nat \<Rightarrow> nat \<Rightarrow> int \<Rightarrow> bool" where
  "elected V n c t \<longleftrightarrow> majority n (voters V n c t)"

definition ledger :: "votes \<Rightarrow> 'f RaftNode list \<Rightarrow> bool" where
  "ledger V ns \<longleftrightarrow> (\<forall>i < length ns. V i (currentTerm (ns ! i)) = vote_of (ns ! i)
     \<and> (\<forall>t > currentTerm (ns ! i). V i t = None))"

definition wired :: "'f RaftNode list \<Rightarrow> bool" where
  "wired ns \<longleftrightarrow> length ns < 2 ^ 31
     \<and> (\<forall>i < length ns. length (cluster_configs (ns ! i)) = length ns \<and> cur_node_id (ns ! i) = int i)"

definition leaders_elected :: "votes \<Rightarrow> 'f RaftNode list \<Rightarrow> bool" where
  "leaders_elected V ns \<longleftrightarrow> (\<forall>i < length ns. role (ns ! i) = LEADER \<longrightarrow>
     elected V (length ns) i (currentTerm (ns ! i)))"

primrec granted_phase :: "vote_phase \<Rightarrow> bool" where
  "granted_phase VCalling = False"
| "granted_phase (VReplied answer) = (case answer of None \<Rightarrow> False | Some r \<Rightarrow> rvr_voteGranted r)"
| "granted_phase VGranted = True"

definition thread_ok :: "votes \<Rightarrow> (nat \<Rightarrow> nat \<times> int) \<Rightarrow> nat \<Rightarrow> nat \<Rightarrow> nat \<times> nat \<Rightarrow> vote_thread \<Rightarrow> bool" where
  "thread_ok V I n m ap th \<longleftrightarrow>
     fst ap < m \<and> snd ap < n \<and> vt_owner th < n \<and> snd ap \<noteq> vt_owner th
   \<and> I (fst ap) = (vt_owner th, rv_term (vt_args th)) \<and> rv_candidateId (vt_args th) = int (vt_owner th)
   \<and> (granted_phase (vt_phase th) \<longrightarrow> snd ap \<in> voters V n (vt_owner th) (rv_term (vt_args th)))"

definition threads_ok :: "votes \<Rightarrow> (nat \<Rightarrow> nat \<times> int) \<Rightarrow> 'f cluster \<Rightarrow> bool" where
  "threads_ok V I s \<longleftrightarrow> (\<forall>ap th. vthreads s ap = Some th \<longrightarrow>
     thread_ok V I (length (nodes s)) (length (voteCounts s)) ap th)"

definition counts_ok :: "votes \<Rightarrow> (nat \<Rightarrow> nat \<times> int) \<Rightarrow> (nat \<Rightarrow> nat set) \<Rightarrow> 'f cluster \<Rightarrow> bool" where
  "counts_ok V I K s \<longleftrightarrow> (\<forall>a < length (voteCounts s).
     K a \<subseteq> voters V (length (nodes s)) (fst (I a)) (snd (I a)) \<and> int (card (K a)) = voteCounts s ! a
   \<and> (\<forall>p. vthreads s (a, p) \<noteq> None \<longrightarrow> p \<notin> K a))"

definition vote_inv ::
  "votes \<Rightarrow> (nat \<Rightarrow> nat \<times> int) \<Rightarrow> (nat \<Rightarrow> nat set) \<Rightarrow> 'f cluster \<Rightarrow> bool" where
  "vote_inv V I K s \<longleftrightarrow> ledger V (nodes s) \<and> wired (nodes s) \<and> leaders_elected V (nodes s)
     \<and> threads_ok V I s \<and> counts_ok V I K s"

section \<open>Votes only grow\<close>

lemma vle_refl [simp]: "vle V V"
  by (simp add: vle_def)

lemma vle_trans: "vle U V \<Longrightarrow> vle V W \<Longrightarrow> vle U W"
  by (simp add: vle_def)

lemma voters_mono: "vle V V' \<Longrightarrow> voters V n c t \<subseteq> voters V' n c t"
  by (auto simp: vle_def voters_def)

lemma finite_voters [simp]: "finite (voters V n c t)"
  by (simp add: voters_def)

lemma elected_mono: "vle V V' \<Longrightarrow> elected V n c t \<Longrightarrow> elected V' n c t"
proof -
  assume a: "vle V V'" "elected V n c t"
  have "card (voters V n c t) \<le> card (voters V' n c t)"
    by (rule card_mono [OF finite_voters voters_mono [OF a(1)]])
  with a(2) show ?thesis by (auto simp: elected_def majority_def voters_def)
qed

lemma elected_unique:
  assumes "elected V n i t" and "elected V n j t"
  shows "i = j"
proof -
  have "int i = int j"
    by (rule maj.unique_choice [of n "voters V n i t" "voters V n j t" "\<lambda>v. V v t"])
      (use assms in \<open>auto simp: elected_def voters_def\<close>)
  then show ?thesis by simp
qed

lemma thread_ok_mono:
  "vle V V' \<Longrightarrow> thread_ok V I n m ap th \<Longrightarrow> m \<le> m' \<Longrightarrow> thread_ok V' I n m' ap th"
  using voters_mono [of V V' n "vt_owner th" "rv_term (vt_args th)"] by (auto simp: thread_ok_def)

definition record_vote :: "votes \<Rightarrow> nat \<Rightarrow> 'f RaftNode \<Rightarrow> votes" where
  "record_vote V i x = V(i := (V i)(currentTerm x := vote_of x))"

lemma record_vote_ledger:
  assumes "ledger V ns" and "i < length ns" and "term_vote_law (ns ! i) x"
  shows "ledger (record_vote V i x) (ns[i := x])" and "vle V (record_vote V i x)"
proof -
  have i: "V i (currentTerm (ns ! i)) = vote_of (ns ! i)" "\<forall>t > currentTerm (ns ! i). V i t = None"
    and le: "currentTerm (ns ! i) \<le> currentTerm x"
    using assms by (auto simp: ledger_def term_vote_law_def)
  show "ledger (record_vote V i x) (ns[i := x])"
    using assms(1) i le by (auto simp: ledger_def record_vote_def nth_list_update)
  have keep: "V i (currentTerm x) = Some c \<Longrightarrow> vote_of x = Some c" for c
    using i le assms(3)
    by (cases "currentTerm x = currentTerm (ns ! i)")
      (auto simp: term_vote_law_def vote_of_def split: if_splits)
  then show "vle V (record_vote V i x)" by (auto simp: vle_def record_vote_def)
qed

lemma counts_ok_mono:
  assumes "vle V V'" and "counts_ok V I K s"
  shows "counts_ok V' I K s"
  unfolding counts_ok_def
proof (intro allI impI)
  fix a assume "a < length (voteCounts s)"
  with assms(2) have c: "K a \<subseteq> voters V (length (nodes s)) (fst (I a)) (snd (I a))"
      "int (card (K a)) = voteCounts s ! a" "\<forall>p. vthreads s (a, p) \<noteq> None \<longrightarrow> p \<notin> K a"
    by (simp_all add: counts_ok_def)
  from c(1) voters_mono [OF assms(1)]
  have "K a \<subseteq> voters V' (length (nodes s)) (fst (I a)) (snd (I a))" by (rule subset_trans)
  with c(2,3) show "K a \<subseteq> voters V' (length (nodes s)) (fst (I a)) (snd (I a))
      \<and> int (card (K a)) = voteCounts s ! a \<and> (\<forall>p. vthreads s (a, p) \<noteq> None \<longrightarrow> p \<notin> K a)" by simp
qed

lemma set_node_simps [simp]:
  "nodes (set_node i x s) = (nodes s)[i := x]" "elects (set_node i x s) = elects s"
  "voteCounts (set_node i x s) = voteCounts s" "vthreads (set_node i x s) = vthreads s"
  "heartbeats (set_node i x s) = heartbeats s" "athreads (set_node i x s) = athreads s"
  by (simp_all add: set_node_def)

lemma inv_set_node:
  assumes inv: "vote_inv V I K s" and i: "i < length (nodes s)"
    and law: "term_vote_law (nodes s ! i) x" "no_new_leader (nodes s ! i) x"
  shows "vote_inv (record_vote V i x) I K (set_node i x s)" and "vle V (record_vote V i x)"
proof -
  let ?V = "record_vote V i x"
  have led: "ledger V (nodes s)" and wired: "wired (nodes s)" and lead: "leaders_elected V (nodes s)"
    and thr: "threads_ok V I s" and cnt: "counts_ok V I K s"
    using inv by (simp_all add: vote_inv_def)
  note new = record_vote_ledger [OF led i law(1)]
  show le: "vle V ?V" by (rule new(2))
  have "wired ((nodes s)[i := x])"
    using wired law(1) i by (auto simp: wired_def term_vote_law_def nth_list_update)
  moreover have "leaders_elected ?V ((nodes s)[i := x])"
    unfolding leaders_elected_def
  proof (intro allI impI)
    fix j assume j: "j < length ((nodes s)[i := x])" "role ((nodes s)[i := x] ! j) = LEADER"
    then have "role (nodes s ! j) = LEADER \<and> currentTerm ((nodes s)[i := x] ! j) = currentTerm (nodes s ! j)"
      using law(2) i by (cases "j = i") (auto simp: no_new_leader_def)
    with lead j elected_mono [OF le] show
      "elected ?V (length ((nodes s)[i := x])) j (currentTerm ((nodes s)[i := x] ! j))"
      by (simp add: leaders_elected_def)
  qed
  moreover have "threads_ok ?V I (set_node i x s)"
    using thr thread_ok_mono [OF le _ order_refl] by (auto simp: threads_ok_def)
  moreover have "counts_ok ?V I K (set_node i x s)"
    using counts_ok_mono [OF le cnt] by (simp add: counts_ok_def)
  ultimately show "vote_inv ?V I K (set_node i x s)" using new(1) by (simp add: vote_inv_def)
qed

text \<open>Steps that only change a phase or end a thread.\<close>

lemma inv_set_phase:
  assumes inv: "vote_inv V I K s" and th: "vthreads s (a, p) = Some th"
    and grant: "granted_phase ph \<Longrightarrow> p \<in> voters V (length (nodes s)) (vt_owner th) (rv_term (vt_args th))"
  shows "vote_inv V I K (set_thread (a, p) (Some (th\<lparr>vt_phase := ph\<rparr>)) s)"
proof -
  have "thread_ok V I (length (nodes s)) (length (voteCounts s)) (a, p) th"
    using inv th by (simp add: vote_inv_def threads_ok_def)
  then have "thread_ok V I (length (nodes s)) (length (voteCounts s)) (a, p) (th\<lparr>vt_phase := ph\<rparr>)"
    using grant by (simp add: thread_ok_def)
  with inv th show ?thesis
    by (auto simp: vote_inv_def threads_ok_def counts_ok_def set_thread_def)
qed

lemma inv_end_thread: "vote_inv V I K s \<Longrightarrow> vote_inv V I K (set_thread ap None s)"
  by (auto simp: vote_inv_def threads_ok_def counts_ok_def set_thread_def)

lemma inv_other:
  "vote_inv V I K (s\<lparr>elects := f\<rparr>) = vote_inv V I K s"
  "vote_inv V I K (s\<lparr>heartbeats := g\<rparr>) = vote_inv V I K s"
  "vote_inv V I K (start_appends i msgs s) = vote_inv V I K s"
  "vote_inv V I K (set_athread k aph s) = vote_inv V I K s"
  by (simp_all add: vote_inv_def threads_ok_def counts_ok_def start_appends_def set_athread_def)

lemma inv_thread:
  "vote_inv V I K s \<Longrightarrow> vthreads s (a, p) = Some th \<Longrightarrow>
    thread_ok V I (length (nodes s)) (length (voteCounts s)) (a, p) th"
  by (simp add: vote_inv_def threads_ok_def)

lemma inv_counted:
  "vote_inv V I K s \<Longrightarrow> a < length (voteCounts s) \<Longrightarrow>
    K a \<subseteq> voters V (length (nodes s)) (fst (I a)) (snd (I a))"
  by (simp add: vote_inv_def counts_ok_def)

section \<open>Starting an election and counting a vote\<close>

lemma elect_facts:
  assumes "Elect E x0 = Inr (x, args, peers)" and "cur_node_id x0 = int i" and "int i < 2 ^ 31"
  shows "vote_of x = Some (int i)" "rv_term args = currentTerm x" "rv_candidateId args = int i"
    "set peers = {p. p < length (cluster_configs x0) \<and> p \<noteq> i}"
    "currentTerm x = currentTerm x0 + 1" "role x = CANDIDATE"
  using assms by (auto simp: Elect_def Let_def rbind_Inr_iff vote_of_def to_i32_id split: if_splits)

lemma inv_start_election:
  assumes inv: "vote_inv V I K s" and i: "i < length (nodes s)"
    and x: "vote_of (nodes s ! i) = Some (int i)" "rv_term args = currentTerm (nodes s ! i)"
      "rv_candidateId args = int i" "set peers \<subseteq> {p. p < length (nodes s) \<and> p \<noteq> i}"
  shows "vote_inv V (I(length (voteCounts s) := (i, rv_term args))) (K(length (voteCounts s) := {i}))
    (start_election i args peers s)"
proof -
  let ?a = "length (voteCounts s)"
  let ?I = "I(?a := (i, rv_term args))" and ?K = "K(?a := {i})" and ?s = "start_election i args peers s"
  have parts: "ledger V (nodes s)" "wired (nodes s)" "leaders_elected V (nodes s)" "threads_ok V I s"
    "counts_ok V I K s" using inv by (simp_all add: vote_inv_def)
  have self: "i \<in> voters V (length (nodes s)) i (rv_term args)"
    using parts(1) i x(1,2) by (simp add: ledger_def voters_def)
  have old: "fst ap < ?a" if "vthreads s ap = Some th" for ap th
    using parts(4) that by (cases ap) (simp add: threads_ok_def thread_ok_def)
  have "threads_ok V ?I ?s"
    unfolding threads_ok_def
  proof (intro allI impI)
    fix ap th assume th: "vthreads ?s ap = Some th"
    show "thread_ok V ?I (length (nodes ?s)) (length (voteCounts ?s)) ap th"
    proof (cases "fst ap = ?a \<and> snd ap \<in> set peers")
      case True
      then have "th = \<lparr>vt_owner = i, vt_args = args, vt_phase = VCalling\<rparr>"
        using th by (auto simp: start_election_def split: if_splits prod.splits)
      with True x(3,4) i show ?thesis by (auto simp: thread_ok_def start_election_def)
    next
      case False
      then have th0: "vthreads s ap = Some th"
        using th by (auto simp: start_election_def split: if_splits prod.splits)
      then have "thread_ok V I (length (nodes s)) ?a ap th"
        using parts(4) by (cases ap) (simp add: threads_ok_def)
      with old [OF th0] show ?thesis by (simp add: thread_ok_def start_election_def)
    qed
  qed
  moreover have "counts_ok V ?I ?K ?s"
    unfolding counts_ok_def
  proof (intro allI impI)
    fix a assume "a < length (voteCounts ?s)"
    then have "a < Suc ?a" by (simp add: start_election_def)
    then consider "a = ?a" | "a < ?a" by linarith
    then show "?K a \<subseteq> voters V (length (nodes ?s)) (fst (?I a)) (snd (?I a))
      \<and> int (card (?K a)) = voteCounts ?s ! a \<and> (\<forall>p. vthreads ?s (a, p) \<noteq> None \<longrightarrow> p \<notin> ?K a)"
    proof cases
      case 1
      then show ?thesis using self x(4) old [of "(?a, i)"]
        by (auto simp: start_election_def split: if_splits)
    next
      case 2
      then have "K a \<subseteq> voters V (length (nodes s)) (fst (I a)) (snd (I a))"
        "int (card (K a)) = voteCounts s ! a" "\<forall>p. vthreads s (a, p) \<noteq> None \<longrightarrow> p \<notin> K a"
        using parts(5) by (simp_all add: counts_ok_def)
      with 2 show ?thesis by (simp add: start_election_def nth_append)
    qed
  qed
  ultimately show ?thesis using parts(1-3) by (simp add: vote_inv_def start_election_def)
qed

lemma collect_cases:
  assumes "collectVote_granted x0 args count = (x, count', lead)" and "0 \<le> count" "count < 2 ^ 31"
  shows "x = x0 \<and> (count' = count \<or> count' = count + 1)
    \<or> count' = count + 1 \<and> int (length (cluster_configs x0) div 2) < count + 1
       \<and> role x0 = CANDIDATE \<and> currentTerm x0 = rv_term args \<and> x = become_leader x0"
proof -
  have "to_u64 count = count" "to_u64 (count + 1) = count + 1"
    using assms(2,3) by (simp_all add: to_u64_def)
  with assms(1) show ?thesis by (auto simp: collectVote_granted_def Let_def split: if_splits)
qed

lemma become_leader_keeps:
  "currentTerm (become_leader x) = currentTerm x" "vote_of (become_leader x) = vote_of x"
  "role (become_leader x) = LEADER" "cluster_configs (become_leader x) = cluster_configs x"
  "cur_node_id (become_leader x) = cur_node_id x" "log (become_leader x) = log x"
  by (simp_all add: become_leader_def vote_of_def Let_def)

text \<open>The vote of thread \<open>(a, p)\<close> enters the count, or is dropped because the count is enough.\<close>

lemma inv_count_vote:
  assumes inv: "vote_inv V I K s" and th: "vthreads s (a, p) = Some th" and grant: "vt_phase th = VGranted"
    and count: "count = voteCounts s ! a \<or> count = voteCounts s ! a + 1"
  shows "\<exists>K'. vote_inv V I K' (set_thread (a, p) None s\<lparr>voteCounts := (voteCounts s)[a := count]\<rparr>)
    \<and> int (card (K' a)) = count"
proof -
  let ?s = "set_thread (a, p) None s\<lparr>voteCounts := (voteCounts s)[a := count]\<rparr>"
  have t: "thread_ok V I (length (nodes s)) (length (voteCounts s)) (a, p) th"
    by (rule inv_thread [OF inv th])
  have c: "counts_ok V I K s" "threads_ok V I s" using inv by (simp_all add: vote_inv_def)
  have a: "a < length (voteCounts s)" using t by (simp add: thread_ok_def)
  have Ka: "K a \<subseteq> voters V (length (nodes s)) (fst (I a)) (snd (I a))" "int (card (K a)) = voteCounts s ! a"
      "p \<notin> K a"
    using c(1) a th by (auto simp: counts_ok_def)
  have p: "p \<in> voters V (length (nodes s)) (fst (I a)) (snd (I a))"
    using t grant by (simp add: thread_ok_def)
  define K' where "K' = (if count = voteCounts s ! a then K else K(a := insert p (K a)))"
  have "finite (K a)" by (rule finite_subset [OF Ka(1) finite_voters])
  then have K'a: "K' a \<subseteq> voters V (length (nodes s)) (fst (I a)) (snd (I a))" "int (card (K' a)) = count"
      "K' a \<subseteq> insert p (K a)" "\<forall>b. b \<noteq> a \<longrightarrow> K' b = K b"
    using Ka p count by (auto simp: K'_def)
  have thr: "threads_ok V I ?s" using c(2) by (simp add: threads_ok_def set_thread_def)
  have "counts_ok V I K' ?s"
    unfolding counts_ok_def
  proof (intro allI impI)
    fix b assume b: "b < length (voteCounts ?s)"
    show "K' b \<subseteq> voters V (length (nodes ?s)) (fst (I b)) (snd (I b))
      \<and> int (card (K' b)) = voteCounts ?s ! b \<and> (\<forall>q. vthreads ?s (b, q) \<noteq> None \<longrightarrow> q \<notin> K' b)"
    proof (cases "b = a")
      case True
      have "q \<notin> K' a" if "vthreads ?s (a, q) \<noteq> None" for q
      proof -
        have "q \<noteq> p" "vthreads s (a, q) \<noteq> None" using that by (auto simp: set_thread_def split: if_splits)
        then have "q \<notin> K a" using c(1) a by (simp add: counts_ok_def)
        with \<open>q \<noteq> p\<close> K'a(3) show ?thesis by auto
      qed
      with True K'a(1,2) a show ?thesis by (simp add: set_thread_def)
    next
      case False
      with b K'a(4) c(1) show ?thesis by (simp add: counts_ok_def set_thread_def)
    qed
  qed
  with thr inv K'a(2) show ?thesis by (auto simp: vote_inv_def set_thread_def)
qed

lemma inv_become_leader:
  assumes inv: "vote_inv V I K s" and i: "i < length (nodes s)"
    and el: "elected V (length (nodes s)) i (currentTerm (nodes s ! i))"
  shows "vote_inv V I K (set_node i (become_leader (nodes s ! i)) s)"
proof -
  let ?ns = "(nodes s)[i := become_leader (nodes s ! i)]"
  have same: "currentTerm (?ns ! j) = currentTerm (nodes s ! j) \<and> vote_of (?ns ! j) = vote_of (nodes s ! j)
     \<and> cluster_configs (?ns ! j) = cluster_configs (nodes s ! j) \<and> cur_node_id (?ns ! j) = cur_node_id (nodes s ! j)" for j
    using i by (cases "j = i") (simp_all add: become_leader_keeps)
  have "ledger V ?ns" "wired ?ns" using inv same by (simp_all add: vote_inv_def ledger_def wired_def)
  moreover have "leaders_elected V ?ns"
    using inv el same unfolding vote_inv_def leaders_elected_def
    by (metis length_list_update nth_list_update_neq)
  moreover have "threads_ok V I (set_node i x s)" "counts_ok V I K (set_node i x s)" for x
    using inv by (simp_all add: vote_inv_def threads_ok_def counts_ok_def)
  ultimately show ?thesis by (simp add: vote_inv_def)
qed

lemma step_vote_count:
  assumes inv: "vote_inv V I K s" and th: "vthreads s (a, p) = Some th" "vt_phase th = VGranted"
    and run: "collectVote_granted (nodes s ! vt_owner th) (vt_args th) (voteCounts s ! a) = (x, count, lead)"
  shows "\<exists>K'. vote_inv V I K' (set_thread (a, p) None (set_node (vt_owner th) x s)\<lparr>voteCounts := (voteCounts s)[a := count]\<rparr>)"
proof -
  let ?i = "vt_owner th" and ?n = "length (nodes s)"
  let ?s1 = "set_thread (a, p) None s\<lparr>voteCounts := (voteCounts s)[a := count]\<rparr>"
  have t: "thread_ok V I ?n (length (voteCounts s)) (a, p) th" by (rule inv_thread [OF inv th(1)])
  then have a: "a < length (voteCounts s)" and i: "?i < ?n" and Ia: "I a = (?i, rv_term (vt_args th))"
    by (simp_all add: thread_ok_def)
  have wired: "wired (nodes s)" and K: "counts_ok V I K s" using inv by (simp_all add: vote_inv_def)
  have "card (K a) \<le> ?n"
    using K a card_mono [of "{..<?n}" "K a"] by (force simp: counts_ok_def voters_def)
  moreover have "int (card (K a)) = voteCounts s ! a" using K a by (simp add: counts_ok_def)
  moreover have "int (length (nodes s)) < 2 ^ 31" using wired by (simp add: wired_def)
  ultimately have range: "0 \<le> voteCounts s ! a" "voteCounts s ! a < 2 ^ 31" by linarith+
  have comm: "set_thread (a, p) None (set_node ?i x s)\<lparr>voteCounts := (voteCounts s)[a := count]\<rparr> = set_node ?i x ?s1" for x
    by (simp add: set_thread_def set_node_def)
  note cases = collect_cases [OF run range]
  from cases have "count = voteCounts s ! a \<or> count = voteCounts s ! a + 1" by auto
  from inv_count_vote [OF inv th this] obtain K' where K': "vote_inv V I K' ?s1" "int (card (K' a)) = count" by blast
  have nodes1: "nodes ?s1 = nodes s" by (simp add: set_thread_def)
  from cases show ?thesis
  proof
    assume "x = nodes s ! ?i \<and> (count = voteCounts s ! a \<or> count = voteCounts s ! a + 1)"
    then have "set_node ?i x ?s1 = ?s1" by (simp add: set_node_def set_thread_def)
    with K' comm show ?thesis by metis
  next
    assume c: "count = voteCounts s ! a + 1 \<and> int (length (cluster_configs (nodes s ! ?i)) div 2) < voteCounts s ! a + 1
       \<and> role (nodes s ! ?i) = CANDIDATE \<and> currentTerm (nodes s ! ?i) = rv_term (vt_args th)
       \<and> x = become_leader (nodes s ! ?i)"
    have "K' a \<subseteq> voters V ?n ?i (rv_term (vt_args th))"
      using inv_counted [OF K'(1), of a] a Ia by (simp add: set_thread_def)
    then have "card (K' a) \<le> card (voters V ?n ?i (rv_term (vt_args th)))" by (rule card_mono [OF finite_voters])
    moreover have "int (?n div 2) < int (card (K' a))" using c K'(2) wired i by (simp add: wired_def)
    ultimately have "elected V ?n ?i (currentTerm (nodes s ! ?i))"
      using c by (auto simp: elected_def majority_def voters_def)
    with inv_become_leader [OF K'(1), of ?i] i nodes1 c have "vote_inv V I K' (set_node ?i x ?s1)" by simp
    then show ?thesis using comm by metis
  qed
qed

lemma answer_granted: "GetVoteAnswer s req answer = (x, True) \<Longrightarrow> \<exists>r. answer = Some r \<and> rvr_voteGranted r"
  by (auto simp: GetVoteAnswer_def Let_def split: option.splits if_splits)

lemma inv_nodes: "vote_inv V I K s \<Longrightarrow> ledger V (nodes s) \<and> wired (nodes s)"
  by (simp add: vote_inv_def)

lemma step_vote_request:
  assumes inv: "vote_inv V I K s" and th: "vthreads s (a, p) = Some th"
    and run: "RequestVote E c (nodes s ! p) (vt_args th) = Inr (x, reply)" and ans: "answer = Some reply \<or> answer = None"
  shows "\<exists>V'. vle V V' \<and> vote_inv V' I K (set_thread (a, p) (Some (th\<lparr>vt_phase := VReplied answer\<rparr>)) (set_node p x s))"
proof -
  have t: "thread_ok V I (length (nodes s)) (length (voteCounts s)) (a, p) th" by (rule inv_thread [OF inv th])
  then have p: "p < length (nodes s)" and cand: "rv_candidateId (vt_args th) = int (vt_owner th)"
    by (simp_all add: thread_ok_def)
  note new = inv_set_node [OF inv p conjunct1 [OF law_RequestVote [OF run]] conjunct2 [OF law_RequestVote [OF run]]]
  have "p \<in> voters (record_vote V p x) (length (nodes (set_node p x s))) (vt_owner th) (rv_term (vt_args th))"
    if "granted_phase (VReplied answer)"
  proof -
    have "rvr_voteGranted reply" using that ans by auto
    from grant_facts [OF run this] cand p show ?thesis
      by (simp add: voters_def record_vote_def vote_of_def)
  qed
  with inv_set_phase [OF new(1), of a p th "VReplied answer"] th new(2) show ?thesis by auto
qed

lemma step_vote_answer:
  assumes inv: "vote_inv V I K s" and th: "vthreads s (a, p) = Some th" "vt_phase th = VReplied answer"
    and run: "GetVoteAnswer (nodes s ! vt_owner th) (vt_args th) answer = (x, got)"
  shows "\<exists>V'. vle V V' \<and> vote_inv V' I K (set_thread (a, p)
    (if got then Some (th\<lparr>vt_phase := VGranted\<rparr>) else None) (set_node (vt_owner th) x s))"
proof -
  have t: "thread_ok V I (length (nodes s)) (length (voteCounts s)) (a, p) th" by (rule inv_thread [OF inv th(1)])
  then have i: "vt_owner th < length (nodes s)" by (simp add: thread_ok_def)
  note law = law_GetVoteAnswer [OF run]
  note new = inv_set_node [OF inv i conjunct1 [OF law] conjunct2 [OF law]]
  show ?thesis
  proof (cases got)
    case True
    with run answer_granted th(2) have "granted_phase (vt_phase th)" by fastforce
    then have "p \<in> voters V (length (nodes s)) (vt_owner th) (rv_term (vt_args th))"
      using t by (simp add: thread_ok_def)
    then have "p \<in> voters (record_vote V (vt_owner th) x) (length (nodes s)) (vt_owner th) (rv_term (vt_args th))"
      using voters_mono [OF new(2)] by blast
    with inv_set_phase [OF new(1), of a p th VGranted] th(1) new(2) True show ?thesis by auto
  next
    case False
    with inv_end_thread [OF new(1)] new(2) show ?thesis by auto
  qed
qed

lemma step_elect:
  assumes inv: "vote_inv V I K s" and i: "i < length (nodes s)" and run: "Elect E (nodes s ! i) = Inr (x, args, peers)"
  shows "\<exists>V' I' K'. vle V V' \<and> vote_inv V' I' K' (start_election i args peers (set_node i x s))"
proof -
  have w: "length (cluster_configs (nodes s ! i)) = length (nodes s)" "cur_node_id (nodes s ! i) = int i"
    "int i < 2 ^ 31"
    using inv i by (simp_all add: vote_inv_def wired_def)
  note f = elect_facts [OF run w(2,3)]
  note law = law_Elect [OF run]
  note new = inv_set_node [OF inv i conjunct1 [OF law] conjunct2 [OF law]]
  from inv_start_election [OF new(1), of i args peers] i f w new(2) show ?thesis by auto
qed

section \<open>Every step keeps the invariant\<close>

text \<open>The owner and the target of a replication thread are nodes.\<close>

definition appends_wired :: "'f cluster \<Rightarrow> bool" where
  "appends_wired s \<longleftrightarrow> (\<forall>th \<in> set (athreads s).
     at_owner th < length (nodes s) \<and> at_target th < length (nodes s) \<and> at_owner th \<noteq> at_target th)"

lemma appends_wired_update:
  "appends_wired s \<Longrightarrow> appends_wired (set_node i x s)"
  "appends_wired s \<Longrightarrow> k < length (athreads s) \<Longrightarrow> appends_wired (set_athread k ph s)"
  "appends_wired s \<Longrightarrow> appends_wired (set_thread ap th s)"
  by (auto simp: appends_wired_def set_athread_def set_thread_def dest!: subsetD [OF set_update_subset_insert])

lemma msgs_wired:
  assumes "wired ns" and "i < length ns"
    and "SendHeartBeats_round E c (ns ! i) = Inr (Some (x, msgs))" and "(p, args) \<in> set msgs"
  shows "p < length ns" and "p \<noteq> i" and "heartbeat_args E (ns ! i) p = Inr (Some args)"
proof -
  have all: "heartbeat_all E s is = Inr msgs \<Longrightarrow> (p, args) \<in> set msgs \<Longrightarrow>
    p \<in> set is \<and> int p \<noteq> cur_node_id s \<and> heartbeat_args E s p = Inr (Some args)" for s "is" msgs
    by (induction "is" arbitrary: msgs) (auto simp: rbind_Inr_iff split: if_splits option.splits)
  have "heartbeat_all E (ns ! i) [0..<length (cluster_configs (ns ! i))] = Inr msgs"
    using assms(3) by (auto simp: SendHeartBeats_round_def rbind_Inr_iff split: if_splits)
  from all [OF this assms(4)] assms(1,2)
  show "p < length ns" and "p \<noteq> i" and "heartbeat_args E (ns ! i) p = Inr (Some args)"
    by (auto simp: wired_def)
qed

lemma step_appends_wired:
  assumes "cluster_step E s s'" and "wired (nodes s)" and "appends_wired s"
  shows "appends_wired s'"
  using assms
proof (cases rule: cluster_step.cases)
  case (c_elect i x args peers)
  then show ?thesis using assms(3) by (simp add: appends_wired_def start_election_def)
next
  case (c_heartbeat i c x msgs)
  have "\<forall>(p, args) \<in> set msgs. p < length (nodes s) \<and> i \<noteq> p"
    using msgs_wired(1,2) [OF assms(2) c_heartbeat(2,4)] by blast
  then show ?thesis
    using c_heartbeat(1,2) assms(3) by (auto simp: appends_wired_def start_appends_def)
next
  case (c_append_request k th c x areply aanswer)
  then show ?thesis
    using appends_wired_update(2) [OF appends_wired_update(1) [OF assms(3)], of k "at_target th" x] by simp
next
  case (c_append_answer k th aanswer c x)
  then show ?thesis
    using appends_wired_update(2) [OF appends_wired_update(1) [OF assms(3)], of k "at_owner th" x] by simp
qed (use assms(3) in \<open>simp_all add: appends_wired_update\<close>,
  simp_all add: appends_wired_def set_thread_def)

lemma step_vote_inv:
  assumes inv: "vote_inv V I K s" and wired: "appends_wired s" and step: "cluster_step E s s'"
  shows "\<exists>V' I' K'. vle V V' \<and> vote_inv V' I' K' s'"
  using step
proof (cases rule: cluster_step.cases)
  case (c_ticker i c x go)
  note law = law_ticker [OF c_ticker(3)]
  from inv_set_node [OF inv c_ticker(2) conjunct1 [OF law] conjunct2 [OF law]] c_ticker(1)
  show ?thesis by (auto simp: inv_other)
next
  case (c_elect i x args peers)
  from step_elect [OF inv c_elect(2,4)] c_elect(1) show ?thesis by (auto simp: inv_other)
next
  case (c_vote_request a p th c x reply answer)
  from step_vote_request [OF inv c_vote_request(2,4,5)] c_vote_request(1) show ?thesis by blast
next
  case (c_vote_lost a p th)
  from inv_set_phase [OF inv c_vote_lost(2), of "VReplied None"] c_vote_lost(1) show ?thesis
    using vle_refl by force
next
  case (c_vote_answer a p th answer x got)
  from step_vote_answer [OF inv c_vote_answer(2-4)] c_vote_answer(1) show ?thesis by blast
next
  case (c_vote_count a p th x count lead)
  from step_vote_count [OF inv c_vote_count(2-4)] obtain K' where
    "vote_inv V I K' (set_thread (a, p) None (set_node (vt_owner th) x s)\<lparr>voteCounts := (voteCounts s)[a := count]\<rparr>)"
    by blast
  then have "vote_inv V I K' s'" by (simp add: c_vote_count(1) inv_other)
  then show ?thesis using vle_refl by blast
next
  case (c_heartbeat i c x msgs)
  note law = law_heartbeat [OF c_heartbeat(4)]
  from inv_set_node [OF inv c_heartbeat(2) conjunct1 [OF law] conjunct2 [OF law]] c_heartbeat(1)
  show ?thesis by (auto simp: inv_other)
next
  case (c_heartbeat_stop i c)
  then have "vote_inv V I K s'" using inv by (simp add: inv_other)
  then show ?thesis using vle_refl by blast
next
  case (c_append_request k th c x areply aanswer)
  then have t: "at_target th < length (nodes s)" using wired by (auto simp: appends_wired_def)
  note law = law_AppendEntries [OF c_append_request(5)]
  from inv_set_node [OF inv t conjunct1 [OF law] conjunct2 [OF law]] c_append_request(1)
  show ?thesis by (auto simp: inv_other)
next
  case (c_append_lost k)
  then have "vote_inv V I K s'" using inv by (simp add: inv_other)
  then show ?thesis using vle_refl by blast
next
  case (c_append_answer k th aanswer c x)
  then have t: "at_owner th < length (nodes s)" using wired by (auto simp: appends_wired_def)
  note law = law_handle [OF c_append_answer(5)]
  from inv_set_node [OF inv t conjunct1 [OF law] conjunct2 [OF law]] c_append_answer(1)
  show ?thesis by (auto simp: inv_other)
next
  case (c_kill i)
  from inv_set_node [OF inv c_kill(2) conjunct1 [OF law_kill] conjunct2 [OF law_kill]] c_kill(1)
  show ?thesis by auto
qed

lemma reach_vote_inv:
  "cluster_reach E s s' \<Longrightarrow> vote_inv V I K s \<Longrightarrow> appends_wired s \<Longrightarrow>
    \<exists>V' I' K'. vle V V' \<and> vote_inv V' I' K' s' \<and> appends_wired s'"
proof (induction rule: rtranclp_induct)
  case base
  then show ?case using vle_refl by blast
next
  case (step y z)
  then obtain V1 I1 K1 where y: "vle V V1" "vote_inv V1 I1 K1 y" "appends_wired y" by blast
  from step_vote_inv [OF y(2,3) step.hyps(2)] obtain V2 I2 K2 where
    "vle V1 V2" "vote_inv V2 I2 K2 z" by blast
  moreover have "appends_wired z"
    using step_appends_wired [OF step.hyps(2) _ y(3)] inv_nodes [OF y(2)] by blast
  ultimately show ?case using vle_trans [OF y(1)] by blast
qed

lemma initial_vote_inv:
  assumes "length configs < 2 ^ 31"
  shows "vote_inv (\<lambda>_ _. None) I K (initial_cluster E configs dirs)" and "appends_wired (initial_cluster E configs dirs)"
  using assms
  by (simp_all add: initial_cluster_def vote_inv_def ledger_def wired_def leaders_elected_def threads_ok_def
      counts_ok_def appends_wired_def new_RaftNode_def vote_of_def)

lemma leader_elected:
  "vote_inv V I K s \<Longrightarrow> i < length (nodes s) \<Longrightarrow> role (nodes s ! i) = LEADER \<Longrightarrow>
    elected V (length (nodes s)) i (currentTerm (nodes s ! i))"
  by (simp add: vote_inv_def leaders_elected_def)

lemma step_length: "cluster_step E s s' \<Longrightarrow> length (nodes s') = length (nodes s)"
  by (cases rule: cluster_step.cases)
    (auto simp: set_thread_def start_election_def start_appends_def set_athread_def)

lemma reach_length: "cluster_reach E s s' \<Longrightarrow> length (nodes s') = length (nodes s)"
  by (induction rule: rtranclp_induct) (auto dest: step_length)

section \<open>A run that elects a leader\<close>

lemma elect_rep:
  assumes "node_ok E s es" and "currentTerm s + 1 < 2 ^ 31"
  shows "Elect E s = Inr (s\<lparr>currentTerm := currentTerm s + 1, role := CANDIDATE, votedFor := cur_node_id s\<rparr>,
    \<lparr>rv_term = currentTerm s + 1, rv_candidateId = cur_node_id s, rv_lastLogIndex = int (length es) - 1,
     rv_lastLogTerm = e_term (last es)\<rparr>,
    filter (\<lambda>i. int i \<noteq> cur_node_id s) [0..<length (cluster_configs s)])"
proof -
  note ok = node_okD [OF assms(1)]
  let ?s1 = "s\<lparr>currentTerm := currentTerm s + 1, role := CANDIDATE, votedFor := cur_node_id s\<rparr>"
  have id: "to_i32 (cur_node_id s) = cur_node_id s" using ok(9-11) by (intro to_i32_id) auto
  have ok1: "node_ok E ?s1 es" using assms ok by (simp add: node_ok_def)
  have "to_i32 (int (length es) - 1) = int (length es) - 1"
    using ok(3) by (intro to_i32_id) auto
  then show ?thesis
    using last_index_rep [OF ok1] last_term_rep [OF ok(1-3)] id assms(2) ok(12)
    by (simp add: Elect_def Let_def in_i32_def)
qed

text \<open>
  The request node \<open>x\<close> with log \<open>es\<close> sends when it stands for election, and the node as it then is.
\<close>

definition elect_args :: "'f RaftNode \<Rightarrow> Entry list \<Rightarrow> RequestVoteArgs" where
  "elect_args x es = \<lparr>rv_term = currentTerm x + 1, rv_candidateId = cur_node_id x,
     rv_lastLogIndex = int (length es) - 1, rv_lastLogTerm = e_term (last es)\<rparr>"

definition candidate_of :: "tick \<Rightarrow> 'f RaftNode \<Rightarrow> 'f RaftNode" where
  "candidate_of c x = (ResetVoteTimer c x)\<lparr>currentTerm := currentTerm x + 1, role := CANDIDATE, votedFor := cur_node_id x\<rparr>"

lemma candidate_of_keeps [simp]:
  "currentTerm (candidate_of c x) = currentTerm x + 1" "role (candidate_of c x) = CANDIDATE"
  "votedFor (candidate_of c x) = cur_node_id x" "cluster_configs (candidate_of c x) = cluster_configs x"
  "cur_node_id (candidate_of c x) = cur_node_id x" "log (candidate_of c x) = log x"
  by (simp_all add: candidate_of_def ResetVoteTimer_def Let_def)

lemma fresh_node [simp]:
  "currentTerm (new_RaftNode E configs dir n) = 0" "role (new_RaftNode E configs dir n) = FOLLOWER"
  "cluster_configs (new_RaftNode E configs dir n) = configs" "cur_node_id (new_RaftNode E configs dir n) = n"
  by (simp_all add: new_RaftNode_def)

lemma candidate_run:
  assumes "i < length (nodes s)" and "node_ok E (nodes s ! i) es" and "role (nodes s ! i) \<noteq> LEADER"
    and "currentTerm (nodes s ! i) + 1 < 2 ^ 31"
  obtains s' where "cluster_reach E s s'" "nodes s' = (nodes s)[i := candidate_of c (nodes s ! i)]"
    "voteCounts s' = voteCounts s @ [1]"
    "\<And>p. p < length (cluster_configs (nodes s ! i)) \<Longrightarrow> int p \<noteq> cur_node_id (nodes s ! i) \<Longrightarrow>
      vthreads s' (length (voteCounts s), p)
        = Some \<lparr>vt_owner = i, vt_args = elect_args (nodes s ! i) es, vt_phase = VCalling\<rparr>"
proof -
  let ?x = "nodes s ! i"
  let ?peers = "filter (\<lambda>p. int p \<noteq> cur_node_id ?x) [0..<length (cluster_configs ?x)]"
  let ?s1 = "set_node i (ResetVoteTimer c ?x) s\<lparr>elects := (elects s)(i := elects s i + 1)\<rparr>"
  let ?s2 = "start_election i (elect_args ?x es) ?peers (set_node i (candidate_of c ?x) ?s1)
    \<lparr>elects := (elects ?s1)(i := elects ?s1 i - 1)\<rparr>"
  have step1: "cluster_step E s ?s1"
    using c_ticker [OF assms(1), of c "ResetVoteTimer c ?x" True E] assms(3) by (simp add: ticker_round_def)
  have "Elect E (ResetVoteTimer c ?x) = Inr (candidate_of c ?x, elect_args ?x es, ?peers)"
    using elect_rep [of E "ResetVoteTimer c ?x" es] assms(2,4) by (simp add: candidate_of_def elect_args_def)
  then have step2: "cluster_step E ?s1 ?s2"
    using c_elect [of i ?s1 E "candidate_of c ?x" "elect_args ?x es" ?peers] assms(1) by simp
  have "cluster_reach E s ?s2" using step1 step2 by (meson r_into_rtranclp rtranclp_trans)
  then show ?thesis by (rule that) (simp_all add: start_election_def)
qed

lemma vote_run:
  assumes th: "vthreads s (a, p) = Some \<lparr>vt_owner = i, vt_args = args, vt_phase = VCalling\<rparr>"
    and i: "i < length (nodes s)" "p \<noteq> i" and p: "p < length (nodes s)" and a: "a < length (voteCounts s)"
    and cand: "role (nodes s ! i) = CANDIDATE" "currentTerm (nodes s ! i) = rv_term args"
    and grant: "RequestVote E c (nodes s ! p) args = Inr (y, reply)" "rvr_voteGranted reply" "rvr_term reply = rv_term args"
    and count: "voteCounts s ! a = int (length (cluster_configs (nodes s ! i)) div 2)" "voteCounts s ! a < 2 ^ 31"
  obtains s' where "cluster_reach E s s'" "nodes s' = (nodes s)[i := become_leader (nodes s ! i), p := y]"
    "voteCounts s' = (voteCounts s)[a := voteCounts s ! a + 1]"
proof -
  let ?th = "\<lambda>ph. \<lparr>vt_owner = i, vt_args = args, vt_phase = ph\<rparr>"
  let ?s1 = "set_thread (a, p) (Some (?th (VReplied (Some reply)))) (set_node p y s)"
  let ?s2 = "set_thread (a, p) (Some (?th VGranted)) (set_node i (nodes s ! i) ?s1)"
  let ?s3 = "set_thread (a, p) None (set_node i (become_leader (nodes s ! i)) ?s2)
    \<lparr>voteCounts := (voteCounts ?s2)[a := voteCounts s ! a + 1],
     heartbeats := (heartbeats ?s2)(i := heartbeats ?s2 i + 1)\<rparr>"
  have step1: "cluster_step E s ?s1"
    using c_vote_request [OF th, of E c y reply "Some reply"] grant(1) by simp
  have "GetVoteAnswer (nodes s ! i) args (Some reply) = (nodes s ! i, True)"
    using grant(2,3) cand by (simp add: GetVoteAnswer_def)
  then have step2: "cluster_step E ?s1 ?s2"
    using c_vote_answer [of ?s1 a p "?th (VReplied (Some reply))" "Some reply" "nodes s ! i" True E] i
    by (simp add: set_thread_def)
  have u: "to_u64 (voteCounts s ! a) = voteCounts s ! a" "to_u64 (voteCounts s ! a + 1) = voteCounts s ! a + 1"
    using count by (simp_all add: to_u64_def)
  have "collectVote_granted (nodes s ! i) args (voteCounts s ! a) = (become_leader (nodes s ! i), voteCounts s ! a + 1, True)"
    using cand count u by (simp add: collectVote_granted_def)
  then have step3: "cluster_step E ?s2 ?s3"
    using c_vote_count [of ?s2 a p "?th VGranted" "become_leader (nodes s ! i)" "voteCounts s ! a + 1" True E] i
    by (simp add: set_thread_def)
  have "cluster_reach E s ?s3" using step1 step2 step3 by (meson r_into_rtranclp rtranclp_trans)
  then show ?thesis
    by (rule that) (use i p in \<open>simp_all add: set_thread_def list_update_swap\<close>)
qed

text \<open>
  In a cluster of three one granted vote elects: a node that is no leader wins the next term with
  the vote of node \<open>p\<close>.
\<close>

lemma election_run:
  assumes i: "i < length (nodes s)" "node_ok E (nodes s ! i) es" "role (nodes s ! i) \<noteq> LEADER"
    "currentTerm (nodes s ! i) + 1 < 2 ^ 31" "cur_node_id (nodes s ! i) = int i"
    and three: "length (cluster_configs (nodes s ! i)) = 3" "length (nodes s) = 3"
    and p: "p < 3" "p \<noteq> i" "node_ok E (nodes s ! p) fs"
    and vote: "may_vote (nodes s ! p) (elect_args (nodes s ! i) es)" "up_to_date fs (elect_args (nodes s ! i) es)"
  obtains s' y where "cluster_reach E s s'"
    "nodes s' = (nodes s)[i := become_leader (candidate_of c (nodes s ! i)), p := y]"
    "node_ok E y fs" "currentTerm y = currentTerm (nodes s ! i) + 1" "votedFor y = int i"
    "log y = log (nodes s ! p)" "term_vote_law (nodes s ! p) y"
proof -
  let ?args = "elect_args (nodes s ! i) es"
  obtain s1 where s1: "cluster_reach E s s1" "nodes s1 = (nodes s)[i := candidate_of c (nodes s ! i)]"
      "voteCounts s1 = voteCounts s @ [1]"
    and th: "vthreads s1 (length (voteCounts s), p) = Some \<lparr>vt_owner = i, vt_args = ?args, vt_phase = VCalling\<rparr>"
    using candidate_run [OF i(1-4), of c thesis] i(5) three p by auto
  have range: "0 \<le> rv_term ?args" "rv_term ?args < 2 ^ 31" "0 \<le> rv_lastLogIndex ?args" "rv_lastLogIndex ?args < 2 ^ 31"
    using i(4) node_okD [OF i(2)] by (auto simp: elect_args_def)
  obtain y reply where y: "RequestVote E c (nodes s ! p) ?args = Inr (y, reply)" "rvr_voteGranted reply"
      "rvr_term reply = rv_term ?args" "currentTerm y = rv_term ?args" "votedFor y = rv_candidateId ?args"
      "log y = log (nodes s ! p)" "node_ok E y fs"
    using request_vote_rep [OF p(3) range, of c] vote by (auto simp: may_vote_def)
  obtain s2 where "cluster_reach E s1 s2"
      "nodes s2 = (nodes s1)[i := become_leader (nodes s1 ! i), p := y]"
    by (rule vote_run [OF th, of E c y reply]) (use i three p s1 y in \<open>simp_all add: elect_args_def\<close>)
  with s1 y law_RequestVote [OF y(1)] i three p show ?thesis
    by (intro that [of s2 y]) (auto simp: elect_args_def)
qed

text \<open>Node 0 of three fresh nodes wins the first term with the vote of node 1.\<close>

lemma first_leader_run:
  assumes "length configs = 3"
    and "\<And>i. i < 3 \<Longrightarrow> node_ok E (new_RaftNode E configs (dirs i) (int i)) [default_Entry]"
  obtains s y where "cluster_reach E (initial_cluster E configs dirs) s"
    "nodes s = [become_leader (candidate_of c (new_RaftNode E configs (dirs 0) 0)), y, new_RaftNode E configs (dirs 2) 2]"
    "node_ok E y [default_Entry]" "log y = log (new_RaftNode E configs (dirs 1) 1)"
    "term_vote_law (new_RaftNode E configs (dirs 1) 1) y"
proof -
  let ?n = "\<lambda>i. new_RaftNode E configs (dirs i) (int i)"
  have ns: "nodes (initial_cluster E configs dirs) = [?n 0, ?n 1, ?n 2]"
    using assms(1) by (simp add: initial_cluster_def numeral_3_eq_3 numeral_2_eq_2)
  show ?thesis
    by (rule election_run [of 0 "initial_cluster E configs dirs" E "[default_Entry]" 1 "[default_Entry]" c])
      (use assms(2) [of 0] assms(2) [of 1] assms(1) ns that in
        \<open>simp_all add: elect_args_def may_vote_def up_to_date_def new_RaftNode_def default_Entry_def\<close>)
qed

definition sample_cluster :: "bytes cluster" where
  "sample_cluster = initial_cluster mem_env sample_configs (\<lambda>i. ''dir'')"

lemma sample_nodes:
  "nodes sample_cluster = map (\<lambda>i. new_RaftNode mem_env sample_configs ''dir'' (int i)) [0, 1, 2]"
  "elects sample_cluster = (\<lambda>_. 0)" "voteCounts sample_cluster = []" "vthreads sample_cluster = (\<lambda>_. None)"
  by (simp_all add: sample_cluster_def initial_cluster_def sample_configs_def)

lemma sample_leader_run:
  "\<exists>s. cluster_reach mem_env sample_cluster s \<and> role (nodes s ! 0) = LEADER \<and> currentTerm (nodes s ! 0) = 1"
proof -
  have "length sample_configs = 3" by (simp add: sample_configs_def)
  from first_leader_run [OF this new_node_ok, of "\<lambda>_. ''dir''"] obtain s y where
    "cluster_reach mem_env (initial_cluster mem_env sample_configs (\<lambda>_. ''dir'')) s"
    "nodes s = [become_leader (candidate_of undefined (new_RaftNode mem_env sample_configs ''dir'' 0)), y,
       new_RaftNode mem_env sample_configs ''dir'' 2]" by metis
  then show ?thesis by (intro exI [of _ s]) (simp add: sample_cluster_def become_leader_keeps)
qed

section \<open>Properties\<close>

text \<open>
  C4. Election Safety: in a cluster started from fresh nodes, whatever messages are lost and however
  the threads interleave, two nodes that are leader in the same term, at the same or at different
  moments, are the same node.
\<close>

theorem election_safety:
  assumes "length configs < 2 ^ 31"
    and "cluster_reach E (initial_cluster E configs dirs) s" and "cluster_reach E s s'"
    and "i < length configs" "role (nodes s ! i) = LEADER"
    and "j < length configs" "role (nodes s' ! j) = LEADER"
    and "currentTerm (nodes s ! i) = currentTerm (nodes s' ! j)"
  shows "i = j"
proof -
  have len: "length (nodes s) = length configs" "length (nodes s') = length configs"
    using reach_length [OF assms(2)] reach_length [OF assms(3)] by (simp_all add: initial_cluster_def)
  from reach_vote_inv [OF assms(2) initial_vote_inv [OF assms(1)]]
  obtain V I K where s: "vote_inv V I K s" "appends_wired s" by blast
  from reach_vote_inv [OF assms(3) s] obtain V' I' K' where s': "vle V V'" "vote_inv V' I' K' s'" by blast
  have "elected V' (length configs) i (currentTerm (nodes s ! i))"
    using elected_mono [OF s'(1) leader_elected [OF s(1)]] assms(4,5) len by simp
  moreover have "elected V' (length configs) j (currentTerm (nodes s ! i))"
    using leader_elected [OF s'(2)] assms(6,7,8) len by simp
  ultimately show ?thesis by (rule elected_unique)
qed

theorem election_safety_witness:
  "\<exists>s. cluster_reach mem_env sample_cluster s \<and> role (nodes s ! 0) = LEADER \<and> currentTerm (nodes s ! 0) = 1
     \<and> {j. j < 3 \<and> role (nodes s ! j) = LEADER \<and> currentTerm (nodes s ! j) = 1} = {0}"
proof -
  obtain s where s: "cluster_reach mem_env sample_cluster s" "role (nodes s ! 0) = LEADER" "currentTerm (nodes s ! 0) = 1"
    using sample_leader_run by blast
  have "0 = j" if "j < 3" "role (nodes s ! j) = LEADER" "currentTerm (nodes s ! j) = 1" for j
    by (rule election_safety [OF _ s(1) [unfolded sample_cluster_def] rtranclp.rtrancl_refl _ s(2)])
      (use that s(3) in \<open>simp_all add: sample_configs_def\<close>)
  with s show ?thesis by (intro exI [of _ s]) auto
qed

end
