(* ===== verification/Raft_Cluster_Log.thy ===== *)
theory Raft_Cluster_Log
  imports Raft_Cluster
begin

text \<open>
  The logs of a running cluster. A node's log changes only in \<open>AppendEntries\<close>, with entries a
  leader of the message's term read from its own log; so in a cluster started on any set of matching
  logs every log stays one of them, Log Matching holds for ever, a leader never rewrites its
  own log, and no handler runs into an exception, a failed assertion, an index out of range or a
  signed overflow. Terms are bounded only by the range of \<open>int\<close>: an election in the last term is
  the one exception.
\<close>

section \<open>Logs, messages and replies\<close>

text \<open>The bytes a log takes on disk, and the logs a cluster may start with.\<close>

definition log_bytes :: "'f store_env \<Rightarrow> Entry list \<Rightarrow> nat" where
  "log_bytes E L = length (concat (map (encode_entry E) L))"

definition logs_fit :: "'f store_env \<Rightarrow> Entry list set \<Rightarrow> bool" where
  "logs_fit E S \<longleftrightarrow>
     (\<forall>L \<in> S. \<forall>e \<in> set L. entry_ok (e_wire E) e)
   \<and> (\<forall>L \<in> S. \<forall>M \<in> S. log_match L M \<and> log_bytes E L + log_bytes E M < 2 ^ 64)"

definition node_fine :: "'f store_env \<Rightarrow> Entry list set \<Rightarrow> 'f RaftNode \<Rightarrow> bool" where
  "node_fine E S x \<longleftrightarrow> (\<exists>es \<in> S. node_ok E x es \<and> (role x = LEADER \<longrightarrow> leader_ok x es))"

text \<open>
  What remains true of a node that was leader of term \<open>t\<close> with log \<open>L\<close>: in that term it is not a
  candidate, and while it is leader it has that log.
\<close>

definition led :: "'f store_env \<Rightarrow> 'f RaftNode \<Rightarrow> int \<Rightarrow> Entry list \<Rightarrow> bool" where
  "led E x t L \<longleftrightarrow> t \<le> currentTerm x
     \<and> (currentTerm x = t \<longrightarrow> role x \<noteq> CANDIDATE \<and> (role x = LEADER \<longrightarrow> node_ok E x L))"

definition keeps_led :: "'f store_env \<Rightarrow> 'f RaftNode \<Rightarrow> 'f RaftNode \<Rightarrow> bool" where
  "keeps_led E x x' \<longleftrightarrow> (\<forall>t L. led E x t L \<longrightarrow> led E x' t L)"

text \<open>A message with the entries of \<open>L\<close> after some index.\<close>

definition sent_from :: "Entry list \<Rightarrow> AppendEntriesArgs \<Rightarrow> bool" where
  "sent_from L args \<longleftrightarrow> args_ok args \<and> ae_prevLogIndex args < int (length L)
     \<and> ae_prevLogTerm args = e_term (L ! nat (ae_prevLogIndex args))
     \<and> ae_entries args = drop (Suc (nat (ae_prevLogIndex args))) L"

definition reply_ok :: "AppendEntriesArgs \<Rightarrow> AppendEntriesReply \<Rightarrow> bool" where
  "reply_ok args r \<longleftrightarrow> 0 \<le> aer_term r \<and> aer_term r < 2 ^ 31
     \<and> (aer_success r \<or> ae_term args < aer_term r
        \<or> aer_xTerm r = -1 \<and> 1 \<le> aer_xLen r \<and> aer_xLen r \<le> ae_prevLogIndex args
        \<or> 0 \<le> aer_xTerm r \<and> 1 \<le> aer_xIndex r \<and> aer_xIndex r \<le> ae_prevLogIndex args + 1)"

primrec append_phase_ok :: "AppendEntriesArgs \<Rightarrow> append_phase \<Rightarrow> bool" where
  "append_phase_ok args ACalling = True"
| "append_phase_ok args (AReplied answer) = (case answer of None \<Rightarrow> True | Some r \<Rightarrow> reply_ok args r)"
| "append_phase_ok args ADone = True"

definition append_ok :: "'f store_env \<Rightarrow> Entry list set \<Rightarrow> votes \<Rightarrow> 'f RaftNode list \<Rightarrow> append_thread \<Rightarrow> bool" where
  "append_ok E S V ns th \<longleftrightarrow>
     (\<exists>L \<in> S. sent_from L (at_args th) \<and> led E (ns ! at_owner th) (ae_term (at_args th)) L)
   \<and> elected V (length ns) (at_owner th) (ae_term (at_args th))
   \<and> append_phase_ok (at_args th) (at_phase th)"

primrec vote_phase_ok :: "vote_phase \<Rightarrow> bool" where
  "vote_phase_ok VCalling = True"
| "vote_phase_ok (VReplied answer) =
     (case answer of None \<Rightarrow> True | Some r \<Rightarrow> 0 \<le> rvr_term r \<and> rvr_term r < 2 ^ 31)"
| "vote_phase_ok VGranted = True"

definition vote_msg_ok :: "vote_thread \<Rightarrow> bool" where
  "vote_msg_ok th \<longleftrightarrow>
     0 \<le> rv_term (vt_args th) \<and> rv_term (vt_args th) < 2 ^ 31
   \<and> 0 \<le> rv_lastLogIndex (vt_args th) \<and> rv_lastLogIndex (vt_args th) < 2 ^ 31
   \<and> vote_phase_ok (vt_phase th)"

definition log_inv :: "'f store_env \<Rightarrow> Entry list set \<Rightarrow> votes \<Rightarrow> 'f cluster \<Rightarrow> bool" where
  "log_inv E S V s \<longleftrightarrow>
     (\<forall>i < length (nodes s). node_fine E S (nodes s ! i))
   \<and> (\<forall>th \<in> set (athreads s). append_ok E S V (nodes s) th)
   \<and> (\<forall>ap th. vthreads s ap = Some th \<longrightarrow> vote_msg_ok th)"

lemma log_invD:
  assumes "log_inv E S V s"
  shows "i < length (nodes s) \<Longrightarrow> node_fine E S (nodes s ! i)"
    "th \<in> set (athreads s) \<Longrightarrow> append_ok E S V (nodes s) th"
    "vthreads s ap = Some vth \<Longrightarrow> vote_msg_ok vth"
  using assms unfolding log_inv_def by blast+

lemma keeps_led_refl [simp]: "keeps_led E x x"
  by (simp add: keeps_led_def)

lemma keeps_ledI:
  assumes "currentTerm x \<le> currentTerm x'"
    and "currentTerm x' = currentTerm x \<Longrightarrow> role x \<noteq> CANDIDATE \<Longrightarrow> role x' \<noteq> CANDIDATE"
    and "\<And>L. currentTerm x' = currentTerm x \<Longrightarrow> role x \<noteq> CANDIDATE \<Longrightarrow> role x' = LEADER \<Longrightarrow>
      role x = LEADER \<and> (node_ok E x L \<longrightarrow> node_ok E x' L)"
  shows "keeps_led E x x'"
  unfolding keeps_led_def led_def using assms by (metis order.antisym order_trans)

lemma append_ok_mono: "vle V V' \<Longrightarrow> append_ok E S V ns th \<Longrightarrow> append_ok E S V' ns th"
  by (auto simp: append_ok_def elected_mono)

lemma log_inv_mono: "vle V V' \<Longrightarrow> log_inv E S V s \<Longrightarrow> log_inv E S V' s"
  by (auto simp: log_inv_def append_ok_mono)

lemma append_ok_node:
  "append_ok E S V ns th \<Longrightarrow> keeps_led E (ns ! i) x \<Longrightarrow> append_ok E S V (ns[i := x]) th"
proof (cases "i < length ns")
  case True
  assume "append_ok E S V ns th" "keeps_led E (ns ! i) x"
  with True show ?thesis by (cases "at_owner th = i") (auto simp: append_ok_def keeps_led_def)
qed (simp add: list_update_beyond)

lemma log_inv_set_node:
  assumes "log_inv E S V s" and "node_fine E S x" and "keeps_led E (nodes s ! i) x"
  shows "log_inv E S V (set_node i x s)"
proof -
  have "node_fine E S ((nodes s)[i := x] ! j)" if "j < length (nodes s)" for j
    using assms(1,2) that by (cases "j = i") (simp_all add: log_inv_def)
  with assms(1) append_ok_node [OF _ assms(3)] show ?thesis by (simp add: log_inv_def)
qed

lemma log_inv_other:
  "log_inv E S V (s\<lparr>elects := f\<rparr>) = log_inv E S V s"
  "log_inv E S V (s\<lparr>heartbeats := g\<rparr>) = log_inv E S V s"
  "log_inv E S V (s\<lparr>voteCounts := h\<rparr>) = log_inv E S V s"
  by (simp_all add: log_inv_def)

lemma log_inv_set_thread:
  "log_inv E S V s \<Longrightarrow> (\<And>t. th = Some t \<Longrightarrow> vote_msg_ok t) \<Longrightarrow> log_inv E S V (set_thread ap th s)"
  by (auto simp: log_inv_def set_thread_def)

lemma log_inv_set_athread:
  assumes "log_inv E S V s" and "k < length (athreads s)" and "append_phase_ok (at_args (athreads s ! k)) ph"
  shows "log_inv E S V (set_athread k ph s)"
proof -
  have "append_ok E S V (nodes s) (athreads s ! k)" using assms(1,2) by (simp add: log_inv_def)
  then have "append_ok E S V (nodes s) ((athreads s ! k)\<lparr>at_phase := ph\<rparr>)"
    using assms(3) by (simp add: append_ok_def)
  with assms(1) show ?thesis
    by (auto simp: log_inv_def set_athread_def dest!: subsetD [OF set_update_subset_insert])
qed

section \<open>One node\<close>

lemma leader_ok_cong:
  "cluster_configs x' = cluster_configs x \<Longrightarrow> nextIndex x' = nextIndex x \<Longrightarrow> matchIndex x' = matchIndex x \<Longrightarrow>
    length es' = length es \<Longrightarrow> leader_ok x' es' = leader_ok x es"
  by (simp add: leader_ok_def)

lemma log_lengths: "node_ok E x L \<Longrightarrow> node_ok E x es \<Longrightarrow> length L = length es"
  using log_size_rep [of E x L] log_size_rep [of E x es] by simp

lemma node_fineE:
  assumes "node_fine E S x"
  obtains es where "es \<in> S" "node_ok E x es" "role x = LEADER \<Longrightarrow> leader_ok x es"
  using assms by (auto simp: node_fine_def)

text \<open>A step that keeps log and indices, and the role or makes the node a follower.\<close>

lemma fine_quiet:
  assumes "node_fine E S x" and "\<And>es. node_ok E x es \<Longrightarrow> node_ok E x' es"
    and "role x' = LEADER \<Longrightarrow> role x = LEADER"
    and "cluster_configs x' = cluster_configs x" "nextIndex x' = nextIndex x" "matchIndex x' = matchIndex x"
  shows "node_fine E S x'"
  using assms(1,2,3) leader_ok_cong [OF assms(4-6) refl] by (auto simp: node_fine_def)

lemma RequestVote_keeps:
  "RequestVote E c x args = Inr (x', reply) \<Longrightarrow>
    nextIndex x' = nextIndex x \<and> matchIndex x' = matchIndex x \<and> log x' = log x
  \<and> (role x' = role x \<or> role x' = FOLLOWER)"
  by (auto simp: RequestVote_def Let_def rbind_Inr_iff split: if_splits)

lemma vote_request_fine:
  assumes fine: "node_fine E S x" and ok: "vote_msg_ok th"
  shows "\<exists>x' reply. RequestVote E c x (vt_args th) = Inr (x', reply)" and
    "RequestVote E c x (vt_args th) = Inr (x', reply) \<Longrightarrow>
       node_fine E S x' \<and> keeps_led E x x' \<and> 0 \<le> rvr_term reply \<and> rvr_term reply < 2 ^ 31"
proof -
  have range: "0 \<le> rv_term (vt_args th)" "rv_term (vt_args th) < 2 ^ 31"
    "0 \<le> rv_lastLogIndex (vt_args th)" "rv_lastLogIndex (vt_args th) < 2 ^ 31"
    using ok by (simp_all add: vote_msg_ok_def)
  obtain es where es: "node_ok E x es" using fine by (auto simp: node_fine_def)
  show "\<exists>x' reply. RequestVote E c x (vt_args th) = Inr (x', reply)"
    using request_vote_rep [OF es range] by blast
  assume run: "RequestVote E c x (vt_args th) = Inr (x', reply)"
  have rep: "node_ok E x' ds" if "node_ok E x ds" for ds using request_vote_rep [OF that range, of c] run by auto
  note keep = RequestVote_keeps [OF run] and law = law_RequestVote [OF run]
  have "node_fine E S x'"
    using fine rep keep law by (intro fine_quiet [OF fine]) (auto simp: term_vote_law_def)
  moreover have "keeps_led E x x'"
    using keep law rep by (intro keeps_ledI) (auto simp: term_vote_law_def)
  moreover have "rvr_term reply = max (currentTerm x) (rv_term (vt_args th))"
    using request_vote_rep [OF es range, of c] run by auto
  ultimately show "node_fine E S x' \<and> keeps_led E x x' \<and> 0 \<le> rvr_term reply \<and> rvr_term reply < 2 ^ 31"
    using range node_okD(12,13) [OF es] by auto
qed

lemma vote_answer_fine:
  assumes fine: "node_fine E S x" and ok: "vote_phase_ok (VReplied answer)"
    and run: "GetVoteAnswer x args answer = (x', got)"
  shows "node_fine E S x'" and "keeps_led E x x'"
proof -
  have cases: "x' = x \<or> (\<exists>r. answer = Some r \<and> currentTerm x < rvr_term r
      \<and> x' = x\<lparr>currentTerm := rvr_term r, role := FOLLOWER, votedFor := -1\<rparr>)"
    using run by (auto simp: GetVoteAnswer_def Let_def split: option.splits if_splits)
  then have rep: "node_ok E x' ds" if "node_ok E x ds" for ds
    using that ok by (auto simp: node_ok_def)
  show "node_fine E S x'" using cases rep by (intro fine_quiet [OF fine]) auto
  show "keeps_led E x x'" using cases rep by (intro keeps_ledI) auto
qed

lemma collect_fine:
  assumes fine: "node_fine E S x" and run: "collectVote_granted x args count = (x', count', lead)"
  shows "node_fine E S x'" and "keeps_led E x x'"
proof -
  have cases: "x' = x \<or> role x = CANDIDATE \<and> x' = become_leader x"
    using run by (auto simp: collectVote_granted_def Let_def split: if_splits)
  show "node_fine E S x'"
    using cases fine become_leader_ok [of E x] by (auto simp: node_fine_def)
  show "keeps_led E x x'" using cases by (auto intro!: keeps_ledI simp: become_leader_keeps)
qed

lemma elect_fine:
  assumes fine: "node_fine E S x"
  shows "currentTerm x < 2 ^ 31 - 1 \<Longrightarrow> \<exists>r. Elect E x = Inr r" and
    "Elect E x = Inr (x', args, peers) \<Longrightarrow> node_fine E S x' \<and> keeps_led E x x'
       \<and> vote_msg_ok \<lparr>vt_owner = i, vt_args = args, vt_phase = VCalling\<rparr>"
proof -
  obtain es where es: "es \<in> S" "node_ok E x es" using fine by (auto simp: node_fine_def)
  show "currentTerm x < 2 ^ 31 - 1 \<Longrightarrow> \<exists>r. Elect E x = Inr r" using elect_rep [OF es(2)] by auto
  assume run: "Elect E x = Inr (x', args, peers)"
  then have lim: "currentTerm x + 1 < 2 ^ 31" by (auto simp: Elect_def in_i32_def split: if_splits)
  have x': "x' = x\<lparr>currentTerm := currentTerm x + 1, role := CANDIDATE, votedFor := cur_node_id x\<rparr>"
    "args = \<lparr>rv_term = currentTerm x + 1, rv_candidateId = cur_node_id x,
      rv_lastLogIndex = int (length es) - 1, rv_lastLogTerm = e_term (last es)\<rparr>"
    using run elect_rep [OF es(2) lim] by simp_all
  have "node_ok E x' es" using es(2) lim x'(1) by (simp add: node_ok_def)
  with es(1) x'(1) have "node_fine E S x'" by (auto simp: node_fine_def)
  moreover have "keeps_led E x x'" using x'(1) by (auto intro!: keeps_ledI)
  moreover have "0 < length es" "length es < 2 ^ 31 - 1" using node_okD(2,3) [OF es(2)] by simp_all
  ultimately show "node_fine E S x' \<and> keeps_led E x x'
       \<and> vote_msg_ok \<lparr>vt_owner = i, vt_args = args, vt_phase = VCalling\<rparr>"
    using lim x'(2) node_okD(12) [OF es(2)] by (simp add: vote_msg_ok_def)
qed

lemma timer_fine:
  assumes "node_fine E S x"
  shows "node_fine E S (ResetVoteTimer c x)" "keeps_led E x (ResetVoteTimer c x)"
    "node_fine E S (ResetHeartTimer c d x)" "keeps_led E x (ResetHeartTimer c d x)"
    "node_fine E S (kill x)" "keeps_led E x (kill x)"
proof -
  have kill: "node_ok E (kill x) es = node_ok E x es" for es by (simp add: node_ok_def kill_def)
  have same: "role (kill x) = role x" "currentTerm (kill x) = currentTerm x" "nextIndex (kill x) = nextIndex x"
    "matchIndex (kill x) = matchIndex x" "cluster_configs (kill x) = cluster_configs x"
    by (simp_all add: kill_def)
  show "node_fine E S (ResetVoteTimer c x)" "node_fine E S (ResetHeartTimer c d x)" "node_fine E S (kill x)"
    by (rule fine_quiet [OF assms]; simp add: kill same)+
  show "keeps_led E x (ResetVoteTimer c x)" "keeps_led E x (ResetHeartTimer c d x)" "keeps_led E x (kill x)"
    by (rule keeps_ledI; simp add: kill same)+
qed


lemma fit_room:
  assumes "logs_fit E S" and "node_ok E x es" and "es \<in> S" "L \<in> S"
  shows "logvec_room E (log x) L"
  using assms rep_facts(4) [OF node_okD(1) [OF assms(2)]]
  by (simp add: logs_fit_def logvec_room_def log_bytes_def)

lemma fit_match: "logs_fit E S \<Longrightarrow> L \<in> S \<Longrightarrow> M \<in> S \<Longrightarrow> log_match L M"
  by (simp add: logs_fit_def)

lemma AppendEntries_role:
  "AppendEntries E c x args = Inr (x', reply) \<Longrightarrow> role x' = role x \<or> role x' = FOLLOWER"
  by (auto simp: AppendEntries_def ae_log_def ae_enter_def Let_def rbind_Inr_iff split: if_splits)

text \<open>
  The entries of one of the logs arrive at a node that is not leader of the same term: the node
  has one of the two logs afterwards.
\<close>

lemma append_request_cases:
  assumes fit: "logs_fit E S" and x: "es \<in> S" "node_ok E x es" and L: "L \<in> S" "sent_from L args"
  shows "\<exists>x' reply es'. AppendEntries E c x args = Inr (x', reply) \<and> es' \<in> S \<and> node_ok E x' es'
    \<and> reply_ok args reply \<and> currentTerm x' = max (currentTerm x) (ae_term args)
    \<and> (ae_term args < currentTerm x \<longrightarrow> x' = x)"
proof -
  have ok: "args_ok args" and prev: "ae_prevLogIndex args < int (length L)"
      "ae_prevLogTerm args = e_term (L ! nat (ae_prevLogIndex args))"
      "ae_entries args = drop (Suc (nat (ae_prevLogIndex args))) L"
    using L(2) by (simp_all add: sent_from_def)
  have range: "0 \<le> ae_prevLogIndex args" "0 \<le> ae_term args" "ae_term args < 2 ^ 31"
    using ok by (simp_all add: args_ok_def)
  let ?p = "nat (ae_prevLogIndex args)"
  consider "ae_term args < currentTerm x" | "currentTerm x \<le> ae_term args" "prev_matches es args"
    | "currentTerm x \<le> ae_term args" "\<not> prev_matches es args" by linarith
  then show ?thesis
  proof cases
    case 1
    then have "reply_ok args (default_AppendEntriesReply\<lparr>aer_term := currentTerm x\<rparr>)"
      using node_okD(12,13) [OF x(2)] by (simp add: reply_ok_def default_AppendEntriesReply_def)
    with 1 x append_stale [OF 1, of E c] show ?thesis by auto
  next
    case 2
    have room: "logvec_room E (log x) (ae_entries args)"
      unfolding prev(3) by (rule room_drop [OF fit_room [OF fit x(2,1) L(1)]])
    have p: "?p < length es" "?p < length L" "e_term (es ! ?p) = e_term (L ! ?p)"
      using 2(2) prev range by (auto simp: prev_matches_def nat_less_iff)
    note match = fit_match [OF fit x(1) L(1)]
    have "take (Suc ?p) es = take (Suc ?p) L" by (rule log_matchD [OF match p])
    from merge_of_log [OF match _ _ this] p x(1) L(1)
    have "merge_spec es (Suc ?p) (ae_entries args) \<in> S" unfolding prev(3) by auto
    with append_success [OF x(2) ok room 2, of c] range 2(1) show ?thesis
      by (auto simp: reply_ok_def)
  next
    case 3
    from append_conflict [OF x(2) ok 3, of c] obtain x' reply where
      r: "AppendEntries E c x args = Inr (x', reply)" "aer_term reply = ae_term args"
        "currentTerm x' = ae_term args" "node_ok E x' es"
      and idx: "if int (length es) \<le> ae_prevLogIndex args
       then aer_xTerm reply = -1 \<and> aer_xLen reply = int (length es)
       else aer_xTerm reply = e_term (es ! nat (ae_prevLogIndex args))
          \<and> aer_xTerm reply \<noteq> ae_prevLogTerm args
          \<and> 1 \<le> aer_xIndex reply \<and> aer_xIndex reply \<le> ae_prevLogIndex args + 1
          \<and> (commitIndex x < ae_prevLogIndex args \<longrightarrow> aer_xIndex reply \<le> ae_prevLogIndex args)" by blast
    have "0 < length es" using node_okD(2) [OF x(2)] by simp
    moreover have "0 \<le> e_term (es ! ?p)" if "\<not> int (length es) \<le> ae_prevLogIndex args"
      using node_okD(5) [OF x(2)] that range by simp
    ultimately have "reply_ok args reply"
      using idx r(2) range by (auto simp: reply_ok_def Suc_le_eq split: if_splits)
    with r x(1) 3(1) show ?thesis by auto
  qed
qed

lemma append_request_fine:
  assumes fit: "logs_fit E S" and fine: "node_fine E S x" and L: "L \<in> S" "sent_from L args"
    and follower: "currentTerm x = ae_term args \<Longrightarrow> role x \<noteq> LEADER"
  shows "\<exists>x' reply. AppendEntries E c x args = Inr (x', reply)" and
    "AppendEntries E c x args = Inr (x', reply) \<Longrightarrow>
      node_fine E S x' \<and> keeps_led E x x' \<and> reply_ok args reply"
proof -
  obtain es where es: "es \<in> S" "node_ok E x es" using fine by (auto simp: node_fine_def)
  note run = append_request_cases [OF fit es L, of c]
  show "\<exists>x' reply. AppendEntries E c x args = Inr (x', reply)" using run by blast
  assume r: "AppendEntries E c x args = Inr (x', reply)"
  with run obtain es' where x': "es' \<in> S" "node_ok E x' es'" "reply_ok args reply"
    "currentTerm x' = max (currentTerm x) (ae_term args)" "ae_term args < currentTerm x \<longrightarrow> x' = x" by auto
  note role = AppendEntries_role [OF r] and law = law_AppendEntries [OF r]
  have lead: "role x' = LEADER \<Longrightarrow> x' = x"
    using law follower x'(4,5) by (auto simp: no_new_leader_def max_def split: if_splits)
  have "node_fine E S x'"
  proof (cases "role x' = LEADER")
    case True
    with lead fine show ?thesis by simp
  next
    case False
    with x' show ?thesis by (auto simp: node_fine_def)
  qed
  moreover have "keeps_led E x x'" using law role lead by (intro keeps_ledI) (auto simp: term_vote_law_def)
  ultimately show "node_fine E S x' \<and> keeps_led E x x' \<and> reply_ok args reply" using x'(3) by simp
qed

text \<open>What a leader does with the reply, whichever list stands for its log.\<close>

lemma leader_reply_cases:
  assumes x: "node_ok E x L" "leader_ok x L" "role x = LEADER" and target: "target < length (cluster_configs x)"
    and args: "sent_from L args" "ae_term args = currentTerm x" and r: "reply_ok args r"
  shows "\<exists>x'. handleAppendEntries E c x target args (Some r) = Inr x'
    \<and> (role x' = FOLLOWER \<and> currentTerm x < currentTerm x' \<and> node_ok E x' L
       \<or> role x' = LEADER \<and> currentTerm x' = currentTerm x \<and> node_ok E x' L \<and> leader_ok x' L)"
proof -
  have ok: "args_ok args" and prev: "ae_prevLogIndex args < int (length L)"
      "ae_entries args = drop (Suc (nat (ae_prevLogIndex args))) L"
    using args(1) by (simp_all add: sent_from_def)
  have p: "0 \<le> ae_prevLogIndex args" using ok by (simp add: args_ok_def)
  note n = node_okD [OF x(1)]
  consider "aer_success r" | "\<not> aer_success r" "currentTerm x < aer_term r"
    | "\<not> aer_success r" "aer_term r = currentTerm x" | "\<not> aer_success r" "aer_term r < currentTerm x" by linarith
  then show ?thesis
  proof cases
    case 1
    have "new_match args < int (length L)" using prev p by (simp add: new_match_def)
    from handle_success_rep [OF x(1,2) target p this] obtain x' where
      x': "handle_success E x target args = Inr x'" "node_ok E x' L" "leader_ok x' L" by blast
    with 1 x(3) args(2) handle_success_keeps [OF x'(1)] show ?thesis by (auto simp: handleAppendEntries_def)
  next
    case 2
    let ?x = "x\<lparr>currentTerm := aer_term r, role := FOLLOWER, votedFor := -1\<rparr>"
    have "node_ok E ?x L" using x(1) r by (simp add: node_ok_def reply_ok_def)
    with 2 x(3) args(2) show ?thesis by (simp add: handleAppendEntries_def)
  next
    case 3
    have c: "aer_xTerm r = -1 \<Longrightarrow> 1 \<le> aer_xLen r \<and> aer_xLen r \<le> ae_prevLogIndex args"
      "aer_xTerm r \<noteq> -1 \<Longrightarrow> 0 \<le> aer_xTerm r \<and> 1 \<le> aer_xIndex r \<and> aer_xIndex r \<le> ae_prevLogIndex args + 1"
      using r 3 args(2) by (auto simp: reply_ok_def)
    have small: "ae_prevLogIndex args + 1 < 2 ^ 31" using prev(1) n(3) by simp
    from rollback_next_cases [OF x(1,2) target, of r] c small obtain m where
      m: "rollback_next E x target r = Inr m"
        "if aer_xTerm r = -1 then m = aer_xLen r
         else m = aer_xIndex r \<or> (\<exists>j. 0 \<le> j \<and> j \<le> nextIndex x ! target - 1
            \<and> e_term (L ! nat j) = aer_xTerm r \<and> m = j + 1)" by fastforce
    have bounds: "1 \<le> m \<and> m \<le> int (length L)"
      using m(2) c prev(1) leader_okD(2) [OF x(2) target] by (auto split: if_splits)
    have t: "target < length (nextIndex x)" using target n(7) by simp
    let ?x = "x\<lparr>nextIndex := (nextIndex x)[target := m]\<rparr>"
    have "handleAppendEntries E c x target args (Some r) = Inr ?x"
      using 3 x(3) args(2) m(1) t by (simp add: handleAppendEntries_def)
    moreover have "node_ok E ?x L" using x(1) by (simp add: node_ok_def)
    moreover have "leader_ok ?x L" using x(2) bounds t by (auto simp: leader_ok_def nth_list_update)
    ultimately show ?thesis using x(3) by auto
  next
    case 4
    with x args(2) show ?thesis by (simp add: handleAppendEntries_def)
  qed
qed

lemma append_answer_fine:
  assumes fine: "node_fine E S x" and L: "sent_from L args" "led E x (ae_term args) L"
    and target: "target < length (cluster_configs x)" and r: "append_phase_ok args (AReplied answer)"
  shows "\<exists>x'. handleAppendEntries E c x target args answer = Inr x'" and
    "handleAppendEntries E c x target args answer = Inr x' \<Longrightarrow> node_fine E S x' \<and> keeps_led E x x'"
proof -
  have "\<exists>x'. handleAppendEntries E c x target args answer = Inr x' \<and> node_fine E S x' \<and> keeps_led E x x'"
  proof (cases "\<exists>reply. answer = Some reply \<and> role x = LEADER \<and> ae_term args = currentTerm x")
    case False
    then have "handleAppendEntries E c x target args answer = Inr x"
      by (auto simp: handleAppendEntries_def split: option.split)
    with fine show ?thesis by simp
  next
    case True
    then obtain reply where a: "answer = Some reply" "role x = LEADER" "ae_term args = currentTerm x" by blast
    obtain es where es: "es \<in> S" "node_ok E x es" "leader_ok x es"
      using fine a(2) by (auto simp: node_fine_def)
    have ok: "node_ok E x L" using L(2) a by (simp add: led_def)
    have eq: "M = L" if "node_ok E x M" for M
    proof (rule nth_equalityI)
      show len: "length M = length L" by (rule log_lengths [OF that ok])
      fix i assume "i < length M"
      with len show "M ! i = L ! i"
        using lv.index_rep [OF node_okD(1) [OF that], of i] lv.index_rep [OF node_okD(1) [OF ok], of i] by simp
    qed
    with es have lead: "leader_ok x L" "L \<in> S" by auto
    have "reply_ok args reply" using r a(1) by simp
    from leader_reply_cases [OF ok lead(1) a(2) target L(1) a(3) this, of c] obtain x' where
      x': "handleAppendEntries E c x target args answer = Inr x'"
        "role x' = FOLLOWER \<and> currentTerm x < currentTerm x' \<and> node_ok E x' L
         \<or> role x' = LEADER \<and> currentTerm x' = currentTerm x \<and> node_ok E x' L \<and> leader_ok x' L"
      using a(1) by blast
    have "node_fine E S x'" using x'(2) lead(2) by (auto simp: node_fine_def)
    moreover have "keeps_led E x x'" using x'(2) eq by (intro keeps_ledI) (auto simp: a(2))
    ultimately show ?thesis using x'(1) by blast
  qed
  then show "\<exists>x'. handleAppendEntries E c x target args answer = Inr x'"
    "handleAppendEntries E c x target args answer = Inr x' \<Longrightarrow> node_fine E S x' \<and> keeps_led E x x'" by auto
qed


lemma heartbeat_fine:
  assumes fine: "node_fine E S x"
  shows "\<exists>r. SendHeartBeats_round E c x = Inr r"
proof (cases "role x = LEADER")
  case True
  with fine obtain es where "node_ok E x es" "leader_ok x es" by (auto simp: node_fine_def)
  from heartbeat_round_complete [OF this True, of c] show ?thesis by blast
qed (simp add: SendHeartBeats_round_def)

lemma heartbeat_msg_fine:
  assumes fine: "node_fine E S x" and run: "SendHeartBeats_round E c x = Inr (Some (x', msgs))"
    and p: "p < length (cluster_configs x)" "heartbeat_args E x p = Inr (Some args)"
  shows "\<exists>L \<in> S. sent_from L args \<and> led E x (ae_term args) L" and "ae_term args = currentTerm x"
    and "role x = LEADER" and "x' = ResetHeartTimer c HeartBeatTimeOut x"
proof -
  show lead: "role x = LEADER" and "x' = ResetHeartTimer c HeartBeatTimeOut x"
    using run by (auto simp: SendHeartBeats_round_def rbind_Inr_iff split: if_splits)
  then obtain L where L: "L \<in> S" "node_ok E x L" "leader_ok x L" using fine by (auto simp: node_fine_def)
  note a = heartbeat_args_ok [OF L(2,3) p]
  show t: "ae_term args = currentTerm x" by (rule a(4))
  from a have "sent_from L args" by (simp add: sent_from_def)
  with L t lead show "\<exists>L \<in> S. sent_from L args \<and> led E x (ae_term args) L" by (auto simp: led_def)
qed

section \<open>Every step keeps the invariant\<close>

lemma thread_nodes:
  assumes "vote_inv V I K s" and "vthreads s (a, p) = Some th"
  shows "p < length (nodes s)" and "vt_owner th < length (nodes s)"
  using inv_thread [OF assms] by (simp_all add: thread_ok_def)

lemma target_not_leader:
  assumes vote: "vote_inv V I K s" and wired: "appends_wired s" and inv: "log_inv E S V s"
    and th: "th \<in> set (athreads s)" and t: "currentTerm (nodes s ! at_target th) = ae_term (at_args th)"
  shows "role (nodes s ! at_target th) \<noteq> LEADER"
proof
  assume "role (nodes s ! at_target th) = LEADER"
  moreover have w: "at_target th < length (nodes s)" "at_owner th \<noteq> at_target th"
    using wired th by (auto simp: appends_wired_def)
  ultimately have "elected V (length (nodes s)) (at_target th) (ae_term (at_args th))"
    using leader_elected [OF vote] t by force
  moreover have "elected V (length (nodes s)) (at_owner th) (ae_term (at_args th))"
    using log_invD(2) [OF inv th] by (simp add: append_ok_def)
  ultimately show False using elected_unique w(2) by blast
qed

text \<open>One node replaced in the list of nodes.\<close>

lemma keeps_all:
  "keeps_led E (ns ! i) x \<Longrightarrow> i < length ns \<Longrightarrow> \<forall>j < length ns. keeps_led E (ns ! j) (ns[i := x] ! j)"
  by (auto simp: nth_list_update)

lemma set_thread_nodes [simp]:
  "nodes (set_thread ap th s) = nodes s" "nodes (set_athread k ph s) = nodes s"
  "athreads (set_thread ap th s) = athreads s"
  "nodes (start_election i args peers s) = nodes s" "nodes (start_appends i msgs s) = nodes s"
  by (simp_all add: set_thread_def set_athread_def start_election_def start_appends_def)

lemma log_inv_start_election:
  assumes "log_inv E S V s" and "vote_msg_ok \<lparr>vt_owner = i, vt_args = args, vt_phase = VCalling\<rparr>"
  shows "log_inv E S V (start_election i args peers s)"
  using assms by (auto simp: log_inv_def start_election_def)

lemma log_inv_start_appends:
  assumes "log_inv E S V s"
    and "\<And>p args. (p, args) \<in> set msgs \<Longrightarrow>
      append_ok E S V (nodes s) \<lparr>at_owner = i, at_target = p, at_args = args, at_phase = ACalling\<rparr>"
  shows "log_inv E S V (start_appends i msgs s)"
  using assms by (auto simp: log_inv_def start_appends_def)

lemma step_heartbeat:
  assumes vote: "vote_inv V I K s" and inv: "log_inv E S V s" and i: "i < length (nodes s)"
    and run: "SendHeartBeats_round E c (nodes s ! i) = Inr (Some (x, msgs))"
  shows "log_inv E S V (start_appends i msgs (set_node i x s))" and "keeps_led E (nodes s ! i) x"
proof -
  note fine = log_invD(1) [OF inv i]
  have x: "x = ResetHeartTimer c HeartBeatTimeOut (nodes s ! i)" "role (nodes s ! i) = LEADER"
    using run by (auto simp: SendHeartBeats_round_def rbind_Inr_iff split: if_splits)
  note t = timer_fine(3,4) [OF fine, of c HeartBeatTimeOut]
  show keep: "keeps_led E (nodes s ! i) x" using t x by simp
  have wired: "wired (nodes s)" using inv_nodes [OF vote] by simp
  show "log_inv E S V (start_appends i msgs (set_node i x s))"
  proof (rule log_inv_start_appends)
    show "log_inv E S V (set_node i x s)" using log_inv_set_node [OF inv _ keep] t x by simp
    fix p args assume "(p, args) \<in> set msgs"
    note m = msgs_wired [OF wired i run this]
    have p: "p < length (cluster_configs (nodes s ! i))" using m(1) wired i by (simp add: wired_def)
    note h = heartbeat_msg_fine [OF fine run p m(3)]
    have "\<exists>L \<in> S. sent_from L args \<and> led E x (ae_term args) L"
      using h(1) keep by (auto simp: keeps_led_def)
    moreover have "elected V (length (nodes s)) i (ae_term args)"
      using leader_elected [OF vote i x(2)] h(2) by simp
    ultimately show "append_ok E S V (nodes (set_node i x s))
        \<lparr>at_owner = i, at_target = p, at_args = args, at_phase = ACalling\<rparr>"
      using i by (simp add: append_ok_def)
  qed
qed

lemma step_append_request:
  assumes vote: "vote_inv V I K s" and wired: "appends_wired s" and inv: "log_inv E S V s"
    and fit: "logs_fit E S" and k: "k < length (athreads s)" "athreads s ! k = th"
    and run: "AppendEntries E c (nodes s ! at_target th) (at_args th) = Inr (x, reply)"
    and ans: "answer = Some reply \<or> answer = None"
  shows "log_inv E S V (set_athread k (AReplied answer) (set_node (at_target th) x s))"
    and "keeps_led E (nodes s ! at_target th) x"
proof -
  have th: "th \<in> set (athreads s)" using k by auto
  have t: "at_target th < length (nodes s)" using wired th by (auto simp: appends_wired_def)
  obtain L where L: "L \<in> S" "sent_from L (at_args th)"
    using log_invD(2) [OF inv th] by (auto simp: append_ok_def)
  note f = append_request_fine(2) [OF fit log_invD(1) [OF inv t] L target_not_leader [OF vote wired inv th] run]
  show keep: "keeps_led E (nodes s ! at_target th) x" using f by simp
  show "log_inv E S V (set_athread k (AReplied answer) (set_node (at_target th) x s))"
    using f ans k by (intro log_inv_set_athread [OF log_inv_set_node [OF inv _ keep]]) auto
qed

lemma step_append_answer:
  assumes vote: "vote_inv V I K s" and wired: "appends_wired s" and inv: "log_inv E S V s"
    and k: "k < length (athreads s)" "athreads s ! k = th" "at_phase th = AReplied answer"
    and run: "handleAppendEntries E c (nodes s ! at_owner th) (at_target th) (at_args th) answer = Inr x"
  shows "log_inv E S V (set_athread k ADone (set_node (at_owner th) x s))"
    and "keeps_led E (nodes s ! at_owner th) x"
proof -
  have th: "th \<in> set (athreads s)" using k by auto
  have t: "at_owner th < length (nodes s)" "at_target th < length (nodes s)"
    using wired th by (auto simp: appends_wired_def)
  have len: "length (cluster_configs (nodes s ! at_owner th)) = length (nodes s)"
    using inv_nodes [OF vote] t(1) by (simp add: wired_def)
  obtain L where L: "sent_from L (at_args th)" "led E (nodes s ! at_owner th) (ae_term (at_args th)) L"
    "append_phase_ok (at_args th) (AReplied answer)"
    using log_invD(2) [OF inv th] k(3) by (auto simp: append_ok_def)
  from append_answer_fine(2) [OF log_invD(1) [OF inv t(1)] L(1,2) _ L(3) run] t(2) len
  have f: "node_fine E S x" "keeps_led E (nodes s ! at_owner th) x" by simp_all
  show "keeps_led E (nodes s ! at_owner th) x" by (rule f(2))
  show "log_inv E S V (set_athread k ADone (set_node (at_owner th) x s))"
    using k(1) by (intro log_inv_set_athread [OF log_inv_set_node [OF inv f]]) auto
qed

lemma step_log_inv:
  assumes vote: "vote_inv V I K s" and wired: "appends_wired s" and inv: "log_inv E S V s"
    and fit: "logs_fit E S" and step: "cluster_step E s s'"
  shows "log_inv E S V s' \<and> (\<forall>j < length (nodes s). keeps_led E (nodes s ! j) (nodes s' ! j))"
  using step
proof (cases rule: cluster_step.cases)
  case (c_ticker i c x go)
  then have x: "x = ResetVoteTimer c (nodes s ! i)" by (simp add: ticker_round_def)
  note t = timer_fine(1,2) [OF log_invD(1) [OF inv c_ticker(2)], of c, folded x]
  from log_inv_set_node [OF inv t] keeps_all [OF t(2) c_ticker(2)] c_ticker(1) show ?thesis
    by (simp add: log_inv_other)
next
  case (c_elect i x args peers)
  have e: "node_fine E S x" "keeps_led E (nodes s ! i) x"
    "vote_msg_ok \<lparr>vt_owner = i, vt_args = args, vt_phase = VCalling\<rparr>"
    using elect_fine(2) [OF log_invD(1) [OF inv c_elect(2)] c_elect(4)] by blast+
  from log_inv_start_election [OF log_inv_set_node [OF inv e(1,2)] e(3)] keeps_all [OF e(2) c_elect(2)] c_elect(1)
  show ?thesis by (simp add: log_inv_other)
next
  case (c_vote_request a p th c x reply answer)
  note n = thread_nodes [OF vote c_vote_request(2)] and m = log_invD(3) [OF inv c_vote_request(2)]
  note f = vote_request_fine(2) [OF log_invD(1) [OF inv n(1)] m c_vote_request(4)]
  have "log_inv E S V s'"
    unfolding c_vote_request(1) using f m c_vote_request(5)
    by (intro log_inv_set_thread log_inv_set_node [OF inv]) (auto simp: vote_msg_ok_def)
  with keeps_all [OF _ n(1)] f c_vote_request(1) show ?thesis by simp
next
  case (c_vote_lost a p th)
  have "log_inv E S V s'"
    unfolding c_vote_lost(1) using log_invD(3) [OF inv c_vote_lost(2)]
    by (intro log_inv_set_thread [OF inv]) (auto simp: vote_msg_ok_def)
  with c_vote_lost(1) show ?thesis by simp
next
  case (c_vote_answer a p th answer x got)
  note n = thread_nodes [OF vote c_vote_answer(2)] and m = log_invD(3) [OF inv c_vote_answer(2)]
  have "vote_phase_ok (VReplied answer)" using m c_vote_answer(3) by (simp add: vote_msg_ok_def)
  note f = vote_answer_fine [OF log_invD(1) [OF inv n(2)] this c_vote_answer(4)]
  have "log_inv E S V s'"
    unfolding c_vote_answer(1) using m
    by (intro log_inv_set_thread log_inv_set_node [OF inv f]) (auto simp: vote_msg_ok_def split: if_splits)
  with keeps_all [OF f(2) n(2)] c_vote_answer(1) show ?thesis by simp
next
  case (c_vote_count a p th x count lead)
  note n = thread_nodes [OF vote c_vote_count(2)]
  note f = collect_fine [OF log_invD(1) [OF inv n(2)] c_vote_count(4)]
  have "log_inv E S V s'"
    unfolding c_vote_count(1) log_inv_other by (intro log_inv_set_thread log_inv_set_node [OF inv f]) simp
  with keeps_all [OF f(2) n(2)] c_vote_count(1) show ?thesis by simp
next
  case (c_heartbeat i c x msgs)
  note h = step_heartbeat [OF vote inv c_heartbeat(2,4)]
  from h keeps_all [OF h(2) c_heartbeat(2)] c_heartbeat(1) show ?thesis by simp
next
  case (c_heartbeat_stop i c)
  with inv show ?thesis by (simp add: log_inv_other)
next
  case (c_append_request k th c x areply aanswer)
  note h = step_append_request [OF vote wired inv fit c_append_request(2,3,5,6)]
  have "at_target th < length (nodes s)" using wired c_append_request(2,3) by (auto simp: appends_wired_def)
  from h keeps_all [OF h(2) this] c_append_request(1) show ?thesis by simp
next
  case (c_append_lost k)
  from log_inv_set_athread [OF inv c_append_lost(2), of "AReplied None"] c_append_lost(1) show ?thesis by simp
next
  case (c_append_answer k th aanswer c x)
  note h = step_append_answer [OF vote wired inv c_append_answer(2-5)]
  have "at_owner th < length (nodes s)" using wired c_append_answer(2,3) by (auto simp: appends_wired_def)
  from h keeps_all [OF h(2) this] c_append_answer(1) show ?thesis by simp
next
  case (c_kill i)
  note t = timer_fine(5,6) [OF log_invD(1) [OF inv c_kill(2)]]
  from log_inv_set_node [OF inv t] keeps_all [OF t(2) c_kill(2)] c_kill(1) show ?thesis by simp
qed


section \<open>Runs\<close>

lemma reach_log_inv:
  assumes "cluster_reach E s s'" and "vote_inv V I K s" "appends_wired s" "log_inv E S V s" and fit: "logs_fit E S"
  shows "\<exists>V' I' K'. vle V V' \<and> vote_inv V' I' K' s' \<and> appends_wired s' \<and> log_inv E S V' s'
    \<and> (\<forall>j < length (nodes s). keeps_led E (nodes s ! j) (nodes s' ! j))"
  using assms(1-4)
proof (induction rule: rtranclp_induct)
  case base
  then show ?case using vle_refl keeps_led_refl by blast
next
  case (step y z)
  then obtain V1 I1 K1 where y: "vle V V1" "vote_inv V1 I1 K1 y" "appends_wired y" "log_inv E S V1 y"
    "\<forall>j < length (nodes s). keeps_led E (nodes s ! j) (nodes y ! j)" by blast
  from step_vote_inv [OF y(2,3) step.hyps(2)] obtain V2 I2 K2 where
    z: "vle V1 V2" "vote_inv V2 I2 K2 z" by blast
  note log = step_log_inv [OF y(2,3,4) fit step.hyps(2)]
  have "appends_wired z" using step_appends_wired [OF step.hyps(2) _ y(3)] inv_nodes [OF y(2)] by blast
  moreover have "log_inv E S V2 z" using log_inv_mono [OF z(1)] log by blast
  moreover have "\<forall>j < length (nodes s). keeps_led E (nodes s ! j) (nodes z ! j)"
    using y(5) log reach_length [OF step.hyps(1)] by (simp add: keeps_led_def)
  ultimately show ?case using z vle_trans [OF y(1)] by blast
qed

text \<open>
  The logs a cluster starts with: what the constructor leaves in each node's directory, pairwise
  matching, and small enough that a log file can hold any two of them.
\<close>

definition start_logs ::
  "'f store_env \<Rightarrow> NodeConfig list \<Rightarrow> (nat \<Rightarrow> string) \<Rightarrow> (nat \<Rightarrow> Entry list) \<Rightarrow> bool" where
  "start_logs E configs dirs Ls \<longleftrightarrow> length configs < 2 ^ 31
     \<and> (\<forall>i < length configs. node_ok E (new_RaftNode E configs (dirs i) (int i)) (Ls i))
     \<and> logs_fit E (Ls ` {..<length configs})"

lemma start_log_inv:
  assumes "start_logs E configs dirs Ls"
  shows "log_inv E (Ls ` {..<length configs}) V (initial_cluster E configs dirs)"
  using assms by (force simp: start_logs_def log_inv_def initial_cluster_def node_fine_def new_RaftNode_def)

lemma run_invariant:
  assumes start: "start_logs E configs dirs Ls" and run: "cluster_reach E (initial_cluster E configs dirs) s"
  obtains V I K where "vote_inv V I K s" "appends_wired s" "log_inv E (Ls ` {..<length configs}) V s"
    "logs_fit E (Ls ` {..<length configs})" "length (nodes s) = length configs"
proof -
  have fit: "logs_fit E (Ls ` {..<length configs})" and n: "length configs < 2 ^ 31"
    using start by (simp_all add: start_logs_def)
  have "length (nodes s) = length configs" using reach_length [OF run] by (simp add: initial_cluster_def)
  then show ?thesis
    using reach_log_inv [OF run initial_vote_inv [OF n] start_log_inv [OF start] fit] fit that by blast
qed

section \<open>A cluster on disk\<close>

text \<open>Files of the sample log in directory \<open>full\<close>, nothing elsewhere.\<close>

definition disk_env :: "bytes store_env" where
  "disk_env = mem_env\<lparr>
     f_exists := (\<lambda>p. p = ''full/log.data'' \<or> p = ''full/meta.data''),
     f_open := (\<lambda>p create.
       if create then []
       else if p = ''full/log.data'' then lv_data_file sample_log
       else if p = ''full/meta.data'' then lv_meta_file sample_log else [])\<rparr>"

definition disk_dirs :: "nat \<Rightarrow> string" where
  "disk_dirs i = (if i = 0 then ''full'' else ''empty'')"

definition disk_logs :: "nat \<Rightarrow> Entry list" where
  "disk_logs i = (if i = 0 then [default_Entry, sample_entry, default_Entry] else [default_Entry])"

lemma disk_rep: "logvec_rep disk_env lv es = logvec_rep mem_env lv es"
  by (simp add: logvec_rep_def file_ok_def disk_env_def encode_entry_def [abs_def] entry_off_def)

lemma disk_open:
  "logvec_rep disk_env (new_LogVec disk_env (disk_dirs i)) (butlast (disk_logs i))"
proof (cases "i = 0")
  case True
  have "logvec_rep disk_env (new_LogVec disk_env ''full'') [default_Entry, sample_entry]"
    by (rule reopen_preserves_entries [of disk_env sample_log])
      (simp_all add: disk_rep rep_sample, simp_all add: disk_env_def mem_env_def get_meta_path_def get_data_path_def path_join_def)
  then show ?thesis using True by (simp add: disk_dirs_def disk_logs_def)
next
  case False
  then show ?thesis
    unfolding disk_rep by (simp add: logvec_rep_def disk_dirs_def disk_logs_def)
      (simp add: new_LogVec_def Let_def disk_env_def mem_env_def get_meta_path_def get_data_path_def path_join_def)
qed

lemma disk_bytes: "log_bytes disk_env (disk_logs i) \<le> 11"
  by (simp add: log_bytes_def disk_logs_def encode_entry_def disk_env_def)
    (simp add: mem_env_def default_length sample_length)

lemma disk_start: "start_logs disk_env sample_configs disk_dirs disk_logs"
proof -
  have ok: "entry_ok (e_wire disk_env) default_Entry" "entry_ok (e_wire disk_env) sample_entry"
    by (simp_all add: disk_env_def mem_env_def default_entry_ok sample_entry_ok)
  have "node_ok disk_env (new_RaftNode disk_env sample_configs (disk_dirs i) (int i)) (disk_logs i)" if "i < 3" for i
  proof -
    define init where "init = butlast (disk_logs i)"
    have split: "disk_logs i = init @ [default_Entry]" by (simp add: init_def disk_logs_def)
    have "log_bytes disk_env init \<le> 11"
      using disk_bytes [of i] unfolding split by (simp add: log_bytes_def)
    then have "logvec_room disk_env (new_LogVec disk_env (disk_dirs i)) [default_Entry]"
      using rep_facts(4) [OF disk_open [of i, folded init_def]] ok(1)
      by (simp add: logvec_room_def log_bytes_def encode_entry_def [of disk_env default_Entry])
        (simp add: disk_env_def mem_env_def default_length)
    from lv.push_rep [OF disk_open [of i, folded init_def] this] have "logvec_rep disk_env
        (logvec_push_back disk_env (new_LogVec disk_env (disk_dirs i)) default_Entry) (disk_logs i)"
      using split by simp
    with that show ?thesis
      by (simp add: node_ok_def new_RaftNode_def log_fine_def sample_configs_def)
        (simp add: disk_logs_def default_Entry_def sample_entry_def)
  qed
  moreover have "log_match (disk_logs i) (disk_logs j)" for i j
    by (simp add: disk_logs_def log_match_def)
  moreover have "\<forall>e \<in> set (disk_logs i). entry_ok (e_wire disk_env) e" for i using ok by (simp add: disk_logs_def)
  moreover have "log_bytes disk_env (disk_logs i) + log_bytes disk_env (disk_logs j) < 2 ^ 64" for i j
    using disk_bytes [of i] disk_bytes [of j] by simp
  ultimately show ?thesis by (auto simp: start_logs_def logs_fit_def sample_configs_def)
qed

section \<open>Properties\<close>

text \<open>
  C5. Log Matching: in a cluster started on matching logs, after any interleaving of elections,
  heartbeats, replication, lost messages and kills, every node is well formed, its log is one of
  the logs the cluster started with, and any two logs with entries of the same term at an index
  agree up to that index.
\<close>

theorem log_matching:
  assumes "start_logs E configs dirs Ls" and "cluster_reach E (initial_cluster E configs dirs) s"
  shows "\<exists>logs. (\<forall>i < length configs. logs i \<in> Ls ` {..<length configs} \<and> node_ok E (nodes s ! i) (logs i))
    \<and> (\<forall>i < length configs. \<forall>j < length configs. log_match (logs i) (logs j))"
proof -
  obtain V I K where inv: "log_inv E (Ls ` {..<length configs}) V s"
    and fit: "logs_fit E (Ls ` {..<length configs})" and len: "length (nodes s) = length configs"
    using run_invariant [OF assms] by blast
  have "\<forall>i. \<exists>es. i < length configs \<longrightarrow> es \<in> Ls ` {..<length configs} \<and> node_ok E (nodes s ! i) es"
    using log_invD(1) [OF inv] len by (auto simp: node_fine_def)
  from choice [OF this] obtain logs where
    logs: "\<And>i. i < length configs \<Longrightarrow> logs i \<in> Ls ` {..<length configs} \<and> node_ok E (nodes s ! i) (logs i)"
    by blast
  have "log_match (logs i) (logs j)" if "i < length configs" "j < length configs" for i j
    by (rule fit_match [OF fit]) (use logs that in \<open>simp_all only:\<close>)
  with logs show ?thesis by (intro exI [of _ logs]) simp
qed

theorem log_matching_witness:
  "\<exists>s logs. cluster_reach disk_env (initial_cluster disk_env sample_configs disk_dirs) s
     \<and> (\<forall>i \<in> {0, 1, 2}. node_ok disk_env (nodes s ! i) (logs i)) \<and> log_match (logs 0) (logs 1)"
proof -
  let ?s = "initial_cluster disk_env sample_configs disk_dirs"
  have len: "length sample_configs = 3" by (simp add: sample_configs_def)
  have run: "cluster_reach disk_env ?s ?s" by simp
  from log_matching [OF disk_start run] obtain logs where
    "\<forall>i < 3. node_ok disk_env (nodes ?s ! i) (logs i)" "\<forall>i < 3. \<forall>j < 3. log_match (logs i) (logs j)"
    unfolding len by blast
  with run show ?thesis by (intro exI [of _ ?s] exI [of _ logs]) simp
qed

text \<open>
  C7. Leader Append-Only: a node that is leader at two moments of the same term has the same log at
  both, whatever arrives in between.
\<close>

theorem leader_log_unchanged:
  assumes "start_logs E configs dirs Ls"
    and "cluster_reach E (initial_cluster E configs dirs) s" and "cluster_reach E s s'"
    and "i < length configs" "role (nodes s ! i) = LEADER" "role (nodes s' ! i) = LEADER"
    and "currentTerm (nodes s' ! i) = currentTerm (nodes s ! i)" and "node_ok E (nodes s ! i) L"
  shows "node_ok E (nodes s' ! i) L"
proof -
  from run_invariant [OF assms(1,2)] obtain V I K where inv: "vote_inv V I K s" "appends_wired s"
    "log_inv E (Ls ` {..<length configs}) V s" "logs_fit E (Ls ` {..<length configs})"
    "length (nodes s) = length configs" .
  have "led E (nodes s ! i) (currentTerm (nodes s ! i)) L" using assms(5,8) by (simp add: led_def)
  with reach_log_inv [OF assms(3) inv(1-4)] inv(5) assms(4) have
    "led E (nodes s' ! i) (currentTerm (nodes s ! i)) L" by (auto simp: keeps_led_def)
  with assms(6,7) show ?thesis by (simp add: led_def)
qed

lemma sample_start: "start_logs mem_env sample_configs (\<lambda>i. ''dir'') (\<lambda>i. [default_Entry])"
proof -
  have "log_bytes mem_env [default_Entry] = 0" "entry_ok (e_wire mem_env) default_Entry"
    by (simp_all add: log_bytes_def encode_entry_def mem_env_def default_length default_entry_ok)
  then show ?thesis
    using new_node_ok by (auto simp: start_logs_def logs_fit_def sample_configs_def log_match_def)
qed

theorem leader_log_unchanged_witness:
  "\<exists>s. cluster_reach mem_env sample_cluster s \<and> role (nodes s ! 0) = LEADER
     \<and> node_ok mem_env (nodes s ! 0) [default_Entry]"
proof -
  obtain s where s: "cluster_reach mem_env sample_cluster s" "role (nodes s ! 0) = LEADER"
    using sample_leader_run by blast
  have run: "cluster_reach mem_env (initial_cluster mem_env sample_configs (\<lambda>i. ''dir'')) s"
    using s(1) by (simp add: sample_cluster_def)
  obtain V I K where inv: "log_inv mem_env ((\<lambda>i. [default_Entry]) ` {..<length sample_configs}) V s"
    "length (nodes s) = length sample_configs" using run_invariant [OF sample_start run] by blast
  have "node_ok mem_env (nodes s ! 0) [default_Entry]"
    using log_invD(1) [OF inv(1), of 0] inv(2) by (auto simp: node_fine_def sample_configs_def)
  with leader_log_unchanged [OF sample_start run rtranclp.rtrancl_refl _ s(2) s(2) refl] s
  show ?thesis by (intro exI [of _ s]) (simp add: sample_configs_def)
qed

text \<open>
  C6. Nothing goes wrong in a running cluster: in every state a cluster started on matching
  logs reaches, every section that can run completes without an exception, a failed assertion, an
  index out of range or a signed overflow: an election below the last term, every vote request,
  every heartbeat round, every \<open>AppendEntries\<close> call in flight and the handling of every reply.
\<close>

theorem handlers_never_fail:
  assumes "start_logs E configs dirs Ls" and "cluster_reach E (initial_cluster E configs dirs) s"
  shows "(\<forall>i < length configs. currentTerm (nodes s ! i) < 2 ^ 31 - 1 \<longrightarrow> (\<exists>r. Elect E (nodes s ! i) = Inr r))
    \<and> (\<forall>a p th. vthreads s (a, p) = Some th \<longrightarrow> (\<exists>r. RequestVote E c (nodes s ! p) (vt_args th) = Inr r))
    \<and> (\<forall>i < length configs. \<exists>r. SendHeartBeats_round E c (nodes s ! i) = Inr r)
    \<and> (\<forall>th \<in> set (athreads s). \<exists>r. AppendEntries E c (nodes s ! at_target th) (at_args th) = Inr r)
    \<and> (\<forall>th \<in> set (athreads s). \<forall>answer. at_phase th = AReplied answer \<longrightarrow>
         (\<exists>x. handleAppendEntries E c (nodes s ! at_owner th) (at_target th) (at_args th) answer = Inr x))"
proof -
  let ?S = "Ls ` {..<length configs}"
  from run_invariant [OF assms] obtain V I K where vote: "vote_inv V I K s" and wired: "appends_wired s"
    and inv: "log_inv E ?S V s" and fit: "logs_fit E ?S" and len: "length (nodes s) = length configs" .
  note fine = log_invD(1) [OF inv, unfolded len]
  have "\<exists>r. RequestVote E c (nodes s ! p) (vt_args th) = Inr r" if "vthreads s (a, p) = Some th" for a p th
    using vote_request_fine(1) [OF log_invD(1) [OF inv thread_nodes(1) [OF vote that]] log_invD(3) [OF inv that], of c]
    by auto
  moreover have "\<exists>r. AppendEntries E c (nodes s ! at_target th) (at_args th) = Inr r"
    and "\<forall>answer. at_phase th = AReplied answer \<longrightarrow>
      (\<exists>x. handleAppendEntries E c (nodes s ! at_owner th) (at_target th) (at_args th) answer = Inr x)"
    if th: "th \<in> set (athreads s)" for th
  proof -
    have w: "at_owner th < length (nodes s)" "at_target th < length (nodes s)"
      using wired th by (auto simp: appends_wired_def)
    have cfg: "at_target th < length (cluster_configs (nodes s ! at_owner th))"
      using inv_nodes [OF vote] w by (simp add: wired_def)
    obtain L where L: "L \<in> ?S" "sent_from L (at_args th)"
      "led E (nodes s ! at_owner th) (ae_term (at_args th)) L" "append_phase_ok (at_args th) (at_phase th)"
      using log_invD(2) [OF inv th] by (auto simp: append_ok_def)
    show "\<exists>r. AppendEntries E c (nodes s ! at_target th) (at_args th) = Inr r"
      using append_request_fine(1) [OF fit log_invD(1) [OF inv w(2)] L(1,2) target_not_leader [OF vote wired inv th], of c]
      by auto
    show "\<forall>answer. at_phase th = AReplied answer \<longrightarrow>
      (\<exists>x. handleAppendEntries E c (nodes s ! at_owner th) (at_target th) (at_args th) answer = Inr x)"
      using append_answer_fine(1) [OF log_invD(1) [OF inv w(1)] L(2,3) cfg] L(4) by auto
  qed
  ultimately show ?thesis using elect_fine(1) [OF fine] heartbeat_fine [OF fine] by blast
qed

theorem handlers_never_fail_witness:
  "\<exists>s r. cluster_reach mem_env sample_cluster s \<and> role (nodes s ! 0) = LEADER
     \<and> SendHeartBeats_round mem_env \<lparr>now = 5, rnd = 9\<rparr> (nodes s ! 0) = Inr r"
proof -
  obtain s where s: "cluster_reach mem_env sample_cluster s" "role (nodes s ! 0) = LEADER"
    using sample_leader_run by blast
  have run: "cluster_reach mem_env (initial_cluster mem_env sample_configs (\<lambda>i. ''dir'')) s"
    using s(1) by (simp add: sample_cluster_def)
  have "0 < length sample_configs" by (simp add: sample_configs_def)
  with handlers_never_fail [OF sample_start run, of "\<lparr>now = 5, rnd = 9\<rparr>"]
  obtain r where "SendHeartBeats_round mem_env \<lparr>now = 5, rnd = 9\<rparr> (nodes s ! 0) = Inr r" by blast
  with s show ?thesis by blast
qed

end
