(* ===== verification/Raft_Restart.thy ===== *)
theory Raft_Restart
  imports Raft_Cluster_Log
begin

text \<open>
  Restarts of nodes inside a run of a cluster. The process of a node ends, its threads with it, and
  \<open>RaftNode::RaftNode\<close> (\<^verbatim>\<open>src/raft/raft.cpp\<close>) runs again on the files the log left behind. Term, vote and
  commit index start over, since \<open>persist\<close> saves nothing, and the constructor appends another empty
  entry to the log. The theory states what a restart leaves exactly, and that neither Election Safety
  nor Log Matching, which hold in every run without restarts, survives it.
\<close>

section \<open>Restarts\<close>

text \<open>
  The file system after the process with log \<open>lv\<close> has ended: its two files exist and hold what was
  written, everything else is as before.
\<close>

definition disk_after :: "'f store_env \<Rightarrow> 'f LogVec \<Rightarrow> 'f store_env" where
  "disk_after E lv = E\<lparr>
     f_exists := (f_exists E)(lv_data_path lv := True, lv_meta_path lv := True),
     f_open := (\<lambda>path create.
       if create then f_open E path create
       else if path = lv_data_path lv then lv_data_file lv
       else if path = lv_meta_path lv then lv_meta_file lv else f_open E path create)\<rparr>"

definition restart_node :: "'f store_env \<Rightarrow> 'f RaftNode \<Rightarrow> 'f RaftNode" where
  "restart_node E x =
     new_RaftNode (disk_after E (log x)) (cluster_configs x) (lv_dir (log x)) (cur_node_id x)"

text \<open>
  A restart of node \<open>i\<close> ends its pending elections, its vote-collecting threads, its heartbeat loops
  and its replication threads. Requests that other nodes have sent it stay under way.
\<close>

definition restart :: "'f store_env \<Rightarrow> nat \<Rightarrow> 'f cluster \<Rightarrow> 'f cluster" where
  "restart E i s = s\<lparr>
     nodes := (nodes s)[i := restart_node E (nodes s ! i)],
     elects := (elects s)(i := 0),
     vthreads := (\<lambda>ap. case vthreads s ap of None \<Rightarrow> None | Some th \<Rightarrow> if vt_owner th = i then None else Some th),
     heartbeats := (heartbeats s)(i := 0),
     athreads := map (\<lambda>th. if at_owner th = i then th\<lparr>at_phase := ADone\<rparr> else th) (athreads s)\<rparr>"

inductive restart_step :: "'f store_env \<Rightarrow> 'f cluster \<Rightarrow> 'f cluster \<Rightarrow> bool" for E where
  rs_cluster: "cluster_step E s s' \<Longrightarrow> restart_step E s s'"
| rs_restart: "i < length (nodes s) \<Longrightarrow> restart_step E s (restart E i s)"

abbreviation restart_reach :: "'f store_env \<Rightarrow> 'f cluster \<Rightarrow> 'f cluster \<Rightarrow> bool" where
  "restart_reach E \<equiv> (restart_step E)\<^sup>*\<^sup>*"

lemma reach_cluster: "cluster_reach E s s' \<Longrightarrow> restart_reach E s s'"
  by (rule rtranclp_mono [THEN predicate2D]) (auto intro: rs_cluster)

lemma nodes_restart [simp]: "nodes (restart E i s) = (nodes s)[i := restart_node E (nodes s ! i)]"
  by (simp add: restart_def)

section \<open>The log of a restarted node\<close>

text \<open>The file names of a log are those of its directory.\<close>

definition at_home :: "'f LogVec \<Rightarrow> bool" where
  "at_home lv \<longleftrightarrow> lv_data_path lv = get_data_path (lv_dir lv) \<and> lv_meta_path lv = get_meta_path (lv_dir lv)"

lemma paths_differ: "get_data_path dir \<noteq> get_meta_path dir" "get_meta_path dir \<noteq> get_data_path dir"
  by (simp_all add: get_data_path_def get_meta_path_def path_join_def)

lemma at_home_new [simp]: "at_home (log (new_RaftNode E configs dir n))"
  by (simp add: at_home_def new_RaftNode_def logvec_push_back_def new_LogVec_def Let_def)

lemma at_home_restart [simp]: "at_home (log (restart_node E x))"
  by (simp add: restart_node_def)

lemma disk_after_rep: "logvec_rep (disk_after E lv) = logvec_rep E"
  by (intro ext) (simp add: logvec_rep_def file_ok_def disk_after_def encode_entry_def [abs_def] entry_off_def)

lemma disk_after_push: "logvec_push_back (disk_after E lv) = logvec_push_back E"
  by (intro ext) (simp add: logvec_push_back_def disk_after_def encode_entry_def)

lemma default_room:
  assumes "logvec_rep E lv es" and "entry_ok (e_wire E) default_Entry"
  shows "logvec_room E lv [default_Entry]"
proof -
  have "encode_entry E default_Entry = []"
    by (simp add: encode_entry_def entry_serialize_def default_Entry_def)
  with rep_facts [OF assms(1)] assms show ?thesis by (simp add: logvec_room_def logvec_rep_def)
qed

lemma reopened:
  assumes "logvec_rep E lv es" and "at_home lv"
  shows "logvec_rep E (new_LogVec (disk_after E lv) (lv_dir lv)) es"
proof -
  have "logvec_rep (disk_after E lv) (new_LogVec (disk_after E lv) (lv_dir lv)) es"
    by (rule reopen_preserves_entries [of "disk_after E lv" lv])
      (use assms paths_differ in \<open>simp_all add: disk_after_rep, simp_all add: disk_after_def at_home_def\<close>)
  then show ?thesis by (simp add: disk_after_rep)
qed

lemma restart_node_rep:
  assumes "node_ok E x es" and "at_home (log x)" and "entry_ok (e_wire E) default_Entry"
    and "length es + 1 < 2 ^ 31 - 1"
  shows "node_ok E (restart_node E x) (es @ [default_Entry])"
proof -
  note ok = node_okD [OF assms(1)]
  have rep: "logvec_rep E (new_LogVec (disk_after E (log x)) (lv_dir (log x))) es"
    by (rule reopened [OF ok(1) assms(2)])
  have "logvec_rep E (log (restart_node E x)) (es @ [default_Entry])"
    using lv.push_rep [OF rep default_room [OF rep assms(3)]]
    by (simp add: restart_node_def new_RaftNode_def disk_after_push)
  moreover have "log_fine (es @ [default_Entry])"
    using ok(16) assms(4) by (auto simp: log_fine_def nth_append default_Entry_def)
  ultimately show ?thesis
    using ok by (simp add: node_ok_def restart_node_def new_RaftNode_def)
qed

text \<open>Node \<open>i\<close> is restarted \<open>k\<close> times in a row: its log grows by \<open>k\<close> empty entries.\<close>

lemma restart_often:
  assumes "i < length (nodes s)" and "node_ok E (nodes s ! i) es" and "at_home (log (nodes s ! i))"
    and "entry_ok (e_wire E) default_Entry" and "length es + k < 2 ^ 31 - 1"
  shows "\<exists>s'. restart_reach E s s' \<and> length (nodes s') = length (nodes s)
    \<and> node_ok E (nodes s' ! i) (es @ replicate k default_Entry) \<and> at_home (log (nodes s' ! i))
    \<and> (\<forall>j. j \<noteq> i \<longrightarrow> nodes s' ! j = nodes s ! j)"
  using assms(5)
proof (induction k)
  case 0
  then show ?case using assms(1-3) by auto
next
  case (Suc k)
  then obtain s' where s': "restart_reach E s s'" "length (nodes s') = length (nodes s)"
    "node_ok E (nodes s' ! i) (es @ replicate k default_Entry)" "at_home (log (nodes s' ! i))"
    "\<forall>j. j \<noteq> i \<longrightarrow> nodes s' ! j = nodes s ! j" by auto
  have "node_ok E (restart_node E (nodes s' ! i)) (es @ replicate (Suc k) default_Entry)"
    using restart_node_rep [OF s'(3,4) assms(4)] Suc.prems by (simp add: replicate_append_same)
  moreover have "restart_reach E s (restart E i s')"
    using rtranclp.rtrancl_into_rtrancl [OF s'(1) rs_restart] s'(2) assms(1) by simp
  ultimately show ?case using s' assms(1) by (intro exI [of _ "restart E i s'"]) simp
qed

section \<open>Properties\<close>

text \<open>
  C30. What a restart leaves: the log has the entries it had and one more empty entry at its end, the
  node is well formed, and its term, vote and commit index start over. The restarted node votes again
  in every positive term, and because of the new last entry it compares a candidate with an empty log: it
  grants its vote exactly to the candidates whose last entry has a positive term, however short
  their logs are, and to those whose last entry has term 0 in a log longer than its own was.
\<close>

theorem restart_exact:
  assumes "node_ok E x es" and "at_home (log x)" and "entry_ok (e_wire E) default_Entry"
    and "length es + 1 < 2 ^ 31 - 1"
    and "0 < rv_term request" "rv_term request < 2 ^ 31"
    and "0 \<le> rv_lastLogIndex request" "rv_lastLogIndex request < 2 ^ 31"
  shows "node_ok E (restart_node E x) (es @ [default_Entry])
    \<and> currentTerm (restart_node E x) = 0 \<and> votedFor (restart_node E x) = -1 \<and> commitIndex (restart_node E x) = 0
    \<and> (\<exists>s' reply. RequestVote E c (restart_node E x) request = Inr (s', reply)
        \<and> (rvr_voteGranted reply \<longleftrightarrow> 0 < rv_lastLogTerm request
             \<or> rv_lastLogTerm request = 0 \<and> int (length es) \<le> rv_lastLogIndex request))"
proof -
  have ok: "node_ok E (restart_node E x) (es @ [default_Entry])"
    by (rule restart_node_rep [OF assms(1-4)])
  have fresh: "currentTerm (restart_node E x) = 0" "votedFor (restart_node E x) = -1" "commitIndex (restart_node E x) = 0"
    by (simp_all add: restart_node_def new_RaftNode_def)
  have "may_vote (restart_node E x) request" using fresh(1) assms(5) by (simp add: may_vote_def)
  moreover have "up_to_date (es @ [default_Entry]) request \<longleftrightarrow>
      0 < rv_lastLogTerm request \<or> rv_lastLogTerm request = 0 \<and> int (length es) \<le> rv_lastLogIndex request"
    by (auto simp: up_to_date_def default_Entry_def)
  ultimately show ?thesis
    using request_vote_rep [OF ok less_imp_le [OF assms(5)] assms(6-8), of c] ok fresh by blast
qed

theorem restart_exact_witness:
  "node_ok mem_env (restart_node mem_env sample_node) [default_Entry, default_Entry]
    \<and> (\<exists>s' reply. RequestVote mem_env \<lparr>now = 5, rnd = 9\<rparr> (restart_node mem_env sample_node) (sample_request 2) = Inr (s', reply)
        \<and> \<not> rvr_voteGranted reply)
    \<and> (\<exists>s' reply. RequestVote mem_env \<lparr>now = 5, rnd = 9\<rparr> (restart_node mem_env sample_node)
          ((sample_request 2)\<lparr>rv_lastLogTerm := 1\<rparr>) = Inr (s', reply) \<and> rvr_voteGranted reply)"
proof -
  have home: "at_home (log sample_node)" by (simp add: sample_node_def)
  have wire: "entry_ok (e_wire mem_env) default_Entry" by (simp add: mem_env_def default_entry_ok)
  note exact = restart_exact [OF sample_node_ok home wire]
  from exact [of "sample_request 2" "\<lparr>now = 5, rnd = 9\<rparr>"]
    exact [of "(sample_request 2)\<lparr>rv_lastLogTerm := 1\<rparr>" "\<lparr>now = 5, rnd = 9\<rparr>"]
  show ?thesis by (simp add: sample_request_def)
qed

text \<open>
  C39. One restart breaks Election Safety: in a cluster of three fresh nodes, node 0 becomes leader of
  term 1 with the vote of node 1, node 1 restarts, forgets its vote, stands for election in term 1 and
  wins with the vote of node 2. Both are leader of term 1 at the same moment.
\<close>

theorem restart_two_leaders:
  assumes "length configs = 3" and "entry_ok (e_wire E) default_Entry"
    and "\<And>i. i < 3 \<Longrightarrow> node_ok E (new_RaftNode E configs (dirs i) (int i)) [default_Entry]"
  shows "\<exists>s. restart_reach E (initial_cluster E configs dirs) s
    \<and> role (nodes s ! 0) = LEADER \<and> currentTerm (nodes s ! 0) = 1
    \<and> role (nodes s ! 1) = LEADER \<and> currentTerm (nodes s ! 1) = 1"
proof -
  let ?n = "\<lambda>i. new_RaftNode E configs (dirs i) (int i)"
  obtain s y where s: "cluster_reach E (initial_cluster E configs dirs) s"
      "nodes s = [become_leader (candidate_of undefined (?n 0)), y, ?n 2]"
      "node_ok E y [default_Entry]" "log y = log (?n 1)" "term_vote_law (?n 1) y"
    using first_leader_run [OF assms(1,3), of undefined] by auto
  let ?r = "restart E 1 s"
  have step: "restart_reach E (initial_cluster E configs dirs) ?r"
    using reach_cluster [OF s(1)] rs_restart [of 1 s E] s(2) by (simp add: rtranclp.rtrancl_into_rtrancl)
  have ok: "node_ok E (restart_node E y) [default_Entry, default_Entry]"
    using restart_node_rep [OF s(3) _ assms(2)] s(4) by simp
  have conf: "length (cluster_configs (restart_node E y)) = 3" "cur_node_id (restart_node E y) = 1"
    using s(5) assms(1) by (simp_all add: restart_node_def term_vote_law_def)
  obtain s' z where s': "cluster_reach E ?r s'"
     "nodes s' = (nodes ?r)[1 := become_leader (candidate_of undefined (nodes ?r ! 1)), 2 := z]"
    by (rule election_run [of 1 ?r E "[default_Entry, default_Entry]" 2 "[default_Entry]" undefined])
      (use s(2) ok conf assms(3) [of 2] in
        \<open>simp_all add: restart_node_def may_vote_def elect_args_def up_to_date_def default_Entry_def\<close>)
  show ?thesis
    using rtranclp_trans [OF step reach_cluster [OF s'(1)]] s'(2) s(2)
    by (intro exI [of _ s']) (simp add: become_leader_keeps restart_node_def)
qed

theorem restart_two_leaders_witness:
  "\<exists>s. restart_reach mem_env sample_cluster s
    \<and> role (nodes s ! 0) = LEADER \<and> currentTerm (nodes s ! 0) = 1
    \<and> role (nodes s ! 1) = LEADER \<and> currentTerm (nodes s ! 1) = 1"
  unfolding sample_cluster_def
  by (rule restart_two_leaders [OF _ _ new_node_ok])
    (simp_all add: sample_configs_def default_entry_ok mem_env_def)

text \<open>
  C40. Restarts break Log Matching without any message: from initial logs that match, restarting the node
  with the longer log once and the other one until its log is as long leaves two logs with an entry of
  the same index and term and different entries before it, unless the longer log was the shorter
  one with empty entries added.
\<close>

theorem restart_breaks_log_matching:
  assumes "start_logs E configs dirs Ls" and "i < length configs" "j < length configs" "i \<noteq> j"
    and "length (Ls j) \<le> length (Ls i)" "length (Ls i) + 1 < 2 ^ 31 - 1"
    and "Ls i \<noteq> Ls j @ replicate (length (Ls i) - length (Ls j)) default_Entry"
    and "entry_ok (e_wire E) default_Entry"
  shows "log_match (Ls i) (Ls j)
    \<and> (\<exists>s xs ys. restart_reach E (initial_cluster E configs dirs) s
      \<and> node_ok E (nodes s ! i) xs \<and> node_ok E (nodes s ! j) ys \<and> \<not> log_match xs ys)"
proof
  let ?d = "length (Ls i) - length (Ls j)" and ?n = "length (Ls i)"
  let ?s = "initial_cluster E configs dirs"
  show "log_match (Ls i) (Ls j)" using assms(1-3) by (simp add: start_logs_def logs_fit_def)
  have nodes: "length (nodes ?s) = length configs"
      "\<And>k. k < length configs \<Longrightarrow> nodes ?s ! k = new_RaftNode E configs (dirs k) (int k)"
    by (simp_all add: initial_cluster_def)
  have ok: "node_ok E (nodes ?s ! k) (Ls k)" "at_home (log (nodes ?s ! k))" if "k < length configs" for k
    using assms(1) that nodes(2) by (simp_all add: start_logs_def)
  obtain s1 where s1: "restart_reach E ?s s1" "length (nodes s1) = length configs"
      "node_ok E (nodes s1 ! i) (Ls i @ [default_Entry])" "nodes s1 ! j = nodes ?s ! j"
    using restart_often [OF _ ok [OF assms(2)] assms(8), of 1] assms(2,4,6) nodes(1) by auto
  obtain s2 where s2: "restart_reach E s1 s2" "node_ok E (nodes s2 ! j) (Ls j @ replicate (Suc ?d) default_Entry)"
      "nodes s2 ! i = nodes s1 ! i"
    using restart_often [of j s1 E "Ls j" "Suc ?d"] ok [OF assms(3)] s1 assms(3-6,8) by auto
  let ?fs = "Ls j @ replicate ?d default_Entry"
  have eq: "Ls j @ replicate (Suc ?d) default_Entry = ?fs @ [default_Entry]" by (simp add: replicate_append_same)
  have "\<not> log_match (Ls i @ [default_Entry]) (?fs @ [default_Entry])"
  proof
    assume "log_match (Ls i @ [default_Entry]) (?fs @ [default_Entry])"
    from log_matchD [OF this, of ?n] show False using assms(5,7) by (simp add: nth_append)
  qed
  with s1 s2 [unfolded eq] show "\<exists>s xs ys. restart_reach E ?s s
      \<and> node_ok E (nodes s ! i) xs \<and> node_ok E (nodes s ! j) ys \<and> \<not> log_match xs ys"
    by (metis rtranclp_trans)
qed

theorem restart_breaks_log_matching_witness:
  "log_match (disk_logs 0) (disk_logs 1)
    \<and> (\<exists>s xs ys. restart_reach disk_env (initial_cluster disk_env sample_configs disk_dirs) s
      \<and> node_ok disk_env (nodes s ! 0) xs \<and> node_ok disk_env (nodes s ! 1) ys \<and> \<not> log_match xs ys)"
  by (rule restart_breaks_log_matching [OF disk_start])
    (simp_all add: sample_configs_def disk_logs_def default_Entry_def sample_entry_def disk_env_def mem_env_def
      default_entry_ok [unfolded default_Entry_def])

end
