(* ===== verification/Raft_Service.thy ===== *)
theory Raft_Service
  imports Raft_Node
begin

text \<open>
  The objects around a Raft node (\<^verbatim>\<open>src/raft/raft_rpc.cpp\<close>, \<^verbatim>\<open>RaftNode::Create\<close> of
  \<^verbatim>\<open>src/raft/raft.cpp\<close>): the cache of gRPC stubs a service keeps per address, the static registry
  of services by node address, and the ownership between node and service, with the reference
  counts of \<open>std::shared_ptr\<close> written out. gRPC itself is a parameter: \<open>mk\<close> makes the stub of an
  address (the number tells the calls apart) and \<open>call\<close> performs a remote call. A node address is
  an index into \<open>node_objs\<close>; a freed address may be used again. The index of a service stands for
  its control block, which a \<open>std::weak_ptr\<close> keeps from being reused.
\<close>

section \<open>Stubs\<close>

record 'st stub_cache =
  sc_cache :: "(string, 'st) umap"
  sc_created :: nat

definition new_stub_cache :: "'st stub_cache" where
  "new_stub_cache = \<lparr>sc_cache = [], sc_created = 0\<rparr>"

definition get_unique_stub ::
  "(string \<Rightarrow> nat \<Rightarrow> 'st) \<Rightarrow> string \<Rightarrow> 'st stub_cache \<Rightarrow> 'st \<times> 'st stub_cache" where
  "get_unique_stub mk address sc =
     (case um_find (sc_cache sc) address of
        None \<Rightarrow>
          (let stub = mk address (sc_created sc) in
           (stub, sc\<lparr>sc_cache := um_put address stub (sc_cache sc), sc_created := Suc (sc_created sc)\<rparr>))
      | Some stub \<Rightarrow> (stub, sc))"

definition sendAppendEntries ::
  "(string \<Rightarrow> nat \<Rightarrow> 'st)
   \<Rightarrow> ('st \<Rightarrow> AppendEntriesArgs \<Rightarrow> AppendEntriesReply \<Rightarrow> bool \<times> AppendEntriesReply)
   \<Rightarrow> string \<Rightarrow> AppendEntriesArgs \<Rightarrow> AppendEntriesReply \<Rightarrow> 'st stub_cache
   \<Rightarrow> bool \<times> AppendEntriesReply \<times> 'st stub_cache" where
  "sendAppendEntries mk call address request reply sc =
     (let (stub, sc') = get_unique_stub mk address sc;
          (ok, reply') = call stub request reply
      in (ok, reply', sc'))"

definition Entry2GrpcEntry :: "Entry \<Rightarrow> Entry" where
  "Entry2GrpcEntry entry = default_Entry"

section \<open>Objects\<close>

record 'f NodeObj =
  no_self :: "'f RaftNode"
  no_refs :: nat
  no_service :: "nat option"
  no_ticker :: bool

text \<open>A service whose count is zero is destroyed; its control block stays in the registry.\<close>

record ServiceObj =
  so_node :: nat
  so_refs :: nat
  so_server :: "(raft_error + string) option"

record 'f objects =
  node_objs :: "'f NodeObj option list"
  service_objs :: "ServiceObj list"
  s_instances :: "(nat, nat) umap"
  node_handles :: "nat list"
  service_handles :: "nat list"

definition no_objects :: "'f objects" where
  "no_objects = \<lparr>node_objs = [], service_objs = [], s_instances = [], node_handles = [], service_handles = []\<rparr>"

definition node_at :: "'f objects \<Rightarrow> nat \<Rightarrow> 'f NodeObj option" where
  "node_at W a = (if a < length (node_objs W) then node_objs W ! a else None)"

definition service_at :: "'f objects \<Rightarrow> nat \<Rightarrow> ServiceObj option" where
  "service_at W b =
     (if b < length (service_objs W) \<and> 0 < so_refs (service_objs W ! b)
      then Some (service_objs W ! b) else None)"

definition write_node :: "nat \<Rightarrow> 'f NodeObj option \<Rightarrow> 'f objects \<Rightarrow> 'f objects" where
  "write_node a x W = W\<lparr>node_objs := (node_objs W)[a := x]\<rparr>"

definition write_service :: "nat \<Rightarrow> ServiceObj \<Rightarrow> 'f objects \<Rightarrow> 'f objects" where
  "write_service b x W = W\<lparr>service_objs := (service_objs W)[b := x]\<rparr>"

text \<open>The address a service listens on: \<open>cluster_configs[cur_node_id].addr\<close>.\<close>

definition server_address :: "'f RaftNode \<Rightarrow> raft_error + string" where
  "server_address s = rbind (vec_at (cluster_configs s) (nat (cur_node_id s))) (\<lambda>cfg. Inr (addr cfg))"

definition StartServer :: "nat \<Rightarrow> 'f objects \<Rightarrow> 'f objects" where
  "StartServer b W =
     (case node_at W (so_node (service_objs W ! b)) of
        None \<Rightarrow> W
      | Some n \<Rightarrow>
          write_service b ((service_objs W ! b)\<lparr>so_server := Some (server_address (no_self n))\<rparr>) W)"

definition new_RaftServiceImpl :: "nat \<Rightarrow> ServiceObj" where
  "new_RaftServiceImpl a = \<lparr>so_node = a, so_refs = 1, so_server = None\<rparr>"

text \<open>\<open>GetOrCreate\<close> on the node at a live address; the returned pointer counts as one reference.\<close>

definition create_service :: "nat \<Rightarrow> 'f NodeObj \<Rightarrow> 'f objects \<Rightarrow> nat \<times> 'f objects" where
  "create_service a n W =
     (let b = length (service_objs W);
          W1 = write_node a (Some (n\<lparr>no_refs := Suc (no_refs n)\<rparr>)) W;
          W2 = W1\<lparr>service_objs := service_objs W1 @ [new_RaftServiceImpl a],
                  s_instances := um_put a b (s_instances W1)\<rparr>
      in (b, StartServer b W2))"

definition GetOrCreate :: "nat \<Rightarrow> 'f objects \<Rightarrow> (nat \<times> 'f objects) option" where
  "GetOrCreate a W =
     (case node_at W a of
        None \<Rightarrow> None
      | Some n \<Rightarrow>
          (case um_find (s_instances W) a of
             None \<Rightarrow> Some (create_service a n W)
           | Some b \<Rightarrow>
               (case service_at W b of
                  None \<Rightarrow> Some (create_service a n W)
                | Some x \<Rightarrow> Some (b, write_service b (x\<lparr>so_refs := Suc (so_refs x)\<rparr>) W))))"

text \<open>An address the allocator may hand out: a new one, or one that is free.\<close>

definition free_address :: "'f objects \<Rightarrow> nat \<Rightarrow> bool" where
  "free_address W a \<longleftrightarrow> a \<le> length (node_objs W) \<and> node_at W a = None"

definition put_node :: "nat \<Rightarrow> 'f NodeObj \<Rightarrow> 'f objects \<Rightarrow> 'f objects" where
  "put_node a n W =
     (if a < length (node_objs W) then write_node a (Some n) W
      else W\<lparr>node_objs := node_objs W @ [Some n]\<rparr>)"

text \<open>A node made without a service, as \<open>CurpMaster::Create\<close> makes its base object.\<close>

definition new_node :: "nat \<Rightarrow> 'f RaftNode \<Rightarrow> 'f objects \<Rightarrow> 'f objects" where
  "new_node a s W =
     (put_node a \<lparr>no_self = s, no_refs = 1, no_service = None, no_ticker = False\<rparr> W)
       \<lparr>node_handles := a # node_handles W\<rparr>"

definition RaftNode_Create ::
  "'f store_env \<Rightarrow> nat \<Rightarrow> NodeConfig list \<Rightarrow> string \<Rightarrow> int \<Rightarrow> 'f objects \<Rightarrow> 'f objects option" where
  "RaftNode_Create E a configs log_dir node_id W =
     (let W1 = new_node a (new_RaftNode E configs log_dir node_id) W in
      case GetOrCreate a W1 of
        None \<Rightarrow> None
      | Some (b, W2) \<Rightarrow>
          (case node_at W2 a of
             None \<Rightarrow> None
           | Some n \<Rightarrow> Some (write_node a (Some (n\<lparr>no_service := Some b, no_ticker := True\<rparr>)) W2)))"

section \<open>Releasing a reference\<close>

datatype obj_ref = NodeRef nat | ServiceRef nat

definition total_refs :: "'f objects \<Rightarrow> nat" where
  "total_refs W =
     sum_list (map (\<lambda>x. case x of None \<Rightarrow> 0 | Some n \<Rightarrow> no_refs n) (node_objs W))
     + sum_list (map so_refs (service_objs W))"

lemma sum_list_update_less:
  "i < length xs \<Longrightarrow> (y :: nat) < f (xs ! i) \<Longrightarrow> f z = y \<Longrightarrow>
     sum_list (map f (xs[i := z])) < sum_list (map f xs)"
proof (induction xs arbitrary: i)
  case (Cons x xs)
  then show ?case by (cases i) simp_all
qed simp

lemma total_refs_node:
  "node_at W a = Some n \<Longrightarrow> no_refs n = Suc c \<Longrightarrow> total_refs (write_node a None W) < total_refs W"
  by (auto simp: node_at_def write_node_def total_refs_def split: if_splits intro!: sum_list_update_less)

lemma total_refs_service:
  "service_at W b = Some x \<Longrightarrow> total_refs (write_service b (x\<lparr>so_refs := 0, so_server := None\<rparr>) W) < total_refs W"
  by (auto simp: service_at_def write_service_def total_refs_def split: if_splits intro!: sum_list_update_less)

text \<open>
  The destructors, without the release of the members, which follows in \<open>release\<close>.
\<close>

definition RaftNode_destroy :: "nat \<Rightarrow> 'f objects \<Rightarrow> 'f objects" where
  [simp]: "RaftNode_destroy a W = write_node a None W"

definition RaftServiceImpl_destroy :: "nat \<Rightarrow> ServiceObj \<Rightarrow> 'f objects \<Rightarrow> 'f objects" where
  [simp]: "RaftServiceImpl_destroy b x W = write_service b (x\<lparr>so_refs := 0, so_server := None\<rparr>) W"

text \<open>
  The release of a \<open>shared_ptr\<close>. The last release runs the destructor: \<open>~RaftNode\<close> calls \<open>kill\<close> and
  then releases \<open>raft_service_impl\<close>; \<open>~RaftServiceImpl\<close> shuts the server down and then releases
  \<open>raft_node\<close>. \<open>None\<close> is the release of an object that is not there.
\<close>

function release :: "obj_ref \<Rightarrow> 'f objects \<Rightarrow> 'f objects option" where
  "release (NodeRef a) W =
     (case node_at W a of
        None \<Rightarrow> None
      | Some n \<Rightarrow>
          (case no_refs n of
             0 \<Rightarrow> None
           | Suc c \<Rightarrow>
               if 0 < c then Some (write_node a (Some (n\<lparr>no_refs := c\<rparr>)) W)
               else
                 (case no_service n of
                    None \<Rightarrow> Some (RaftNode_destroy a W)
                  | Some b \<Rightarrow> release (ServiceRef b) (RaftNode_destroy a W))))"
| "release (ServiceRef b) W =
     (case service_at W b of
        None \<Rightarrow> None
      | Some x \<Rightarrow>
          if 1 < so_refs x then Some (write_service b (x\<lparr>so_refs := so_refs x - 1\<rparr>) W)
          else release (NodeRef (so_node x)) (RaftServiceImpl_destroy b x W))"
  by pat_completeness auto
termination
  by (relation "measure (\<lambda>(r, W). total_refs W)") (auto intro: total_refs_node total_refs_service)

declare release.simps [simp del]

section \<open>Programs over the objects\<close>

text \<open>
  What the holders of pointers can do: make nodes, copy and drop their pointers, ask for the
  service of a node they hold.
\<close>

inductive object_step :: "'f objects \<Rightarrow> 'f objects \<Rightarrow> bool" where
  o_new: "free_address W a \<Longrightarrow> object_step W (new_node a s W)"
| o_create: "free_address W a \<Longrightarrow> RaftNode_Create E a configs dir i W = Some W' \<Longrightarrow> object_step W W'"
| o_copy: "a \<in> set (node_handles W) \<Longrightarrow> node_at W a = Some n \<Longrightarrow>
    object_step W ((write_node a (Some (n\<lparr>no_refs := Suc (no_refs n)\<rparr>)) W)\<lparr>node_handles := a # node_handles W\<rparr>)"
| o_drop: "a \<in> set (node_handles W) \<Longrightarrow> release (NodeRef a) W = Some W' \<Longrightarrow>
    object_step W (W'\<lparr>node_handles := remove1 a (node_handles W)\<rparr>)"
| o_get: "a \<in> set (node_handles W) \<Longrightarrow> GetOrCreate a W = Some (b, W') \<Longrightarrow>
    object_step W (W'\<lparr>service_handles := b # service_handles W\<rparr>)"
| o_drop_service: "b \<in> set (service_handles W) \<Longrightarrow> release (ServiceRef b) W = Some W' \<Longrightarrow>
    object_step W (W'\<lparr>service_handles := remove1 b (service_handles W)\<rparr>)"

inductive objects_reachable :: "'f objects \<Rightarrow> bool" where
  or_start: "objects_reachable no_objects"
| or_step: "objects_reachable W \<Longrightarrow> object_step W W' \<Longrightarrow> objects_reachable W'"


section \<open>The ownership invariant\<close>

definition node_ptr :: "'f objects \<Rightarrow> nat \<Rightarrow> nat option" where
  "node_ptr W b = map_option so_node (service_at W b)"

definition served :: "'f objects \<Rightarrow> nat \<Rightarrow> bool" where
  "served W a \<longleftrightarrow> (\<exists>b. node_ptr W b = Some a)"

definition service_ptr :: "'f objects \<Rightarrow> nat \<Rightarrow> nat option" where
  "service_ptr W a = (case node_at W a of None \<Rightarrow> None | Some n \<Rightarrow> no_service n)"

definition held :: "'f objects \<Rightarrow> nat \<Rightarrow> bool" where
  "held W b \<longleftrightarrow> (\<exists>a. service_ptr W a = Some b)"

text \<open>
  A count is the number of pointers held outside plus the one inside; a live service is the one
  registered for its node, which is live; pointers point to objects.
\<close>

definition obj_inv :: "'f objects \<Rightarrow> bool" where
  "obj_inv W \<longleftrightarrow>
     (\<forall>a n. node_at W a = Some n \<longrightarrow> no_refs n = count_list (node_handles W) a + of_bool (served W a))
   \<and> (\<forall>b < length (service_objs W).
        so_refs (service_objs W ! b) = count_list (service_handles W) b + of_bool (held W b))
   \<and> (\<forall>a n b. node_at W a = Some n \<longrightarrow> no_service n = Some b \<longrightarrow>
        b < length (service_objs W) \<and> so_node (service_objs W ! b) = a)
   \<and> (\<forall>b x. service_at W b = Some x \<longrightarrow>
        um_find (s_instances W) (so_node x) = Some b \<and> node_at W (so_node x) \<noteq> None)
   \<and> (\<forall>a \<in> set (node_handles W). node_at W a \<noteq> None)
   \<and> (\<forall>b \<in> set (service_handles W). b < length (service_objs W))
   \<and> (\<forall>a b. um_find (s_instances W) a = Some b \<longrightarrow>
        b < length (service_objs W) \<and> so_node (service_objs W ! b) = a)"

lemma obj_invD:
  assumes "obj_inv W"
  shows "node_at W a = Some n \<Longrightarrow> no_refs n = count_list (node_handles W) a + of_bool (served W a)"
    "b < length (service_objs W) \<Longrightarrow>
       so_refs (service_objs W ! b) = count_list (service_handles W) b + of_bool (held W b)"
    "node_at W a = Some n \<Longrightarrow> no_service n = Some b \<Longrightarrow>
       b < length (service_objs W) \<and> so_node (service_objs W ! b) = a"
    "service_at W b = Some x \<Longrightarrow>
       um_find (s_instances W) (so_node x) = Some b \<and> node_at W (so_node x) \<noteq> None"
    "a \<in> set (node_handles W) \<Longrightarrow> node_at W a \<noteq> None"
    "b \<in> set (service_handles W) \<Longrightarrow> b < length (service_objs W)"
    "um_find (s_instances W) a = Some b \<Longrightarrow>
       b < length (service_objs W) \<and> so_node (service_objs W ! b) = a"
  using assms unfolding obj_inv_def by blast+

lemma obj_invI:
  assumes "\<And>a n. node_at W a = Some n \<Longrightarrow> no_refs n = count_list (node_handles W) a + of_bool (served W a)"
    and "\<And>b. b < length (service_objs W) \<Longrightarrow>
       so_refs (service_objs W ! b) = count_list (service_handles W) b + of_bool (held W b)"
    and "\<And>a n b. node_at W a = Some n \<Longrightarrow> no_service n = Some b \<Longrightarrow>
       b < length (service_objs W) \<and> so_node (service_objs W ! b) = a"
    and "\<And>b x. service_at W b = Some x \<Longrightarrow>
       um_find (s_instances W) (so_node x) = Some b \<and> node_at W (so_node x) \<noteq> None"
    and "\<And>a. a \<in> set (node_handles W) \<Longrightarrow> node_at W a \<noteq> None"
    and "\<And>b. b \<in> set (service_handles W) \<Longrightarrow> b < length (service_objs W)"
    and "\<And>a b. um_find (s_instances W) a = Some b \<Longrightarrow>
       b < length (service_objs W) \<and> so_node (service_objs W ! b) = a"
  shows "obj_inv W"
  using assms unfolding obj_inv_def by blast

text \<open>Reading an object after a write.\<close>

lemma node_at_write [simp]:
  "node_at (write_node a x W) a' = (if a' = a \<and> a < length (node_objs W) then x else node_at W a')"
  "node_at (write_service b y W) a' = node_at W a'"
  "node_at (W\<lparr>node_handles := hs\<rparr>) a' = node_at W a'"
  "node_at (W\<lparr>service_handles := hs\<rparr>) a' = node_at W a'"
  "node_at (W\<lparr>service_objs := ss, s_instances := m\<rparr>) a' = node_at W a'"
  by (auto simp: node_at_def write_node_def write_service_def)

lemma node_at_live: "node_at W a = Some n \<Longrightarrow> a < length (node_objs W)"
  by (simp add: node_at_def split: if_splits)

lemma node_at_put:
  "free_address W a \<Longrightarrow> node_at (put_node a n W) a' = (if a' = a then Some n else node_at W a')"
  by (auto simp: free_address_def put_node_def node_at_def write_node_def nth_append)

lemma set_fields [simp]:
  "service_objs (write_node a x W) = service_objs W" "s_instances (write_node a x W) = s_instances W"
  "node_handles (write_node a x W) = node_handles W" "service_handles (write_node a x W) = service_handles W"
  "node_objs (write_service b y W) = node_objs W" "s_instances (write_service b y W) = s_instances W"
  "node_handles (write_service b y W) = node_handles W"
  "service_handles (write_service b y W) = service_handles W"
  "service_objs (write_service b y W) = (service_objs W)[b := y]"
  "service_objs (put_node a n W) = service_objs W" "s_instances (put_node a n W) = s_instances W"
  "service_handles (put_node a n W) = service_handles W" "node_handles (put_node a n W) = node_handles W"
  by (simp_all add: write_node_def write_service_def put_node_def)

lemma service_at_fields [simp]:
  "service_at (write_node a x W) b = service_at W b" "service_at (put_node a n W) b = service_at W b"
  "service_at (W\<lparr>node_handles := hs\<rparr>) b = service_at W b"
  "service_at (W\<lparr>service_handles := hs\<rparr>) b = service_at W b"
  by (simp_all add: service_at_def)

lemma served_fields [simp]:
  "served (write_node a x W) = served W" "served (put_node a n W) = served W"
  "served (W\<lparr>node_handles := hs\<rparr>) = served W" "served (W\<lparr>service_handles := hs\<rparr>) = served W"
  by (simp_all add: served_def node_ptr_def fun_eq_iff)

lemma served_iff: "served W a \<longleftrightarrow> (\<exists>b x. service_at W b = Some x \<and> so_node x = a)"
  by (auto simp: served_def node_ptr_def)

lemma service_at_Some:
  "service_at W b = Some x \<longleftrightarrow> b < length (service_objs W) \<and> x = service_objs W ! b \<and> 0 < so_refs x"
  by (auto simp: service_at_def)

lemma count_pos: "x \<in> set xs \<Longrightarrow> 0 < count_list xs x"
  by (induction xs) auto

lemma count_remove1: "x \<in> set xs \<Longrightarrow> count_list (remove1 x xs) y = count_list xs y - of_bool (y = x)"
proof (induction xs)
  case (Cons z xs)
  then show ?case using count_pos [of x xs] by (cases "z = x") auto
qed simp

text \<open>The service of a live node, as the registry has it.\<close>

lemma node_ptr_inj:
  assumes "obj_inv W" "node_ptr W b = Some a" "node_ptr W b' = Some a"
  shows "b = b'"
proof -
  from assms(2,3) obtain x x' where "service_at W b = Some x" "so_node x = a"
    "service_at W b' = Some x'" "so_node x' = a" by (auto simp: node_ptr_def)
  with obj_invD(4) [OF assms(1), of b x] obj_invD(4) [OF assms(1), of b' x'] show ?thesis by simp
qed

lemma one_service:
  assumes "obj_inv W" "service_at W b = Some x" "service_at W b' = Some x'" "so_node x = so_node x'"
  shows "b = b'"
  using obj_invD(4) [OF assms(1,2)] obj_invD(4) [OF assms(1,3)] assms(4) by simp

lemma service_of_node_live:
  assumes inv: "obj_inv W" and n: "node_at W a = Some n" "no_service n = Some b"
  shows "\<exists>x. service_at W b = Some x \<and> so_node x = a"
proof -
  from obj_invD(3) [OF inv n] have b: "b < length (service_objs W)" "so_node (service_objs W ! b) = a" by simp_all
  from n have "service_ptr W a = Some b" by (simp add: service_ptr_def)
  then have "held W b" unfolding held_def by blast
  with obj_invD(2) [OF inv b(1)] b show ?thesis by (simp add: service_at_def)
qed


section \<open>Preservation\<close>

text \<open>A node and the service it points to.\<close>

definition tied :: "'f objects \<Rightarrow> nat \<Rightarrow> nat \<Rightarrow> bool" where
  "tied W a b \<longleftrightarrow> service_ptr W a = Some b"

lemma tied_frame [simp]:
  "tied (W\<lparr>node_handles := hs\<rparr>) = tied W" "tied (W\<lparr>service_handles := hs\<rparr>) = tied W"
  "tied (write_service b y W) = tied W"
  by (simp_all add: tied_def service_ptr_def fun_eq_iff)

lemma tied_set_node:
  "node_at W a = Some n \<Longrightarrow> no_service n' = no_service n \<Longrightarrow> tied (write_node a (Some n') W) = tied W"
  by (intro ext) (simp add: tied_def service_ptr_def)

lemma tied_drop_node:
  "node_at W a = Some n \<Longrightarrow> no_service n = None \<Longrightarrow> tied (write_node a None W) = tied W"
  by (intro ext) (simp add: tied_def service_ptr_def)

lemma held_cong: "service_ptr V = service_ptr W \<Longrightarrow> held V = held W"
  by (simp add: held_def fun_eq_iff)

lemma held_set_node:
  "node_at W a = Some n \<Longrightarrow> no_service n' = no_service n \<Longrightarrow> held (write_node a (Some n') W) = held W"
  by (intro held_cong ext) (simp add: service_ptr_def)

lemma held_handles [simp]:
  "held (W\<lparr>node_handles := hs\<rparr>) = held W" "held (W\<lparr>service_handles := hs\<rparr>) = held W"
  "held (write_service b y W) = held W"
  by (intro held_cong ext; simp add: service_ptr_def)+

lemma new_node_inv:
  assumes inv: "obj_inv W" and free: "free_address W a"
  shows "obj_inv (new_node a s W)"
proof -
  from free have none: "node_at W a = None" by (simp add: free_address_def)
  with obj_invD(5) [OF inv] have "a \<notin> set (node_handles W)" by blast
  moreover have "\<not> served W a" using none obj_invD(4) [OF inv] by (fastforce simp: served_iff)
  moreover have "held (new_node a s W) = held W"
    using none free by (intro held_cong ext) (simp add: service_ptr_def new_node_def node_at_put)
  ultimately show ?thesis
    using obj_invD [OF inv] none free
    by (intro obj_invI) (auto simp: new_node_def node_at_put split: if_splits)
qed

text \<open>A node whose count changes with the pointers to it.\<close>

lemma recount_node:
  assumes inv: "obj_inv W" and n: "node_at W a = Some n"
    and c: "c = count_list hs a + of_bool (served W a)"
    and hs: "\<And>a'. a' \<noteq> a \<Longrightarrow> count_list hs a' = count_list (node_handles W) a'"
      "set hs \<subseteq> set (node_handles W)"
  shows "obj_inv ((write_node a (Some (n\<lparr>no_refs := c\<rparr>)) W)\<lparr>node_handles := hs\<rparr>)"
  using obj_invD [OF inv] n c hs node_at_live [OF n]
  by (intro obj_invI) (auto simp: held_set_node [OF n] split: if_splits)

lemma drop_dead_node:
  assumes inv: "obj_inv W" and n: "node_at W a = Some n" "no_service n = None"
    and unserved: "\<not> served W a"
    and hs: "\<And>a'. a' \<noteq> a \<Longrightarrow> count_list hs a' = count_list (node_handles W) a'"
      "set hs \<subseteq> set (node_handles W) - {a}"
  shows "obj_inv ((write_node a None W)\<lparr>node_handles := hs\<rparr>)"
proof -
  have "held (write_node a None W) = held W"
    using n by (intro held_cong ext) (simp add: service_ptr_def)
  moreover have "so_node x \<noteq> a" if "service_at W b = Some x" for b x
    using unserved that by (auto simp: served_iff)
  ultimately show ?thesis using obj_invD [OF inv] hs node_at_live [OF n(1)]
    by (intro obj_invI) (auto split: if_splits)
qed

lemma release_node_inv:
  assumes inv: "obj_inv W" and a: "a \<in> set (node_handles W)"
  shows "\<exists>W'. release (NodeRef a) W = Some W' \<and> obj_inv (W'\<lparr>node_handles := remove1 a (node_handles W)\<rparr>)
    \<and> tied W' = tied W"
proof -
  from obj_invD(5) [OF inv a] obtain n where n: "node_at W a = Some n" by blast
  have refs: "no_refs n = count_list (node_handles W) a + of_bool (served W a)" by (rule obj_invD(1) [OF inv n])
  have pos: "0 < count_list (node_handles W) a" by (rule count_pos [OF a])
  define hs where "hs = remove1 a (node_handles W)"
  have hs: "count_list hs a = count_list (node_handles W) a - 1"
    "\<And>a'. a' \<noteq> a \<Longrightarrow> count_list hs a' = count_list (node_handles W) a'" "set hs \<subseteq> set (node_handles W)"
    by (auto simp: hs_def count_remove1 [OF a] dest: set_mp [OF set_remove1_subset])
  from refs pos have "0 < no_refs n" by simp
  then obtain c where c: "no_refs n = Suc c" using gr0_implies_Suc by blast
  show ?thesis
  proof (cases "0 < c")
    case True
    have "obj_inv ((write_node a (Some (n\<lparr>no_refs := c\<rparr>)) W)\<lparr>node_handles := hs\<rparr>)"
      using refs pos c hs by (intro recount_node [OF inv n]) auto
    with n c True show ?thesis by (simp add: release.simps hs_def tied_set_node)
  next
    case False
    with refs pos c have unserved: "\<not> served W a" and one: "count_list (node_handles W) a = 1"
      by (auto split: if_splits)
    have "no_service n = None"
      using service_of_node_live [OF inv n] unserved by (cases "no_service n") (auto simp: served_iff)
    moreover have "a \<notin> set hs" using hs(1) one count_pos [of a hs] by auto
    with drop_dead_node [OF inv n \<open>no_service n = None\<close> unserved hs(2)] hs(3)
    have "obj_inv ((write_node a None W)\<lparr>node_handles := hs\<rparr>)" by blast
    ultimately show ?thesis using n c False by (simp add: release.simps hs_def tied_drop_node)
  qed
qed


text \<open>A service whose count changes with the pointers to it, and stays live.\<close>

lemma recount_service:
  assumes inv: "obj_inv W" and b: "service_at W b = Some x"
    and c: "c = count_list hs b + of_bool (held W b)" "0 < c"
    and hs: "\<And>b'. b' \<noteq> b \<Longrightarrow> count_list hs b' = count_list (service_handles W) b'"
      "set hs \<subseteq> set (service_handles W) \<union> {b}"
  shows "obj_inv ((write_service b (x\<lparr>so_refs := c\<rparr>) W)\<lparr>service_handles := hs\<rparr>)"
proof -
  define y where "y = x\<lparr>so_refs := c\<rparr>"
  define V where "V = (write_service b y W)\<lparr>service_handles := hs\<rparr>"
  have bl: "b < length (service_objs W)" "x = service_objs W ! b" "0 < so_refs x"
    using b unfolding service_at_Some by blast+
  have y: "so_refs y = c" "so_node y = so_node (service_objs W ! b)" by (simp_all add: y_def bl(2))
  have fields: "node_at V = node_at W" "held V = held W" "node_handles V = node_handles W"
    "s_instances V = s_instances W" "service_handles V = hs" "service_objs V = (service_objs W)[b := y]"
    by (simp_all add: V_def fun_eq_iff)
  have at: "service_at V b' = (if b' = b then Some y else service_at W b')" for b'
    using bl c(2) y(1) by (simp add: service_at_def fields)
  have "node_ptr V b' = node_ptr W b'" for b' using b by (simp add: node_ptr_def at y(2) bl(2))
  then have served: "served V = served W" by (simp add: served_def fun_eq_iff)
  have "obj_inv V"
  proof (rule obj_invI)
    fix b' assume "b' < length (service_objs V)"
    then show "so_refs (service_objs V ! b') = count_list (service_handles V) b' + of_bool (held V b')"
      using obj_invD(2) [OF inv, of b'] c(1) hs(1) [of b'] y(1)
      by (cases "b' = b") (simp_all add: fields)
  next
    fix a n b' assume "node_at V a = Some n" "no_service n = Some b'"
    then show "b' < length (service_objs V) \<and> so_node (service_objs V ! b') = a"
      using obj_invD(3) [OF inv, of a n b'] y(2) by (cases "b' = b") (simp_all add: fields)
  next
    fix b' x' assume "service_at V b' = Some x'"
    then show "um_find (s_instances V) (so_node x') = Some b' \<and> node_at V (so_node x') \<noteq> None"
      using obj_invD(4) [OF inv, of b' x'] obj_invD(4) [OF inv b] y(2) bl(2)
      by (cases "b' = b") (auto simp: fields at)
  next
    fix b' assume "b' \<in> set (service_handles V)"
    then show "b' < length (service_objs V)"
      using hs(2) obj_invD(6) [OF inv, of b'] bl(1) by (auto simp: fields)
  next
    fix a b' assume "um_find (s_instances V) a = Some b'"
    then show "b' < length (service_objs V) \<and> so_node (service_objs V ! b') = a"
      using obj_invD(7) [OF inv, of a b'] y(2) by (cases "b' = b") (simp_all add: fields)
  qed (use obj_invD(1,5) [OF inv] in \<open>simp_all add: fields served\<close>)
  then show ?thesis by (simp add: V_def y_def)
qed

text \<open>A service that dies with its last outside pointer; its node loses a reference.\<close>

lemma drop_dead_service:
  assumes inv: "obj_inv W" and b: "service_at W b = Some x" and unheld: "\<not> held W b"
    and one: "count_list (service_handles W) b = 1"
    and n: "node_at W (so_node x) = Some n" "no_refs n = Suc c"
  defines "V \<equiv> (write_service b (x\<lparr>so_refs := 0, so_server := None\<rparr>) W)
      \<lparr>service_handles := remove1 b (service_handles W)\<rparr>"
  shows "c = count_list (node_handles W) (so_node x)" "\<not> served V (so_node x)"
    "obj_inv (write_node (so_node x) (Some (n\<lparr>no_refs := c\<rparr>)) V)"
proof -
  let ?a = "so_node x"
  define y where "y = x\<lparr>so_refs := 0, so_server := None\<rparr>"
  have bl: "b < length (service_objs W)" "x = service_objs W ! b" "0 < so_refs x"
    using b unfolding service_at_Some by blast+
  have y: "so_refs y = 0" "so_node y = so_node (service_objs W ! b)" by (simp_all add: y_def bl(2))
  have "0 < count_list (service_handles W) b" using one by simp
  then have bh: "b \<in> set (service_handles W)" by (metis count_notin less_numeral_extra(3))
  have fields: "node_at V = node_at W" "held V = held W" "node_handles V = node_handles W"
    "s_instances V = s_instances W" "service_handles V = remove1 b (service_handles W)"
    "service_objs V = (service_objs W)[b := y]" "node_objs V = node_objs W"
    by (simp_all add: V_def fun_eq_iff y_def)
  have at: "service_at V b' = (if b' = b then None else service_at W b')" for b'
    using bl(1) y(1) by (simp add: service_at_def fields)
  have served: "served V a \<longleftrightarrow> served W a \<and> a \<noteq> ?a" for a
  proof -
    have pb: "node_ptr W b = Some ?a" using b by (simp add: node_ptr_def)
    have "node_ptr V b' = (if b' = b then None else node_ptr W b')" for b'
      by (simp add: node_ptr_def at)
    then have "served V a \<longleftrightarrow> (\<exists>b'. b' \<noteq> b \<and> node_ptr W b' = Some a)" by (simp add: served_def) metis
    with pb node_ptr_inj [OF inv pb] show ?thesis unfolding served_def by (metis option.inject)
  qed
  then show "\<not> served V ?a" by simp
  have "served W ?a" using b by (auto simp: served_iff)
  with obj_invD(1) [OF inv n(1)] n(2) show c: "c = count_list (node_handles W) ?a" by simp
  define U where "U = write_node ?a (Some (n\<lparr>no_refs := c\<rparr>)) V"
  have node: "node_at U a = (if a = ?a then Some (n\<lparr>no_refs := c\<rparr>) else node_at W a)" for a
    using node_at_live [OF n(1)] by (simp add: U_def fields)
  have held: "held U = held W"
    using held_set_node [of V ?a n "n\<lparr>no_refs := c\<rparr>"] n(1) by (simp add: U_def fields)
  have rest: "service_at U = service_at V" "served U = served V" "node_handles U = node_handles W"
    "s_instances U = s_instances W" "service_handles U = remove1 b (service_handles W)"
    "service_objs U = (service_objs W)[b := y]"
    by (simp_all add: U_def fields fun_eq_iff)
  show "obj_inv U"
  proof (rule obj_invI)
    fix a m assume "node_at U a = Some m"
    then show "no_refs m = count_list (node_handles U) a + of_bool (served U a)"
      using obj_invD(1) [OF inv, of a m] c by (cases "a = ?a") (auto simp: node rest served)
  next
    fix b' assume "b' < length (service_objs U)"
    then show "so_refs (service_objs U ! b') = count_list (service_handles U) b' + of_bool (held U b')"
      using obj_invD(2) [OF inv, of b'] y(1) one unheld
      by (cases "b' = b") (simp_all add: rest held count_remove1 [OF bh])
  next
    fix a m b' assume *: "node_at U a = Some m" "no_service m = Some b'"
    have "\<exists>m'. node_at W a = Some m' \<and> no_service m' = Some b'"
      using * n(1) by (cases "a = ?a") (auto simp: node)
    with obj_invD(3) [OF inv, of a _ b'] y(2)
    show "b' < length (service_objs U) \<and> so_node (service_objs U ! b') = a"
      by (cases "b' = b") (auto simp: rest)
  next
    fix b' x' assume "service_at U b' = Some x'"
    then show "um_find (s_instances U) (so_node x') = Some b' \<and> node_at U (so_node x') \<noteq> None"
      using obj_invD(4) [OF inv, of b' x'] by (auto simp: rest at node split: if_splits)
  next
    fix b' assume "b' \<in> set (service_handles U)"
    then show "b' < length (service_objs U)"
      using obj_invD(6) [OF inv, of b'] by (auto simp: rest dest: set_mp [OF set_remove1_subset])
  next
    fix a b' assume "um_find (s_instances U) a = Some b'"
    then show "b' < length (service_objs U) \<and> so_node (service_objs U ! b') = a"
      using obj_invD(7) [OF inv, of a b'] y(2) by (cases "b' = b") (simp_all add: rest)
  next
    fix a assume "a \<in> set (node_handles U)"
    then show "node_at U a \<noteq> None" using obj_invD(5) [OF inv, of a] by (simp add: rest node)
  qed
qed

text \<open>The node that dies with it, when nobody else points to it.\<close>

lemma drop_service_and_node:
  assumes inv: "obj_inv W" and b: "service_at W b = Some x" and unheld: "\<not> held W b"
    and one: "count_list (service_handles W) b = 1"
    and n: "node_at W (so_node x) = Some n" "no_refs n = Suc 0"
  defines "V \<equiv> (write_service b (x\<lparr>so_refs := 0, so_server := None\<rparr>) W)
      \<lparr>service_handles := remove1 b (service_handles W)\<rparr>"
  shows "no_service n = None" "obj_inv (write_node (so_node x) None V)"
proof -
  let ?a = "so_node x" and ?n = "n\<lparr>no_refs := 0\<rparr>"
  note drop = drop_dead_service [OF inv b unheld one n, folded V_def]
  show none: "no_service n = None"
  proof (cases "no_service n")
    case (Some b')
    from service_of_node_live [OF inv n(1) Some] obtain x' where x': "service_at W b' = Some x'" "so_node x' = ?a"
      by blast
    with one_service [OF inv b x'(1)] have "b' = b" by simp
    with Some n(1) unheld show ?thesis unfolding held_def service_ptr_def by (metis option.simps(5))
  qed simp
  let ?U = "write_node ?a (Some ?n) V"
  have at: "node_at ?U ?a = Some ?n" using node_at_live [OF n(1)] by (simp add: V_def)
  have unserved: "\<not> served ?U ?a" using drop(2) by simp
  have nh: "?a \<notin> set (node_handles W)" using drop(1) count_pos [of ?a "node_handles W"] by auto
  have "obj_inv ((write_node ?a None ?U)\<lparr>node_handles := node_handles W\<rparr>)"
    using none nh by (intro drop_dead_node [OF drop(3) at _ unserved]) (auto simp: V_def)
  moreover have "(write_node ?a None ?U)\<lparr>node_handles := node_handles W\<rparr> = write_node ?a None V"
    by (simp add: write_node_def V_def write_service_def)
  ultimately show "obj_inv (write_node ?a None V)" by simp
qed

lemma release_service_inv:
  assumes inv: "obj_inv W" and b: "b \<in> set (service_handles W)"
  shows "\<exists>W'. release (ServiceRef b) W = Some W'
    \<and> obj_inv (W'\<lparr>service_handles := remove1 b (service_handles W)\<rparr>) \<and> tied W' = tied W"
proof -
  define x where "x = service_objs W ! b"
  have bl: "b < length (service_objs W)" by (rule obj_invD(6) [OF inv b])
  have refs: "so_refs x = count_list (service_handles W) b + of_bool (held W b)"
    using obj_invD(2) [OF inv bl] by (simp add: x_def)
  have pos: "0 < count_list (service_handles W) b" by (rule count_pos [OF b])
  with refs bl have at: "service_at W b = Some x" by (simp add: service_at_Some x_def)
  let ?hs = "remove1 b (service_handles W)"
  show ?thesis
  proof (cases "1 < so_refs x")
    case True
    have "obj_inv ((write_service b (x\<lparr>so_refs := so_refs x - 1\<rparr>) W)\<lparr>service_handles := ?hs\<rparr>)"
      using refs pos True by (intro recount_service [OF inv at])
        (auto simp: count_remove1 [OF b] dest: set_mp [OF set_remove1_subset])
    with at True show ?thesis by (simp add: release.simps)
  next
    case False
    with refs pos have unheld: "\<not> held W b" and one: "count_list (service_handles W) b = 1"
      by (auto split: if_splits)
    from obj_invD(4) [OF inv at] obtain n where n: "node_at W (so_node x) = Some n" by blast
    have "served W (so_node x)" using at by (auto simp: served_iff)
    with obj_invD(1) [OF inv n] have "0 < no_refs n" by simp
    then obtain c where c: "no_refs n = Suc c" using gr0_implies_Suc by blast
    note drop = drop_dead_service [OF inv at unheld one n c]
    let ?V = "write_service b (x\<lparr>so_refs := 0, so_server := None\<rparr>) W"
    have step: "release (ServiceRef b) W = release (NodeRef (so_node x)) ?V"
      using at False by (simp add: release.simps)
    have swap: "(write_node a y ?V)\<lparr>service_handles := ?hs\<rparr> = write_node a y (?V\<lparr>service_handles := ?hs\<rparr>)" for a y
      by (simp add: write_node_def)
    show ?thesis
    proof (cases "0 < c")
      case True
      with step n c have "release (ServiceRef b) W = Some (write_node (so_node x) (Some (n\<lparr>no_refs := c\<rparr>)) ?V)"
        by (simp add: release.simps)
      with drop(3) n show ?thesis by (auto simp: swap tied_set_node)
    next
      case False
      with c have c0: "no_refs n = Suc 0" by simp
      note both = drop_service_and_node [OF inv at unheld one n c0]
      with step n c False both show ?thesis by (simp add: release.simps swap tied_drop_node)
    qed
  qed
qed


text \<open>What \<open>create_service\<close> leaves.\<close>

lemma create_service_fields:
  assumes n: "node_at W a = Some n" and res: "create_service a n W = (b, W')"
  shows "b = length (service_objs W)"
    "node_at W' a' = (if a' = a then Some (n\<lparr>no_refs := Suc (no_refs n)\<rparr>) else node_at W a')"
    "service_objs W' = service_objs W @
       [\<lparr>so_node = a, so_refs = 1, so_server = Some (server_address (no_self n))\<rparr>]"
    "s_instances W' = um_put a b (s_instances W)"
    "node_handles W' = node_handles W" "service_handles W' = service_handles W"
proof -
  define W2 where "W2 = (write_node a (Some (n\<lparr>no_refs := Suc (no_refs n)\<rparr>)) W)
    \<lparr>service_objs := service_objs W @ [new_RaftServiceImpl a],
      s_instances := um_put a (length (service_objs W)) (s_instances W)\<rparr>"
  have b: "b = length (service_objs W)" and W': "W' = StartServer b W2"
    using res by (auto simp: create_service_def W2_def Let_def)
  show "b = length (service_objs W)" by (rule b)
  have node: "node_at W2 a' = (if a' = a then Some (n\<lparr>no_refs := Suc (no_refs n)\<rparr>) else node_at W a')" for a'
    using node_at_live [OF n] by (simp add: W2_def)
  have W'_eq: "W' = write_service b ((new_RaftServiceImpl a)\<lparr>so_server := Some (server_address (no_self n))\<rparr>) W2"
    using node [of a] by (simp add: W' StartServer_def W2_def b new_RaftServiceImpl_def)
  show "node_at W' a' = (if a' = a then Some (n\<lparr>no_refs := Suc (no_refs n)\<rparr>) else node_at W a')"
    by (simp add: W'_eq node)
  show "service_objs W' = service_objs W @
       [\<lparr>so_node = a, so_refs = 1, so_server = Some (server_address (no_self n))\<rparr>]"
    by (simp add: W'_eq W2_def b new_RaftServiceImpl_def list_update_append)
  show "s_instances W' = um_put a b (s_instances W)" "node_handles W' = node_handles W"
    "service_handles W' = service_handles W"
    by (simp_all add: W'_eq W2_def b)
qed

lemma create_service_inv:
  assumes inv: "obj_inv W" and n: "node_at W a = Some n" and un: "\<not> served W a"
    and res: "create_service a n W = (b, W')"
  shows "obj_inv (W'\<lparr>service_handles := b # service_handles W\<rparr>)"
proof -
  note f = create_service_fields [OF n res]
  define V where "V = W'\<lparr>service_handles := b # service_handles W\<rparr>"
  define y where "y = \<lparr>so_node = a, so_refs = 1, so_server = Some (server_address (no_self n))\<rparr>"
  have y: "so_node y = a" "so_refs y = 1" by (simp_all add: y_def)
  have V: "node_at V a' = (if a' = a then Some (n\<lparr>no_refs := Suc (no_refs n)\<rparr>) else node_at W a')"
    "service_objs V = service_objs W @ [y]" "s_instances V = um_put a b (s_instances W)"
    "node_handles V = node_handles W" "service_handles V = b # service_handles W" for a'
    by (simp_all add: V_def f y_def)
  have at: "service_at V b' = (if b' = b then Some y else service_at W b')" for b'
    by (auto simp: service_at_def V f(1) y nth_append)
  have ptr: "node_ptr V b' = (if b' = b then Some a else node_ptr W b')" for b'
    by (simp add: node_ptr_def at y)
  have "node_ptr W b = None" by (simp add: node_ptr_def service_at_def f(1))
  then have served: "served V a' \<longleftrightarrow> served W a' \<or> a' = a" for a'
    unfolding served_def ptr by (metis option.distinct(1) option.inject)
  have "service_ptr V a' = service_ptr W a'" for a' using n by (simp add: service_ptr_def V)
  then have held: "held V = held W" by (simp add: held_def fun_eq_iff)
  have bfresh: "\<not> held W b" "b \<notin> set (service_handles W)"
  proof -
    show "b \<notin> set (service_handles W)" using obj_invD(6) [OF inv, of b] f(1) by auto
    show "\<not> held W b"
    proof
      assume "held W b"
      then obtain a' m where "node_at W a' = Some m" "no_service m = Some b"
        by (auto simp: held_def service_ptr_def split: option.splits)
      from obj_invD(3) [OF inv this] f(1) show False by simp
    qed
  qed
  have "obj_inv V"
  proof (rule obj_invI)
    fix a' m assume "node_at V a' = Some m"
    then show "no_refs m = count_list (node_handles V) a' + of_bool (served V a')"
      using obj_invD(1) [OF inv, of a'] n un by (cases "a' = a") (auto simp: V served)
  next
    fix b' assume *: "b' < length (service_objs V)"
    show "so_refs (service_objs V ! b') = count_list (service_handles V) b' + of_bool (held V b')"
    proof (cases "b' = b")
      case True
      with bfresh f(1) y show ?thesis by (simp add: V held)
    next
      case False
      with * f(1) obj_invD(2) [OF inv, of b'] show ?thesis by (simp add: V held nth_append)
    qed
  next
    fix a' m b' assume *: "node_at V a' = Some m" "no_service m = Some b'"
    have "\<exists>m'. node_at W a' = Some m' \<and> no_service m' = Some b'"
      using * n by (cases "a' = a") (auto simp: V)
    then show "b' < length (service_objs V) \<and> so_node (service_objs V ! b') = a'"
      using obj_invD(3) [OF inv, of a' _ b'] by (auto simp: V nth_append)
  next
    fix b' x' assume *: "service_at V b' = Some x'"
    show "um_find (s_instances V) (so_node x') = Some b' \<and> node_at V (so_node x') \<noteq> None"
    proof (cases "b' = b")
      case True
      with * y show ?thesis by (simp add: V at um_find_put)
    next
      case False
      with * have x': "service_at W b' = Some x'" by (simp add: at)
      with un have "so_node x' \<noteq> a" by (auto simp: served_iff)
      with obj_invD(4) [OF inv x'] show ?thesis by (simp add: V um_find_put)
    qed
  next
    fix b' assume "b' \<in> set (service_handles V)"
    then show "b' < length (service_objs V)" using obj_invD(6) [OF inv, of b'] f(1) by (auto simp: V)
  next
    fix a' b' assume "um_find (s_instances V) a' = Some b'"
    then show "b' < length (service_objs V) \<and> so_node (service_objs V ! b') = a'"
      using obj_invD(7) [OF inv, of a' b'] f(1) y(1)
      by (auto simp: V um_find_put nth_append split: if_splits)
  next
    fix a' assume "a' \<in> set (node_handles V)"
    then show "node_at V a' \<noteq> None" using obj_invD(5) [OF inv, of a'] by (simp add: V)
  qed
  then show ?thesis by (simp add: V_def)
qed

text \<open>The registered live service of a node.\<close>

definition find_service :: "'f objects \<Rightarrow> nat \<Rightarrow> nat option" where
  "find_service W a =
     (case um_find (s_instances W) a of
        None \<Rightarrow> None
      | Some b \<Rightarrow> if service_at W b = None then None else Some b)"

lemma GetOrCreate_cases:
  assumes "GetOrCreate a W = Some (b, W')"
  obtains (found) n x where "node_at W a = Some n" "find_service W a = Some b" "service_at W b = Some x"
      "W' = write_service b (x\<lparr>so_refs := Suc (so_refs x)\<rparr>) W"
    | (created) n where "node_at W a = Some n" "find_service W a = None" "create_service a n W = (b, W')"
  using assms unfolding GetOrCreate_def find_service_def by (auto split: option.splits)

lemma not_served_iff:
  assumes inv: "obj_inv W" and none: "find_service W a = None"
  shows "\<not> served W a"
proof
  assume "served W a"
  then obtain b x where "service_at W b = Some x" "so_node x = a" by (auto simp: served_iff)
  with obj_invD(4) [OF inv] none show False by (auto simp: find_service_def)
qed

lemma GetOrCreate_inv:
  assumes inv: "obj_inv W" and res: "GetOrCreate a W = Some (b, W')"
  shows "obj_inv (W'\<lparr>service_handles := b # service_handles W\<rparr>)"
  using res
proof (cases rule: GetOrCreate_cases)
  case (found n x)
  then have "so_refs x = count_list (service_handles W) b + of_bool (held W b)"
    using obj_invD(2) [OF inv, of b] by (auto simp: service_at_Some)
  then have "obj_inv ((write_service b (x\<lparr>so_refs := Suc (so_refs x)\<rparr>) W)\<lparr>service_handles := b # service_handles W\<rparr>)"
    by (intro recount_service [OF inv found(3)]) auto
  with found(4) show ?thesis by simp
next
  case (created n)
  with create_service_inv [OF inv _ not_served_iff [OF inv]] show ?thesis by blast
qed


text \<open>The returned pointer moves into the node: \<open>node->raft_service_impl = ...\<close>.\<close>

lemma attach_service_inv:
  assumes inv: "obj_inv (W\<lparr>service_handles := b # hs\<rparr>)"
    and n: "node_at W a = Some n" "no_service n = None"
    and b: "b < length (service_objs W)" "so_node (service_objs W ! b) = a"
  shows "obj_inv ((write_node a (Some (n\<lparr>no_service := Some b, no_ticker := t\<rparr>)) W)\<lparr>service_handles := hs\<rparr>)"
proof -
  define U where "U = W\<lparr>service_handles := b # hs\<rparr>"
  have U: "node_at U = node_at W" "service_objs U = service_objs W" "service_handles U = b # hs"
    by (simp_all add: U_def fun_eq_iff)
  define V where "V = (write_node a (Some (n\<lparr>no_service := Some b, no_ticker := t\<rparr>)) W)\<lparr>service_handles := hs\<rparr>"
  have inv: "obj_inv U" using inv by (simp add: U_def)
  have node: "node_at V a' = (if a' = a then Some (n\<lparr>no_service := Some b, no_ticker := t\<rparr>) else node_at U a')" for a'
    using node_at_live [OF n(1)] by (simp add: V_def U)
  have rest: "service_objs V = service_objs U" "s_instances V = s_instances U" "service_at V = service_at U"
    "node_handles V = node_handles U" "service_handles V = hs" "served V = served U"
    by (simp_all add: V_def U_def fun_eq_iff)
  have only: "a' = a" if "service_ptr U a' = Some b" for a'
    using that obj_invD(3) [OF inv, of a' _ b] b(2) by (auto simp: service_ptr_def U split: option.splits)
  have ptr: "service_ptr V a' = (if a' = a then Some b else service_ptr U a')" for a'
    by (simp add: service_ptr_def node)
  have a_none: "service_ptr U a = None" using n by (simp add: service_ptr_def U)
  then have held: "held V b' \<longleftrightarrow> held U b' \<or> b' = b" and unheld: "\<not> held U b" for b'
    using only unfolding held_def ptr by (metis option.distinct(1) option.inject)+
  have "obj_inv V"
  proof (rule obj_invI)
    fix a' m assume "node_at V a' = Some m"
    then show "no_refs m = count_list (node_handles V) a' + of_bool (served V a')"
      using obj_invD(1) [OF inv, of a'] n(1) by (cases "a' = a") (auto simp: node rest U(1))
  next
    fix b' assume "b' < length (service_objs V)"
    then show "so_refs (service_objs V ! b') = count_list (service_handles V) b' + of_bool (held V b')"
      using obj_invD(2) [OF inv, of b'] unheld by (cases "b' = b") (auto simp: rest held U(3))
  next
    fix a' m b' assume "node_at V a' = Some m" "no_service m = Some b'"
    then show "b' < length (service_objs V) \<and> so_node (service_objs V ! b') = a'"
      using obj_invD(3) [OF inv, of a' m b'] b by (cases "a' = a") (auto simp: node rest U(2))
  next
    fix b' x assume "service_at V b' = Some x"
    then show "um_find (s_instances V) (so_node x) = Some b' \<and> node_at V (so_node x) \<noteq> None"
      using obj_invD(4) [OF inv, of b' x] by (auto simp: node rest)
  next
    fix b' assume "b' \<in> set (service_handles V)"
    then show "b' < length (service_objs V)" using obj_invD(6) [OF inv, of b'] by (simp add: rest U(3))
  next
    fix a' b' assume "um_find (s_instances V) a' = Some b'"
    then show "b' < length (service_objs V) \<and> so_node (service_objs V ! b') = a'"
      using obj_invD(7) [OF inv, of a' b'] by (simp add: rest)
  next
    fix a' assume "a' \<in> set (node_handles V)"
    then show "node_at V a' \<noteq> None" using obj_invD(5) [OF inv, of a'] by (simp add: rest node)
  qed
  then show ?thesis by (simp add: V_def)
qed

text \<open>\<open>Create\<close> on a free address always succeeds, and ties node and service to each other.\<close>

lemma unserved_find:
  assumes inv: "obj_inv W" and un: "\<not> served W a"
  shows "find_service W a = None"
proof (cases "um_find (s_instances W) a")
  case (Some b)
  with obj_invD(7) [OF inv] have "so_node (service_objs W ! b) = a" by blast
  with un have "service_at W b = None" by (cases "service_at W b") (auto simp: served_iff service_at_Some)
  with Some show ?thesis by (simp add: find_service_def)
qed (simp add: find_service_def)

lemma GetOrCreate_new:
  assumes "node_at W a = Some n" "find_service W a = None"
  shows "GetOrCreate a W = Some (create_service a n W)"
  using assms unfolding GetOrCreate_def find_service_def by (auto split: option.splits if_splits)

lemma Create_inv:
  assumes inv: "obj_inv W" and free: "free_address W a"
  shows "\<exists>b W'. RaftNode_Create E a configs dir i W = Some W' \<and> obj_inv W' \<and> tied W' a b
    \<and> b = length (service_objs W) \<and> (\<forall>a' b'. tied W a' b' \<longrightarrow> tied W' a' b')
    \<and> so_server (service_objs W' ! b) = Some (server_address (new_RaftNode E configs dir i))"
proof -
  define s where "s = new_RaftNode E configs dir i"
  define W1 where "W1 = new_node a s W"
  define n where "n = \<lparr>no_self = s, no_refs = 1, no_service = None, no_ticker = False\<rparr>"
  have inv1: "obj_inv W1" unfolding W1_def by (rule new_node_inv [OF inv free])
  have n1: "node_at W1 a = Some n" by (simp add: W1_def new_node_def n_def node_at_put [OF free])
  from free have "node_at W a = None" by (simp add: free_address_def)
  then have un: "\<not> served W1 a" using obj_invD(4) [OF inv] by (fastforce simp: W1_def new_node_def served_iff)
  obtain b W2 where W2: "create_service a n W1 = (b, W2)" by fastforce
  note f = create_service_fields [OF n1 W2]
  have get: "GetOrCreate a W1 = Some (b, W2)"
    using GetOrCreate_new [OF n1 unserved_find [OF inv1 un]] W2 by simp
  define n2 where "n2 = n\<lparr>no_refs := Suc (no_refs n)\<rparr>"
  have n2: "node_at W2 a = Some n2" "no_service n2 = None" using f(2) [of a] by (simp_all add: n2_def n_def)
  let ?W3 = "write_node a (Some (n2\<lparr>no_service := Some b, no_ticker := True\<rparr>)) W2"
  have "obj_inv (?W3\<lparr>service_handles := service_handles W1\<rparr>)"
    using GetOrCreate_inv [OF inv1 get] n2 f(1,3) by (intro attach_service_inv) auto
  then have "obj_inv ?W3" using f(6) by (metis (mono_tags) objects.surjective objects.update_convs(5) set_fields(4))
  moreover have "RaftNode_Create E a configs dir i W = Some ?W3"
    using get n2 by (simp add: RaftNode_Create_def W1_def s_def)
  moreover have "tied ?W3 a b" using node_at_live [OF n2(1)] by (simp add: tied_def service_ptr_def)
  moreover have "tied ?W3 a' b'" if "tied W a' b'" for a' b'
  proof -
    from that \<open>node_at W a = None\<close> have "a' \<noteq> a" by (auto simp: tied_def service_ptr_def)
    with that show ?thesis by (simp add: tied_def service_ptr_def f(2) W1_def new_node_def node_at_put [OF free])
  qed
  moreover have "b = length (service_objs W)" using f(1) by (simp add: W1_def new_node_def)
  moreover have "so_server (service_objs ?W3 ! b) = Some (server_address s)"
    using f(1,3) by (simp add: n_def)
  ultimately show ?thesis unfolding s_def by blast
qed

lemma no_objects_inv: "obj_inv no_objects"
  by (simp add: obj_inv_def no_objects_def node_at_def service_at_def)

lemma object_step_inv:
  assumes "object_step W W'" "obj_inv W"
  shows "obj_inv W'"
  using assms
proof (induction rule: object_step.induct)
  case (o_new W a s)
  then show ?case by (rule new_node_inv [rotated])
next
  case (o_create W a E configs dir i W')
  with Create_inv [of W a E configs dir i] show ?case by auto
next
  case (o_copy a W n)
  have "obj_inv ((write_node a (Some (n\<lparr>no_refs := Suc (no_refs n)\<rparr>)) W)\<lparr>node_handles := a # node_handles W\<rparr>)"
    using obj_invD(1) [OF o_copy(3,2)] o_copy(1) by (intro recount_node [OF o_copy(3,2)]) auto
  then show ?case .
next
  case (o_drop a W W')
  with release_node_inv [of W a] show ?case by auto
next
  case (o_get a W b W')
  then show ?case by (intro GetOrCreate_inv)
next
  case (o_drop_service b W W')
  with release_service_inv [of W b] show ?case by auto
qed

lemma objects_reachable_inv: "objects_reachable W \<Longrightarrow> obj_inv W"
  by (induction rule: objects_reachable.induct) (auto intro: no_objects_inv object_step_inv)


lemma object_step_tied:
  assumes "object_step W W'" "obj_inv W" "tied W a b"
  shows "tied W' a b"
  using assms
proof (induction rule: object_step.induct)
  case (o_new W a' s)
  then have "a \<noteq> a'" by (auto simp: tied_def service_ptr_def free_address_def)
  with o_new show ?case by (simp add: tied_def service_ptr_def new_node_def node_at_put)
next
  case (o_create W a' E configs dir i W')
  with Create_inv [of W a' E configs dir i] show ?case by auto
next
  case (o_copy a' W n)
  then show ?case by (simp add: tied_set_node)
next
  case (o_drop a' W W')
  with release_node_inv [of W a'] show ?case by auto
next
  case (o_get a' W b' W')
  from o_get(2) show ?case
  proof (cases rule: GetOrCreate_cases)
    case (found n x)
    with o_get show ?thesis by simp
  next
    case (created n)
    note f = create_service_fields [OF created(1,3)]
    from o_get(4) created(1) show ?thesis by (auto simp: tied_def service_ptr_def f(2))
  qed
next
  case (o_drop_service b' W W')
  with release_service_inv [of W b'] show ?case by auto
qed


section \<open>Get or create\<close>

text \<open>
  The stub cache and the registry of services offer the same interface: a call for a key returns
  the object stored for it, and makes and stores one when there is none. \<open>gets\<close> is a sequence of
  calls.
\<close>

primrec gets :: "('k \<Rightarrow> 'st \<Rightarrow> ('v \<times> 'st) option) \<Rightarrow> 'k list \<Rightarrow> 'st \<Rightarrow> 'st option" where
  "gets get [] st = Some st"
| "gets get (k # ks) st = (case get k st of None \<Rightarrow> None | Some (v, st') \<Rightarrow> gets get ks st')"

locale get_or_create =
  fixes ok :: "'st \<Rightarrow> bool"
    and usable :: "'st \<Rightarrow> 'k \<Rightarrow> bool"
    and lookup :: "'st \<Rightarrow> 'k \<Rightarrow> 'v option"
    and get :: "'k \<Rightarrow> 'st \<Rightarrow> ('v \<times> 'st) option"
    and made :: "'st \<Rightarrow> nat"
  assumes total: "usable st k \<Longrightarrow> get k st \<noteq> None"
    and keeps: "ok st \<Longrightarrow> get k st = Some (v, st') \<Longrightarrow> ok st' \<and> (usable st k' \<longrightarrow> usable st' k')"
    and hit: "ok st \<Longrightarrow> lookup st k = Some v \<Longrightarrow> get k st = Some (v', st') \<Longrightarrow>
        v' = v \<and> lookup st' = lookup st \<and> made st' = made st"
    and miss: "ok st \<Longrightarrow> lookup st k = None \<Longrightarrow> get k st = Some (v, st') \<Longrightarrow>
        lookup st' = (lookup st)(k \<mapsto> v) \<and> made st' = Suc (made st)"
begin

lemma get_stores:
  assumes "ok st" "get k st = Some (v, st')"
  shows "lookup st' k = Some v" "k' \<noteq> k \<Longrightarrow> lookup st' k' = lookup st k'"
  using hit [OF assms(1) _ assms(2)] miss [OF assms(1) _ assms(2)] by (cases "lookup st k"; auto)+

lemma gets_keep:
  "ok st \<Longrightarrow> gets get ks st = Some st' \<Longrightarrow> ok st' \<and> (\<forall>k v. lookup st k = Some v \<longrightarrow> lookup st' k = Some v)"
proof (induction ks arbitrary: st)
  case (Cons k ks)
  from Cons.prems(2) obtain v st1 where g: "get k st = Some (v, st1)" "gets get ks st1 = Some st'"
    by (auto split: option.splits)
  have "lookup st1 k' = Some v'" if "lookup st k' = Some v'" for k' v'
    using that hit [OF Cons.prems(1) _ g(1)] get_stores [OF Cons.prems(1) g(1)] by (cases "k' = k") auto
  with Cons.IH [OF _ g(2)] keeps [OF Cons.prems(1) g(1)] show ?case by blast
qed simp

lemma get_again:
  assumes "ok st" "get k st = Some (v, st1)" "gets get ks st1 = Some st2" "get k st2 = Some (v2, st3)"
  shows "v2 = v"
proof -
  have ok1: "ok st1" using keeps [OF assms(1,2)] by blast
  have "lookup st2 k = Some v" using gets_keep [OF ok1 assms(3)] get_stores(1) [OF assms(1,2)] by blast
  with hit [OF _ this assms(4)] gets_keep [OF ok1 assms(3)] show ?thesis by blast
qed

lemma gets_total:
  "ok st \<Longrightarrow> \<forall>k \<in> set ks. usable st k \<Longrightarrow>
     \<exists>st'. gets get ks st = Some st' \<and> made st' = made st + card (set ks - dom (lookup st))"
proof (induction ks arbitrary: st)
  case (Cons k ks)
  from Cons.prems(2) total [of st k] obtain v st1 where g: "get k st = Some (v, st1)" by auto
  have ok1: "ok st1" "\<forall>k' \<in> set ks. usable st1 k'" using keeps [OF Cons.prems(1) g] Cons.prems(2) by auto
  from Cons.IH [OF ok1] obtain st' where st': "gets get ks st1 = Some st'"
    "made st' = made st1 + card (set ks - dom (lookup st1))" by blast
  show ?case
  proof (cases "lookup st k")
    case None
    with miss [OF Cons.prems(1) _ g] have m: "dom (lookup st1) = insert k (dom (lookup st))" "made st1 = Suc (made st)"
      by auto
    have "set (k # ks) - dom (lookup st) = insert k (set ks - dom (lookup st1))"
      "k \<notin> set ks - dom (lookup st1)" using None m(1) by auto
    with st' m(2) g show ?thesis by simp
  next
    case (Some w)
    with hit [OF Cons.prems(1) _ g] have "lookup st1 = lookup st" "made st1 = made st" by auto
    moreover have "set (k # ks) - dom (lookup st) = set ks - dom (lookup st)" using Some by auto
    ultimately show ?thesis using st' g by simp
  qed
qed simp

end

interpretation stubs: get_or_create "\<lambda>sc. True" "\<lambda>sc a. True" "\<lambda>sc. um_find (sc_cache sc)"
  "\<lambda>a sc. Some (get_unique_stub mk a sc)" sc_created for mk
  by unfold_locales (auto simp: get_unique_stub_def Let_def um_find_put split: option.splits)

definition registry_ok :: "'f objects \<Rightarrow> bool" where
  "registry_ok W \<longleftrightarrow> (\<forall>a b. um_find (s_instances W) a = Some b \<longrightarrow> b < length (service_objs W))"

lemma registry_hit:
  assumes "find_service W a = Some b" "GetOrCreate a W = Some (b', W')"
  shows "b' = b \<and> find_service W' = find_service W \<and> length (service_objs W') = length (service_objs W)
    \<and> s_instances W' = s_instances W"
  using assms(2)
proof (cases rule: GetOrCreate_cases)
  case (found n x)
  have "service_at W' b'' = None \<longleftrightarrow> service_at W b'' = None" for b''
    using found(3,4) by (cases "b'' = b'") (auto simp: service_at_def split: if_splits)
  then have "find_service W' = find_service W"
    using found(4) by (intro ext) (simp add: find_service_def split: option.split)
  with found assms(1) show ?thesis by simp
qed (use assms(1) in simp)

lemma registry_miss:
  assumes ok: "registry_ok W" and "find_service W a = None" and get: "GetOrCreate a W = Some (b, W')"
  shows "find_service W' = (find_service W)(a \<mapsto> b) \<and> length (service_objs W') = Suc (length (service_objs W))
    \<and> registry_ok W'"
  using get
proof (cases rule: GetOrCreate_cases)
  case (created n)
  note f = create_service_fields [OF created(1,3)]
  have at: "service_at W' b' = None \<longleftrightarrow> b' \<noteq> b \<and> service_at W b' = None" for b'
    by (auto simp: service_at_def f(1,3) nth_append)
  have "find_service W' a' = ((find_service W)(a \<mapsto> b)) a'" for a'
    using ok by (auto simp: find_service_def f(4) um_find_put at registry_ok_def f(1) split: option.splits)
  moreover have "registry_ok W'"
    using ok by (auto simp: registry_ok_def f(1,3,4) um_find_put less_SucI split: if_splits)
  ultimately show ?thesis by (auto simp: f(3))
qed (use assms(2) in simp)

lemma GetOrCreate_live: "node_at W a' \<noteq> None \<Longrightarrow> GetOrCreate a W = Some (b, W') \<Longrightarrow> node_at W' a' \<noteq> None"
  by (erule GetOrCreate_cases) (auto simp: create_service_fields(2))

interpretation services: get_or_create registry_ok "\<lambda>W a. node_at W a \<noteq> None" find_service GetOrCreate
  "\<lambda>W. length (service_objs W)"
proof unfold_locales
  fix W :: "'f objects" and a
  assume "node_at W a \<noteq> None"
  then show "GetOrCreate a W \<noteq> None" by (auto simp: GetOrCreate_def split: option.splits)
next
  fix W W' :: "'f objects" and a a' b
  assume ok: "registry_ok W" and get: "GetOrCreate a W = Some (b, W')"
  have "registry_ok W'"
    using registry_hit [OF _ get] registry_miss [OF ok _ get] ok
    by (cases "find_service W a") (auto simp: registry_ok_def)
  with GetOrCreate_live [OF _ get]
  show "registry_ok W' \<and> (node_at W a' \<noteq> None \<longrightarrow> node_at W' a' \<noteq> None)" by blast
qed (use registry_hit registry_miss in blast)+


section \<open>Properties\<close>

text \<open>
  A service makes one gRPC stub per address: after any sequence of requests for stubs the
  number of stubs made is the number of different addresses asked for, and asking for an address
  again, whatever was asked in between, returns the stub of the first time.
\<close>

theorem one_stub_per_address:
  "\<exists>sc. gets (\<lambda>a sc. Some (get_unique_stub mk a sc)) addresses new_stub_cache = Some sc
     \<and> sc_created sc = card (set addresses)
     \<and> (\<forall>first rest a. addresses = first @ a # rest \<longrightarrow>
          (\<exists>sc1. gets (\<lambda>a sc. Some (get_unique_stub mk a sc)) first new_stub_cache = Some sc1
             \<and> fst (get_unique_stub mk a sc) = fst (get_unique_stub mk a sc1)))"
proof -
  let ?get = "\<lambda>a sc. Some (get_unique_stub mk a sc)"
  have split: "gets ?get (xs @ ys) st = (case gets ?get xs st of None \<Rightarrow> None | Some st' \<Rightarrow> gets ?get ys st')"
    for xs ys st by (induction xs arbitrary: st) (simp_all split: prod.split)
  have new: "dom (um_find (sc_cache (new_stub_cache :: 'a stub_cache))) = {}" "sc_created new_stub_cache = 0"
    by (simp_all add: new_stub_cache_def)
  obtain sc where sc: "gets ?get addresses new_stub_cache = Some sc" "sc_created sc = card (set addresses)"
    using stubs.gets_total [where st = new_stub_cache and ks = addresses and mk = mk] new by auto
  have "\<exists>sc1. gets ?get first new_stub_cache = Some sc1
      \<and> fst (get_unique_stub mk a sc) = fst (get_unique_stub mk a sc1)"
    if "addresses = first @ a # rest" for first rest a
  proof -
    from sc(1) that obtain sc1 where sc1: "gets ?get first new_stub_cache = Some sc1"
      "gets ?get (a # rest) sc1 = Some sc" by (auto simp: split split: option.splits)
    obtain v st where v: "get_unique_stub mk a sc1 = (v, st)" by fastforce
    obtain v2 st3 where v2: "get_unique_stub mk a sc = (v2, st3)" by fastforce
    from stubs.get_again [of mk a sc1 v st rest sc v2 st3] v v2 sc1 show ?thesis by auto
  qed
  with sc show ?thesis by blast
qed

theorem one_stub_per_address_witness:
  "\<exists>sc. gets (\<lambda>a sc. Some (get_unique_stub Pair a sc)) [''x'', ''y'', ''x''] new_stub_cache = Some sc
     \<and> sc_created sc = 2 \<and> fst (get_unique_stub Pair ''x'' sc) = (''x'', 0)"
proof -
  obtain sc where sc: "gets (\<lambda>a sc. Some (get_unique_stub Pair a sc)) [''x'', ''y'', ''x''] new_stub_cache = Some sc"
    "sc_created sc = card (set [''x'', ''y'', ''x''])"
    "\<forall>first rest a. [''x'', ''y'', ''x''] = first @ a # rest \<longrightarrow>
       (\<exists>sc1. gets (\<lambda>a sc. Some (get_unique_stub Pair a sc)) first new_stub_cache = Some sc1
          \<and> fst (get_unique_stub Pair a sc) = fst (get_unique_stub Pair a sc1))"
    using one_stub_per_address [of Pair "[''x'', ''y'', ''x'']"] by blast
  have "fst (get_unique_stub Pair ''x'' sc) = fst (get_unique_stub Pair ''x'' new_stub_cache)"
    using sc(3) [rule_format, of "[]" "''x''" "[''y'', ''x'']"] by auto
  also have "\<dots> = (''x'', 0)" by (simp add: get_unique_stub_def new_stub_cache_def Let_def)
  finally show ?thesis using sc(1,2) by (auto simp: card_insert_if)
qed

text \<open>
  A node has at most one live service, so at most one server thread: in every program, two
  live services of the same node are the same, and \<open>GetOrCreate\<close> on the node returns it. A new
  service is made only when the node has none.
\<close>

theorem one_service_per_node:
  assumes "objects_reachable W" and "node_at W a \<noteq> None"
  shows "(\<forall>b b' x x'. service_at W b = Some x \<and> service_at W b' = Some x' \<and> so_node x = so_node x' \<longrightarrow> b = b')
    \<and> (\<exists>b W'. GetOrCreate a W = Some (b, W') \<and> find_service W' a = Some b
         \<and> length (service_objs W') =
             (if \<exists>x. service_at W b = Some x \<and> so_node x = a then length (service_objs W)
              else Suc (length (service_objs W))))"
proof -
  have inv: "obj_inv W" by (rule objects_reachable_inv [OF assms(1)])
  have ok: "registry_ok W" using obj_invD(7) [OF inv] by (simp add: registry_ok_def)
  obtain b W' where get: "GetOrCreate a W = Some (b, W')" using services.total [OF assms(2)] by fastforce
  have "length (service_objs W') = (if \<exists>x. service_at W b = Some x \<and> so_node x = a
      then length (service_objs W) else Suc (length (service_objs W)))"
  proof (cases "find_service W a")
    case None
    have "\<not> served W a" by (rule not_served_iff [OF inv None])
    with services.miss [OF ok None get] show ?thesis by (auto simp: served_iff)
  next
    case (Some b0)
    then have "um_find (s_instances W) a = Some b0" "service_at W b0 \<noteq> None"
      by (auto simp: find_service_def split: option.splits if_splits)
    moreover from this obj_invD(7) [OF inv] have "so_node (service_objs W ! b0) = a" by blast
    ultimately have "\<exists>x. service_at W b0 = Some x \<and> so_node x = a" by (auto simp: service_at_Some)
    with services.hit [OF ok Some get] show ?thesis by auto
  qed
  with get services.get_stores(1) [OF ok get] one_service [OF inv] show ?thesis by blast
qed

text \<open>A world with one node that has no service yet.\<close>

lemma sample_objects:
  "objects_reachable (new_node 0 s no_objects)"
  "node_at (new_node 0 s no_objects) 0 = Some \<lparr>no_self = s, no_refs = 1, no_service = None, no_ticker = False\<rparr>"
  "0 \<in> set (node_handles (new_node 0 s no_objects))"
proof -
  have free: "free_address no_objects 0" by (simp add: free_address_def no_objects_def node_at_def)
  show "objects_reachable (new_node 0 s no_objects)" by (rule or_step [OF or_start o_new [OF free]])
  show "node_at (new_node 0 s no_objects) 0 = Some \<lparr>no_self = s, no_refs = 1, no_service = None, no_ticker = False\<rparr>"
    by (simp add: new_node_def node_at_put [OF free])
  show "0 \<in> set (node_handles (new_node 0 s no_objects))" by (simp add: new_node_def)
qed

theorem one_service_per_node_witness:
  "\<exists>b W'. GetOrCreate 0 (new_node 0 (new_RaftNode mem_env [] ''d'' 0) no_objects) = Some (b, W')
     \<and> find_service W' 0 = Some b"
proof -
  note W = sample_objects [of "new_RaftNode mem_env [] ''d'' 0"]
  from W(2) have live: "node_at (new_node 0 (new_RaftNode mem_env [] ''d'' 0) no_objects) 0 \<noteq> None" by simp
  from one_service_per_node [OF W(1) live] show ?thesis by blast
qed

text \<open>
  C15. Dropping a pointer terminates and never touches an object that is gone: the release of a
  held node pointer completes, and the destructor of the node runs exactly when that was the last
  pointer and no live service refers to the node.
\<close>

theorem drop_completes:
  assumes "objects_reachable W" and "a \<in> set (node_handles W)"
  shows "\<exists>W'. release (NodeRef a) W = Some W'
    \<and> (node_at W' a = None \<longleftrightarrow>
         count_list (node_handles W) a = 1 \<and> (\<forall>b x. service_at W b = Some x \<longrightarrow> so_node x \<noteq> a))"
proof -
  have inv: "obj_inv W" by (rule objects_reachable_inv [OF assms(1)])
  from obj_invD(5) [OF inv assms(2)] obtain n where n: "node_at W a = Some n" by blast
  have refs: "no_refs n = count_list (node_handles W) a + of_bool (served W a)" by (rule obj_invD(1) [OF inv n])
  have pos: "0 < count_list (node_handles W) a" by (rule count_pos [OF assms(2)])
  from refs pos have "0 < no_refs n" by simp
  then obtain c where c: "no_refs n = Suc c" using gr0_implies_Suc by blast
  show ?thesis
  proof (cases "0 < c")
    case True
    with n c have "release (NodeRef a) W = Some (write_node a (Some (n\<lparr>no_refs := c\<rparr>)) W)" by (simp add: release.simps)
    with refs c True pos node_at_live [OF n] show ?thesis by (auto simp: served_iff split: if_splits)
  next
    case False
    with refs c pos have un: "\<not> served W a" "count_list (node_handles W) a = 1" by (auto split: if_splits)
    have "no_service n = None"
      using service_of_node_live [OF inv n] un(1) by (cases "no_service n") (auto simp: served_iff)
    with n c False have "release (NodeRef a) W = Some (write_node a None W)" by (simp add: release.simps)
    with un node_at_live [OF n] show ?thesis by (auto simp: served_iff)
  qed
qed

theorem drop_completes_witness:
  "\<exists>W'. release (NodeRef 0) (new_node 0 (new_RaftNode mem_env [] ''d'' 0) no_objects) = Some W'
     \<and> node_at W' 0 = None"
proof -
  note W = sample_objects [of "new_RaftNode mem_env [] ''d'' 0"]
  have "count_list (node_handles (new_node 0 (new_RaftNode mem_env [] ''d'' 0) no_objects)) 0 = 1"
    "\<forall>b x. service_at (new_node 0 (new_RaftNode mem_env [] ''d'' 0) no_objects) b = Some x \<longrightarrow> so_node x \<noteq> 0"
    by (simp_all add: new_node_def no_objects_def service_at_def)
  with drop_completes [OF W(1,3)] show ?thesis by blast
qed

text \<open>
  C14. A node made by \<open>RaftNode::Create\<close> is never destroyed: the node owns its service and the
  service owns the node, so whatever happens to the pointers held outside, also when all are
  dropped, both stay live and the destructor that would call \<open>kill\<close> does not run.
\<close>

theorem created_node_never_freed:
  assumes "objects_reachable W" and "free_address W a"
  shows "\<exists>W1 b. RaftNode_Create E a configs dir i W = Some W1
    \<and> (\<forall>W2. object_step\<^sup>*\<^sup>* W1 W2 \<longrightarrow>
         (\<exists>n x. node_at W2 a = Some n \<and> no_service n = Some b
            \<and> service_at W2 b = Some x \<and> so_node x = a))"
proof -
  obtain b W1 where W1: "RaftNode_Create E a configs dir i W = Some W1" "obj_inv W1" "tied W1 a b"
    using Create_inv [OF objects_reachable_inv [OF assms(1)] assms(2), of E configs dir i] by blast
  have "obj_inv W2 \<and> tied W2 a b" if "object_step\<^sup>*\<^sup>* W1 W2" for W2
    using that by (induction rule: rtranclp_induct)
      (use W1 in \<open>auto intro: object_step_inv object_step_tied\<close>)
  then have "\<exists>n x. node_at W2 a = Some n \<and> no_service n = Some b \<and> service_at W2 b = Some x \<and> so_node x = a"
    if "object_step\<^sup>*\<^sup>* W1 W2" for W2
    using that service_of_node_live [of W2 a _ b]
    by (fastforce simp: tied_def service_ptr_def split: option.splits)
  with W1(1) show ?thesis by blast
qed

theorem created_node_never_freed_witness:
  "\<exists>W1 b. RaftNode_Create mem_env 0 [\<lparr>addr = ''h:1''\<rparr>] ''d'' 0 no_objects = Some W1
     \<and> (\<forall>W2. object_step\<^sup>*\<^sup>* W1 W2 \<longrightarrow> node_at W2 0 \<noteq> None \<and> service_at W2 b \<noteq> None)"
proof -
  have free: "free_address (no_objects :: bytes objects) 0"
    by (simp add: free_address_def no_objects_def node_at_def)
  from created_node_never_freed [OF or_start free, of mem_env "[\<lparr>addr = ''h:1''\<rparr>]" "''d''" 0]
  show ?thesis by fastforce
qed

end
