(* ===== verification/Node_Service.thy ===== *)
theory Node_Service
  imports Prelude
begin

text \<open>
  The node service (\<^verbatim>\<open>src/grpc/node_service_impl.cpp\<close>, \<^verbatim>\<open>src/grpc/grpc_server.cpp\<close>): \<open>Ping\<close> and
  \<open>SendMessage\<close> on the server, and the client function \<open>PingClient\<close>. gRPC is a parameter: \<open>serve\<close>
  tells whether a server can be started on an address, and \<open>deliver\<close> carries a call to the handler
  of the server at an address and brings back its status and reply.
\<close>

section \<open>Data\<close>

datatype grpc_status = StatusOK | StatusError

record Pong = pong_msg :: string

record Message = message_content :: string

record Ack = ack_success :: bool

datatype server_run = Listening string | NullServer

section \<open>Operations\<close>

definition NodeService_Ping :: "Pong \<Rightarrow> grpc_status \<times> Pong" where
  "NodeService_Ping reply = (StatusOK, reply\<lparr>pong_msg := ''pong''\<rparr>)"

text \<open>\<open>SendMessage\<close> writes a line to the standard output.\<close>

definition NodeService_SendMessage :: "Message \<Rightarrow> Ack \<Rightarrow> string \<Rightarrow> grpc_status \<times> Ack \<times> string" where
  "NodeService_SendMessage request reply out =
     (StatusOK, reply\<lparr>ack_success := True\<rparr>,
      out @ ''Received message: '' @ message_content request @ [CHR 0x0A])"

text \<open>
  \<open>RunServer\<close>: the line is written whether or not the server could be started; the call of
  \<open>Wait\<close> on a server that was not started is a call through a null pointer.
\<close>

definition NodeService_RunServer :: "(string \<Rightarrow> bool) \<Rightarrow> string \<Rightarrow> string \<Rightarrow> server_run \<times> string" where
  "NodeService_RunServer serve address out =
     (if serve address then Listening address else NullServer,
      out @ ''Server listening on '' @ address @ [CHR 0x0A])"

definition PingClient :: "(string \<Rightarrow> (Pong \<Rightarrow> grpc_status \<times> Pong) \<Rightarrow> Pong \<Rightarrow> grpc_status \<times> Pong) \<Rightarrow> string \<Rightarrow> string" where
  "PingClient deliver address =
     (let (status, resp) = deliver address NodeService_Ping \<lparr>pong_msg = []\<rparr>
      in if status = StatusOK then ''pong'' else ''error'')"

section \<open>Lemmas\<close>

text \<open>
  A transport that either runs the handler or fails: \<open>PingClient\<close> says \<open>pong\<close> exactly when the
  handler ran, and then the reply it ignores says the same.
\<close>

definition transport :: "(string \<Rightarrow> bool) \<Rightarrow> string \<Rightarrow> (Pong \<Rightarrow> grpc_status \<times> Pong) \<Rightarrow> Pong \<Rightarrow> grpc_status \<times> Pong" where
  "transport reachable address handler reply = (if reachable address then handler reply else (StatusError, reply))"

lemma ping_client_exact:
  "PingClient (transport reachable) address = (if reachable address then ''pong'' else ''error'')"
  "reachable address \<Longrightarrow> pong_msg (snd (transport reachable address NodeService_Ping r)) = ''pong''"
  by (simp_all add: PingClient_def transport_def NodeService_Ping_def)

lemma run_server_reports_always:
  "snd (NodeService_RunServer serve address out) = out @ ''Server listening on '' @ address @ [CHR 0x0A]"
  "fst (NodeService_RunServer serve address out) = NullServer \<longleftrightarrow> \<not> serve address"
  by (simp_all add: NodeService_RunServer_def)

end
