(* ===== verification/Node_Controller.thy ===== *)
theory Node_Controller
  imports Curp_Client
begin

text \<open>
  The node controller of the test library (\<^verbatim>\<open>include/test/node_controller.h\<close>,
  \<^verbatim>\<open>src/test/node_controller.cpp\<close>), which owns masters, witnesses and clients and drives them: the
  composition of the three as the repository's own tests use it. Witnesses are objects of the heap
  \<open>h\<close>; the address of a new one is an argument. A method that blocks on a mutex of a master is the
  error \<open>Deadlock\<close>; it keeps the controller's own mutex, so nothing runs after it.
\<close>

section \<open>Data\<close>

datatype NodeType = MASTER | BACKUP | WITNESS | CLIENT_N

datatype NodeState = RUNNING_N | STOPPED_N | CRASHED_N | RECOVERING_N

record Stats =
  ts_total_ops :: u64
  ts_fast_path_ops :: u64
  ts_slow_path_ops :: u64
  ts_failed_ops :: u64

definition new_Stats :: Stats where
  "new_Stats = \<lparr>ts_total_ops = 0, ts_fast_path_ops = 0, ts_slow_path_ops = 0, ts_failed_ops = 0\<rparr>"

record 'f NodeController =
  nk_masters :: "(u64, 'f CurpMaster) umap"
  nk_witnesses :: "(u64, nat) umap"
  nk_clients :: "(u64, CurpClient) umap"
  nk_node_states :: "(u64, NodeState) umap"
  nk_node_types :: "(u64, NodeType) umap"
  nk_node_stats :: "(u64, Stats) umap"
  nk_witness_bindings :: "(u64, u64) umap"
  nk_log_dirs :: "(u64, string) umap"

definition new_NodeController :: "'f NodeController" where
  "new_NodeController =
     \<lparr>nk_masters = [], nk_witnesses = [], nk_clients = [], nk_node_states = [], nk_node_types = [],
      nk_node_stats = [], nk_witness_bindings = [], nk_log_dirs = []\<rparr>"

section \<open>Nodes\<close>

definition create_master ::
  "'f store_env \<Rightarrow> u64 \<Rightarrow> NodeConfig list \<Rightarrow> string \<Rightarrow> 'f NodeController \<Rightarrow> 'f NodeController" where
  "create_master E node_id configs log_dir k =
     k\<lparr>nk_masters := um_put node_id (new_CurpMaster E configs log_dir (uint node_id)) (nk_masters k),
       nk_node_states := um_put node_id STOPPED_N (nk_node_states k),
       nk_node_types := um_put node_id MASTER (nk_node_types k),
       nk_log_dirs := um_put node_id log_dir (nk_log_dirs k)\<rparr>"

definition create_witness :: "nat \<Rightarrow> u64 \<Rightarrow> 'f NodeController \<Rightarrow> heap \<Rightarrow> 'f NodeController \<times> heap" where
  "create_witness at witness_id k h =
     (k\<lparr>nk_witnesses := um_put witness_id at (nk_witnesses k),
        nk_node_states := um_put witness_id STOPPED_N (nk_node_states k),
        nk_node_types := um_put witness_id WITNESS (nk_node_types k)\<rparr>,
      h(at := new_Witness []))"

definition create_client ::
  "(string \<Rightarrow> nat) \<Rightarrow> u64 \<Rightarrow> CurpClientConfig \<Rightarrow> 'f NodeController \<Rightarrow> 'f NodeController" where
  "create_client connect client_id config k =
     k\<lparr>nk_clients := um_put client_id (new_CurpClient connect config) (nk_clients k),
       nk_node_states := um_put client_id RUNNING_N (nk_node_states k),
       nk_node_types := um_put client_id CLIENT_N (nk_node_types k)\<rparr>"

definition bind_witness_to_master :: "u64 \<Rightarrow> u64 \<Rightarrow> 'f NodeController \<Rightarrow> curp_error + 'f NodeController" where
  "bind_witness_to_master master_id witness_id k =
     (case (um_find (nk_masters k) master_id, um_find (nk_witnesses k) witness_id) of
        (Some m, Some at) \<Rightarrow>
          rbind (set_local_witness (Some at) m) (\<lambda>m'.
            Inr (k\<lparr>nk_masters := um_put master_id m' (nk_masters k),
                   nk_witness_bindings := um_put witness_id master_id (nk_witness_bindings k)\<rparr>))
      | _ \<Rightarrow> Inr k)"

section \<open>Control\<close>

definition start_node :: "u64 \<Rightarrow> 'f NodeController \<Rightarrow> 'f NodeController" where
  "start_node node_id k = k\<lparr>nk_node_states := um_put node_id RUNNING_N (nk_node_states k)\<rparr>"

text \<open>The call of \<open>kill\<close> on a master, if the node is one.\<close>

definition kill_master :: "u64 \<Rightarrow> 'f NodeController \<Rightarrow> 'f NodeController" where
  "kill_master node_id k =
     (case um_find (nk_masters k) node_id of
        None \<Rightarrow> k
      | Some m \<Rightarrow> k\<lparr>nk_masters := um_put node_id (m\<lparr>base := kill (base m)\<rparr>) (nk_masters k)\<rparr>)"

definition stop_node :: "u64 \<Rightarrow> 'f NodeController \<Rightarrow> 'f NodeController" where
  "stop_node node_id k0 =
     (let k = kill_master node_id k0 in k\<lparr>nk_node_states := um_put node_id STOPPED_N (nk_node_states k)\<rparr>)"

definition crash_node :: "u64 \<Rightarrow> 'f NodeController \<Rightarrow> 'f NodeController" where
  "crash_node node_id k0 =
     (let k = kill_master node_id k0 in k\<lparr>nk_node_states := um_put node_id CRASHED_N (nk_node_states k)\<rparr>)"

definition recover_node ::
  "rpc_outcome \<Rightarrow> u64 \<Rightarrow> 'f NodeController \<Rightarrow> heap \<Rightarrow> curp_error + ('f NodeController \<times> heap)" where
  "recover_node out node_id k h =
     (case um_find (nk_node_types k) node_id of
        None \<Rightarrow> Inr (k, h)
      | Some ty \<Rightarrow>
          rbind
            (if ty = MASTER then
               (case um_find (nk_masters k) node_id of
                  None \<Rightarrow> Inr (k, h)
                | Some m \<Rightarrow>
                    rbind (recover out m h) (\<lambda>(m', h').
                      Inr (k\<lparr>nk_masters := um_put node_id m' (nk_masters k)\<rparr>, h')))
             else Inr (k, h))
            (\<lambda>(k1, h1). Inr (k1\<lparr>nk_node_states := um_put node_id RUNNING_N (nk_node_states k1)\<rparr>, h1)))"


section \<open>Operations\<close>

text \<open>The counters after an operation: \<open>operator[]\<close> makes zero counters for a node without any.\<close>

definition count_op :: "bool \<Rightarrow> bool \<Rightarrow> u64 \<Rightarrow> 'f NodeController \<Rightarrow> 'f NodeController" where
  "count_op success fast_path node_id k =
     (let s = (case um_find (nk_node_stats k) node_id of None \<Rightarrow> new_Stats | Some s \<Rightarrow> s);
          s1 = s\<lparr>ts_total_ops := ts_total_ops s + 1\<rparr>;
          s2 = (if success then
                  if fast_path then s1\<lparr>ts_fast_path_ops := ts_fast_path_ops s1 + 1\<rparr>
                  else s1\<lparr>ts_slow_path_ops := ts_slow_path_ops s1 + 1\<rparr>
                else s1\<lparr>ts_failed_ops := ts_failed_ops s1 + 1\<rparr>)
      in k\<lparr>nk_node_stats := um_put node_id s2 (nk_node_stats k)\<rparr>)"

definition controller_client_write ::
  "u64 \<Rightarrow> (nat \<Rightarrow> rpc_outcome) \<Rightarrow> u64 \<Rightarrow> string \<Rightarrow> bytes \<Rightarrow> 'f NodeController \<Rightarrow> heap
    \<Rightarrow> WriteResult \<times> 'f NodeController \<times> heap" where
  "controller_client_write clk outs client_id key value k h =
     (case um_find (nk_clients k) client_id of
        None \<Rightarrow>
          (\<lparr>wres_success = False, wres_fast_path = False, wres_rtt_count = 0, wres_error = ''client not found''\<rparr>, k, h)
      | Some c \<Rightarrow>
          (let (result, c', h') = client_write clk outs c key value h;
               k1 = k\<lparr>nk_clients := um_put client_id c' (nk_clients k)\<rparr>
           in (result, count_op (wres_success result) (wres_fast_path result) client_id k1, h')))"

definition controller_client_read ::
  "u64 \<Rightarrow> string \<Rightarrow> 'f NodeController \<Rightarrow> ReadResponse \<times> 'f NodeController" where
  "controller_client_read client_id key k =
     (case um_find (nk_clients k) client_id of
        None \<Rightarrow> (\<lparr>rd_success = False, rd_value = [], rd_error = ''client not found''\<rparr>, k)
      | Some c \<Rightarrow>
          (let (result, c') = client_read c key
           in (result, k\<lparr>nk_clients := um_put client_id c' (nk_clients k)\<rparr>)))"

definition master_propose ::
  "u64 \<Rightarrow> CurpOp \<Rightarrow> 'f NodeController \<Rightarrow> curp_error + (ProposeResult \<times> 'f NodeController)" where
  "master_propose master_id op k =
     (case um_find (nk_masters k) master_id of
        None \<Rightarrow>
          Inr (\<lparr>pr_success = False, pr_fast_path = False, pr_need_sync = False, pr_error = ''master not found''\<rparr>, k)
      | Some m \<Rightarrow>
          rbind (propose m op) (\<lambda>(result, m').
            let k1 = k\<lparr>nk_masters := um_put master_id m' (nk_masters k)\<rparr>
            in Inr (result, count_op (pr_success result) (pr_fast_path result) master_id k1)))"

section \<open>Queries\<close>



definition controller_unsynced_count :: "u64 \<Rightarrow> 'f NodeController \<Rightarrow> curp_error + nat" where
  "controller_unsynced_count master_id k =
     (case um_find (nk_masters k) master_id of None \<Rightarrow> Inr 0 | Some m \<Rightarrow> unsynced_count m)"

definition get_stats :: "u64 \<Rightarrow> 'f NodeController \<Rightarrow> Stats" where
  "get_stats node_id k =
     (case um_find (nk_node_stats k) node_id of None \<Rightarrow> new_Stats | Some s \<Rightarrow> s)"

section \<open>Runs\<close>

text \<open>What a test does with the controller, and what the threads of the masters do meanwhile.\<close>

inductive controller_step :: "'f NodeController \<times> heap \<Rightarrow> 'f NodeController \<times> heap \<Rightarrow> bool" where
  ct_master: "controller_step (k, h) (create_master E i configs dir k, h)"
| ct_witness: "controller_step (k, h) (create_witness at i k h)"
| ct_client: "controller_step (k, h) (create_client connect i config k, h)"
| ct_bind: "bind_witness_to_master i j k = Inr k' \<Longrightarrow> controller_step (k, h) (k', h)"
| ct_start: "controller_step (k, h) (start_node i k, h)"
| ct_stop: "controller_step (k, h) (stop_node i k, h)"
| ct_crash: "controller_step (k, h) (crash_node i k, h)"
| ct_recover: "recover_node out i k h = Inr (k', h') \<Longrightarrow> controller_step (k, h) (k', h')"
| ct_write: "controller_client_write clk outs i key v k h = (r, k', h') \<Longrightarrow> controller_step (k, h) (k', h')"
| ct_read: "controller_client_read i key k = (r, k') \<Longrightarrow> controller_step (k, h) (k', h)"
| ct_propose: "master_propose i op k = Inr (res, k') \<Longrightarrow> controller_step (k, h) (k', h)"
| ct_background: "um_find (nk_masters k) i = Some m \<Longrightarrow> master_step (m, h) (m', h') \<Longrightarrow>
    controller_step (k, h) (k\<lparr>nk_masters := um_put i m' (nk_masters k)\<rparr>, h')"

definition stats_ok :: "Stats \<Rightarrow> bool" where
  "stats_ok s \<longleftrightarrow> ts_total_ops s = ts_fast_path_ops s + ts_slow_path_ops s + ts_failed_ops s"

definition controller_inv :: "'f NodeController \<Rightarrow> bool" where
  "controller_inv k \<longleftrightarrow>
     (\<forall>i m. um_find (nk_masters k) i = Some m \<longrightarrow> master_inv m)
   \<and> (\<forall>i s. um_find (nk_node_stats k) i = Some s \<longrightarrow> stats_ok s)"

lemma controller_inv_frame [simp]:
  "controller_inv (k\<lparr>nk_node_states := x\<rparr>) = controller_inv k" "controller_inv (k\<lparr>nk_clients := y\<rparr>) = controller_inv k"
  "controller_inv (k\<lparr>nk_witness_bindings := z\<rparr>) = controller_inv k" "controller_inv (k\<lparr>nk_node_types := u\<rparr>) = controller_inv k"
  "controller_inv (k\<lparr>nk_log_dirs := v\<rparr>) = controller_inv k" "controller_inv (k\<lparr>nk_witnesses := w\<rparr>) = controller_inv k"
  by (simp_all add: controller_inv_def)

lemma inv_put_master:
  "controller_inv k \<Longrightarrow> master_inv m \<Longrightarrow> controller_inv (k\<lparr>nk_masters := um_put i m (nk_masters k)\<rparr>)"
  by (simp add: controller_inv_def um_find_put)

lemma inv_count_op: "controller_inv k \<Longrightarrow> controller_inv (count_op ok fast i k)"
  by (auto simp: controller_inv_def count_op_def Let_def um_find_put stats_ok_def new_Stats_def split: option.split)

lemma inv_master: "controller_inv k \<Longrightarrow> um_find (nk_masters k) i = Some m \<Longrightarrow> master_inv m"
  by (simp add: controller_inv_def)

lemma inv_kill [simp]: "master_inv (m\<lparr>base := b\<rparr>) = master_inv m"
  by (simp add: master_inv_def is_executed_def)

lemma inv_kill_master: "controller_inv k \<Longrightarrow> controller_inv (kill_master i k)"
  by (auto simp: kill_master_def inv_put_master inv_master split: option.split)

lemma inv_propose_any:
  assumes "master_inv m"
  shows "\<exists>r m'. propose m op = Inr (r, m') \<and> master_inv m'"
proof (cases "curp_state m = RECOVERING")
  case True
  with assms show ?thesis by (simp add: propose_def)
next
  case False
  with propose_cases [OF assms False, of op] show ?thesis by blast
qed

text \<open>The replay of \<open>recover\<close> keeps the invariant, whichever witness it reads.\<close>

lemma inv_recover:
  assumes "master_inv m" and "recover out m h = Inr (m', h')"
  shows "master_inv m'"
proof -
  let ?m1 = "m\<lparr>curp_state := RECOVERING\<rparr>"
  have inv: "master_inv (fold replay_one rs ?m1)" and free: "\<not> curp_mtx (fold replay_one rs ?m1)" for rs
    using inv_fold_replay [of ?m1 rs] assms(1) master_invD(1) by auto
  have "\<not> curp_mtx ?m1" using master_invD(1) [OF assms(1)] by simp
  then obtain n rs h2 where r: "(case local_witness ?m1 of
       Some a \<Rightarrow> replay_from_local_witness a ?m1 h
     | None \<Rightarrow> (case witness_clients ?m1 of [] \<Rightarrow> Inr (0, ?m1, h) | client # _ \<Rightarrow> replay_from_witness out client ?m1 h))
     = Inr (n, fold replay_one rs ?m1, h2)" by (rule replay_source)
  let ?m2 = "fold replay_one rs ?m1"
  have "m' = ?m2\<lparr>curp_state := NORMAL\<rparr>"
    using assms(2) free [of rs] unfolding recover_def Let_def recover_from_backup_def r
    by (auto simp: lock_curp_def unlock_curp_def do_sync_locked split: if_splits)
  with inv [of rs] show ?thesis by simp
qed

lemma step_controller_inv: "controller_step s s' \<Longrightarrow> controller_inv (fst s) \<Longrightarrow> controller_inv (fst s')"
proof (induction rule: controller_step.induct)
  case (ct_master k h E i configs dir)
  then show ?case by (simp add: create_master_def inv_put_master new_master_inv)
next
  case (ct_bind i j k k' h)
  then show ?case
    using inv_master [of k i]
    by (auto simp: bind_witness_to_master_def set_local_witness_def lock_curp_def unlock_curp_def rbind_Inr_iff
        intro!: inv_put_master split: option.splits if_splits)
next
  case (ct_recover out i k h k' h')
  then show ?case
    using inv_master [of k i] inv_recover
    by (auto simp: recover_node_def rbind_Inr_iff intro!: inv_put_master split: option.splits if_splits)
next
  case (ct_propose i op k r k' h)
  show ?case
  proof (cases "um_find (nk_masters k) i")
    case (Some m)
    with ct_propose.prems have "master_inv m" by (simp add: inv_master)
    from inv_propose_any [OF this, of op] ct_propose Some show ?thesis
      by (auto simp: master_propose_def Let_def intro!: inv_count_op inv_put_master)
  qed (use ct_propose in \<open>auto simp: master_propose_def\<close>)
next
  case (ct_background k i m h m' h')
  then show ?case using step_master_inv [of "(m, h)" "(m', h')"] inv_master [of k i m] by (simp add: inv_put_master)
qed (auto simp: create_witness_def create_client_def start_node_def stop_node_def crash_node_def inv_kill_master Let_def
    controller_client_write_def controller_client_read_def inv_count_op split: option.splits prod.splits)

lemma run_controller_inv:
  assumes "controller_step\<^sup>*\<^sup>* (new_NodeController, h0) (k, h)"
  shows "controller_inv k"
proof -
  have "controller_step\<^sup>*\<^sup>* s s' \<Longrightarrow> controller_inv (fst s) \<Longrightarrow> controller_inv (fst s')" for s s' :: "'a NodeController \<times> heap"
    by (induction rule: rtranclp_induct) (auto dest: step_controller_inv)
  from this [OF assms] show ?thesis by (simp add: controller_inv_def new_NodeController_def)
qed

section \<open>Crashes\<close>




section \<open>Properties\<close>

text \<open>
  C22. In every state a controller reaches, whatever a test does with it and whatever the threads of
  the masters do: the operations counted for a node are its fast, slow and failed ones; every master
  keeps its invariant; and a request, a binding and a query always return.
\<close>

theorem controller_invariant:
  assumes "controller_step\<^sup>*\<^sup>* (new_NodeController, h0) (k, h)"
  shows "ts_total_ops (get_stats i k) =
      ts_fast_path_ops (get_stats i k) + ts_slow_path_ops (get_stats i k) + ts_failed_ops (get_stats i k)
    \<and> (\<forall>m. um_find (nk_masters k) i = Some m \<longrightarrow> master_inv m)
    \<and> (\<exists>r k'. master_propose i op k = Inr (r, k'))
    \<and> (\<exists>k'. bind_witness_to_master i j k = Inr k')
    \<and> (\<exists>n. controller_unsynced_count i k = Inr n)"
proof -
  have inv: "controller_inv k" by (rule run_controller_inv [OF assms])
  have "ts_total_ops (get_stats i k) =
      ts_fast_path_ops (get_stats i k) + ts_slow_path_ops (get_stats i k) + ts_failed_ops (get_stats i k)"
    using inv by (auto simp: get_stats_def controller_inv_def stats_ok_def new_Stats_def split: option.split)
  moreover have "\<exists>r k'. master_propose i op k = Inr (r, k')"
    using inv_propose_any [OF inv_master [OF inv], of i _ op]
    by (auto simp: master_propose_def Let_def split: option.split)
  moreover have "\<exists>k'. bind_witness_to_master i j k = Inr k'" "\<exists>n. controller_unsynced_count i k = Inr n"
    using master_invD(1) [OF inv_master [OF inv], of i]
    by (auto simp: bind_witness_to_master_def controller_unsynced_count_def unsynced_count_def set_local_witness_def
        lock_curp_def split: option.split)
  ultimately show ?thesis using inv_master [OF inv] by blast
qed

text \<open>A test: one master with a witness, and a request that it has executed.\<close>

definition test_setup :: "bytes NodeController" where
  "test_setup =
     (let (k, h) = create_witness 0 100 (create_master mem_env 3 [] ''dir'' new_NodeController) (\<lambda>_. new_Witness [])
      in snd (projr (master_propose 3 (sample_op 1 ''key0'') (projr (bind_witness_to_master 3 100 k)))))"


lemma test_setup_reachable: "controller_step\<^sup>*\<^sup>* (new_NodeController, \<lambda>_. new_Witness []) (test_setup, \<lambda>_. new_Witness [])"
proof -
  let ?h = "\<lambda>_ :: nat. new_Witness []" and ?op = "sample_op 1 ''key0''"
  define k1 :: "bytes NodeController" where "k1 = create_master mem_env 3 [] ''dir'' new_NodeController"
  define k2 where "k2 = fst (create_witness 0 100 k1 ?h)"
  define k3 where "k3 = projr (bind_witness_to_master 3 100 k2)"
  note defs = k1_def k2_def create_witness_def create_master_def new_NodeController_def bind_witness_to_master_def
    set_local_witness_def new_CurpMaster_def lock_curp_def
  have h: "create_witness 0 100 k1 ?h = (k2, ?h)" by (auto simp: k2_def create_witness_def)
  have bind: "bind_witness_to_master 3 100 k2 = Inr k3" unfolding k3_def by (simp add: defs)
  have req: "master_propose 3 ?op k3 = Inr (fst (projr (master_propose 3 ?op k3)), test_setup)"
    unfolding test_setup_def k1_def [symmetric] h prod.case k3_def [symmetric]
    by (simp add: k3_def defs unlock_curp_def master_propose_def propose_def propose_locked_def is_executed_def
        can_speculative_execute_def Let_def)
  have "controller_step (new_NodeController, ?h) (k1, ?h)" unfolding k1_def by (rule ct_master)
  moreover have "controller_step (k1, ?h) (k2, ?h)" using ct_witness [of k1 ?h 0 100] by (simp only: h)
  moreover have "controller_step (k2, ?h) (k3, ?h)" by (rule ct_bind [OF bind])
  moreover have "controller_step (k3, ?h) (test_setup, ?h)" by (rule ct_propose [OF req])
  ultimately show ?thesis by (meson converse_rtranclp_into_rtranclp rtranclp.rtrancl_refl)
qed

theorem controller_invariant_witness:
  "ts_total_ops (get_stats 3 test_setup) =
     ts_fast_path_ops (get_stats 3 test_setup) + ts_slow_path_ops (get_stats 3 test_setup) + ts_failed_ops (get_stats 3 test_setup)
   \<and> (\<exists>r k'. master_propose 3 (sample_op 2 ''key1'') test_setup = Inr (r, k'))"
  using controller_invariant [OF test_setup_reachable, of 3 "sample_op 2 ''key1''" 100] by blast



end
