(* ===== verification/Network_Simulator.thy ===== *)
theory Network_Simulator
  imports Prelude Complex_Main "HOL-Library.Multiset"
begin

text \<open>
  The network simulator of the test library (\<^verbatim>\<open>include/test/network_simulator.h\<close>,
  \<^verbatim>\<open>src/test/network_simulator.cpp\<close>). Messages wait in a \<open>std::priority_queue\<close> ordered by delivery time. The
  standard does not say which of several earliest messages is on top, so the queue is the parameter
  \<open>Q\<close> with the contract \<open>message_queue\<close>; the random engine with its distributions is the parameter \<open>R\<close>. A
  handler is user code: the list of calls it makes on the simulator. Every method takes the
  mutex, which is a flag of the state, and taking it twice on one thread is the error \<open>NetDeadlock\<close>.
  A loop that does not end is \<open>None\<close>. A loss rate is a finite \<open>double\<close>, a real.
\<close>

section \<open>Data\<close>

record SimulatedMessage =
  sm_id :: u64
  sm_from_node :: u64
  sm_to_node :: u64
  sm_data :: bytes
  sm_send_time :: u64
  sm_deliver_time :: u64
  sm_type :: string

record NetworkConfig =
  nc_min_delay_ms :: u64
  nc_max_delay_ms :: u64
  nc_packet_loss_rate :: real
  nc_seed :: u64

definition default_NetworkConfig :: NetworkConfig where
  "default_NetworkConfig = \<lparr>nc_min_delay_ms = 1, nc_max_delay_ms = 50, nc_packet_loss_rate = 0, nc_seed = 42\<rparr>"

record 'q queue_ops =
  q_new :: 'q
  q_empty :: "'q \<Rightarrow> bool"
  q_push :: "SimulatedMessage \<Rightarrow> 'q \<Rightarrow> 'q"
  q_top :: "'q \<Rightarrow> SimulatedMessage"
  q_pop :: "'q \<Rightarrow> 'q"
  q_size :: "'q \<Rightarrow> nat"

text \<open>\<open>r_real\<close> draws from \<open>[0, 1)\<close>, \<open>r_int a b\<close> from \<open>a\<close> to \<open>b\<close>.\<close>

record 'r rng_ops =
  r_seed :: "u64 \<Rightarrow> 'r"
  r_real :: "'r \<Rightarrow> real \<times> 'r"
  r_int :: "u64 \<Rightarrow> u64 \<Rightarrow> 'r \<Rightarrow> u64 \<times> 'r"

datatype net_call =
    Send u64 u64 bytes string
  | RegisterHandler u64 "u64 \<Rightarrow> bytes \<Rightarrow> string \<Rightarrow> net_call list"
  | SetDelay u64 u64 u64 u64
  | SetLossRate real
  | MakePartition "u64 list" "u64 list"
  | Heal
  | Isolate u64
  | Reconnect u64
  | Query
  | ResetNet
  | AdvanceTime u64

type_synonym handler = "u64 \<Rightarrow> bytes \<Rightarrow> string \<Rightarrow> net_call list"

datatype net_error = NetDeadlock | BadRange

record ('q, 'r) NetworkSimulator =
  ns_config :: NetworkConfig
  ns_rng :: 'r
  ns_mtx :: bool
  ns_running :: bool
  ns_worker_thread :: bool
  ns_message_queue :: 'q
  ns_handlers :: "(u64, handler) umap"
  ns_delay_config :: "(u64 \<times> u64, u64 \<times> u64) umap"
  ns_isolated_nodes :: "u64 set"
  ns_partitions :: "(u64 list \<times> u64 list) list"
  ns_next_message_id :: u64
  ns_current_time :: u64
  ns_dropped_count :: u64
  ns_delivered_count :: u64

definition new_NetworkSimulator :: "'q queue_ops \<Rightarrow> 'r rng_ops \<Rightarrow> NetworkConfig \<Rightarrow> ('q, 'r) NetworkSimulator" where
  "new_NetworkSimulator Q R config =
     \<lparr>ns_config = config, ns_rng = r_seed R (nc_seed config), ns_mtx = False, ns_running = False,
      ns_worker_thread = False, ns_message_queue = q_new Q, ns_handlers = [], ns_delay_config = [],
      ns_isolated_nodes = {}, ns_partitions = [], ns_next_message_id = 1, ns_current_time = 0,
      ns_dropped_count = 0, ns_delivered_count = 0\<rparr>"

section \<open>Thread and mutex\<close>

definition net_start :: "('q, 'r) NetworkSimulator \<Rightarrow> ('q, 'r) NetworkSimulator" where
  "net_start s = (if ns_running s then s else s\<lparr>ns_running := True, ns_worker_thread := True\<rparr>)"

definition net_stop :: "('q, 'r) NetworkSimulator \<Rightarrow> ('q, 'r) NetworkSimulator" where
  "net_stop s =
     (if \<not> ns_running s then s
      else let s1 = s\<lparr>ns_running := False\<rparr> in
        if ns_worker_thread s1 then s1\<lparr>ns_worker_thread := False\<rparr> else s1)"

definition net_lock :: "('q, 'r) NetworkSimulator \<Rightarrow> net_error + ('q, 'r) NetworkSimulator" where
  "net_lock s = (if ns_mtx s then Inl NetDeadlock else Inr (s\<lparr>ns_mtx := True\<rparr>))"

definition net_unlock :: "('q, 'r) NetworkSimulator \<Rightarrow> ('q, 'r) NetworkSimulator" where
  "net_unlock s = s\<lparr>ns_mtx := False\<rparr>"

section \<open>Sending\<close>

definition should_drop :: "'r rng_ops \<Rightarrow> u64 \<Rightarrow> u64 \<Rightarrow> ('q, 'r) NetworkSimulator \<Rightarrow> bool \<times> ('q, 'r) NetworkSimulator" where
  "should_drop R from to s =
     (if nc_packet_loss_rate (ns_config s) \<le> 0 then (False, s)
      else let (x, rng) = r_real R (ns_rng s) in (x < nc_packet_loss_rate (ns_config s), s\<lparr>ns_rng := rng\<rparr>))"

text \<open>A distribution whose lower end is above its upper end has no meaning.\<close>

definition draw_delay ::
  "'r rng_ops \<Rightarrow> u64 \<Rightarrow> u64 \<Rightarrow> ('q, 'r) NetworkSimulator \<Rightarrow> net_error + (u64 \<times> ('q, 'r) NetworkSimulator)" where
  "draw_delay R lo hi s =
     (if hi < lo then Inl BadRange
      else let (d, rng) = r_int R lo hi (ns_rng s) in Inr (d, s\<lparr>ns_rng := rng\<rparr>))"

definition get_delay ::
  "'r rng_ops \<Rightarrow> u64 \<Rightarrow> u64 \<Rightarrow> ('q, 'r) NetworkSimulator \<Rightarrow> net_error + (u64 \<times> ('q, 'r) NetworkSimulator)" where
  "get_delay R from to s =
     (case um_find (ns_delay_config s) (from, to) of
        Some (lo, hi) \<Rightarrow> draw_delay R lo hi s
      | None \<Rightarrow> draw_delay R (nc_min_delay_ms (ns_config s)) (nc_max_delay_ms (ns_config s)) s)"

definition crosses :: "u64 \<Rightarrow> u64 \<Rightarrow> u64 list \<times> u64 list \<Rightarrow> bool" where
  "crosses from to p =
     (let in_group1 = from \<in> set (fst p); in_group2 = from \<in> set (snd p);
          to_in_group1 = to \<in> set (fst p); to_in_group2 = to \<in> set (snd p)
      in in_group1 \<and> to_in_group2 \<or> in_group2 \<and> to_in_group1)"

definition can_deliver :: "u64 \<Rightarrow> u64 \<Rightarrow> ('q, 'r) NetworkSimulator \<Rightarrow> bool" where
  "can_deliver from to s =
     (if from \<in> ns_isolated_nodes s \<or> to \<in> ns_isolated_nodes s then False
      else \<not> list_ex (crosses from to) (ns_partitions s))"

definition count_drop :: "('q, 'r) NetworkSimulator \<Rightarrow> ('q, 'r) NetworkSimulator" where
  "count_drop s = s\<lparr>ns_dropped_count := ns_dropped_count s + 1\<rparr>"

definition send_message ::
  "'q queue_ops \<Rightarrow> 'r rng_ops \<Rightarrow> u64 \<Rightarrow> u64 \<Rightarrow> bytes \<Rightarrow> string \<Rightarrow> ('q, 'r) NetworkSimulator
    \<Rightarrow> net_error + ('q, 'r) NetworkSimulator" where
  "send_message Q R from to data type s0 =
     rbind (net_lock s0) (\<lambda>s.
       let (drop, s1) = should_drop R from to s in
       if drop then Inr (net_unlock (count_drop s1))
       else if \<not> can_deliver from to s1 then Inr (net_unlock (count_drop s1))
       else
         let msg_id = ns_next_message_id s1;
             s2 = s1\<lparr>ns_next_message_id := ns_next_message_id s1 + 1\<rparr>
         in rbind (get_delay R from to s2) (\<lambda>(delay, s3).
           let msg = \<lparr>sm_id = msg_id, sm_from_node = from, sm_to_node = to, sm_data = data,
                      sm_send_time = ns_current_time s3, sm_deliver_time = ns_current_time s3 + delay,
                      sm_type = type\<rparr>
           in Inr (net_unlock (s3\<lparr>ns_message_queue := q_push Q msg (ns_message_queue s3)\<rparr>))))"

section \<open>Configuration\<close>

definition register_handler ::
  "u64 \<Rightarrow> handler \<Rightarrow> ('q, 'r) NetworkSimulator \<Rightarrow> net_error + ('q, 'r) NetworkSimulator" where
  "register_handler node hdl s =
     rbind (net_lock s) (\<lambda>s1. Inr (net_unlock (s1\<lparr>ns_handlers := um_put node hdl (ns_handlers s1)\<rparr>)))"

definition set_delay ::
  "u64 \<Rightarrow> u64 \<Rightarrow> u64 \<Rightarrow> u64 \<Rightarrow> ('q, 'r) NetworkSimulator \<Rightarrow> net_error + ('q, 'r) NetworkSimulator" where
  "set_delay from to lo hi s =
     rbind (net_lock s) (\<lambda>s1.
       Inr (net_unlock (s1\<lparr>ns_delay_config := um_put (from, to) (lo, hi) (ns_delay_config s1)\<rparr>)))"

definition set_packet_loss_rate ::
  "real \<Rightarrow> ('q, 'r) NetworkSimulator \<Rightarrow> net_error + ('q, 'r) NetworkSimulator" where
  "set_packet_loss_rate rate s =
     rbind (net_lock s) (\<lambda>s1.
       Inr (net_unlock (s1\<lparr>ns_config := (ns_config s1)\<lparr>nc_packet_loss_rate := rate\<rparr>\<rparr>)))"

definition make_partition ::
  "u64 list \<Rightarrow> u64 list \<Rightarrow> ('q, 'r) NetworkSimulator \<Rightarrow> net_error + ('q, 'r) NetworkSimulator" where
  "make_partition group1 group2 s =
     rbind (net_lock s) (\<lambda>s1.
       Inr (net_unlock (s1\<lparr>ns_partitions := ns_partitions s1 @ [(group1, group2)]\<rparr>)))"

definition net_heal :: "('q, 'r) NetworkSimulator \<Rightarrow> net_error + ('q, 'r) NetworkSimulator" where
  "net_heal s =
     rbind (net_lock s) (\<lambda>s1. Inr (net_unlock (s1\<lparr>ns_partitions := [], ns_isolated_nodes := {}\<rparr>)))"

definition isolate_node :: "u64 \<Rightarrow> ('q, 'r) NetworkSimulator \<Rightarrow> net_error + ('q, 'r) NetworkSimulator" where
  "isolate_node node s =
     rbind (net_lock s) (\<lambda>s1.
       Inr (net_unlock (s1\<lparr>ns_isolated_nodes := insert node (ns_isolated_nodes s1)\<rparr>)))"

definition reconnect_node :: "u64 \<Rightarrow> ('q, 'r) NetworkSimulator \<Rightarrow> net_error + ('q, 'r) NetworkSimulator" where
  "reconnect_node node s =
     rbind (net_lock s) (\<lambda>s1.
       Inr (net_unlock (s1\<lparr>ns_isolated_nodes := ns_isolated_nodes s1 - {node}\<rparr>)))"

definition advance_time :: "u64 \<Rightarrow> ('q, 'r) NetworkSimulator \<Rightarrow> net_error + ('q, 'r) NetworkSimulator" where
  "advance_time ms s =
     rbind (net_lock s) (\<lambda>s1. Inr (net_unlock (s1\<lparr>ns_current_time := ns_current_time s1 + ms\<rparr>)))"

text \<open>The four queries.\<close>

definition current_time :: "('q, 'r) NetworkSimulator \<Rightarrow> net_error + u64" where
  "current_time s = rbind (net_lock s) (\<lambda>s1. Inr (ns_current_time s1))"

definition pending_messages :: "'q queue_ops \<Rightarrow> ('q, 'r) NetworkSimulator \<Rightarrow> net_error + nat" where
  "pending_messages Q s = rbind (net_lock s) (\<lambda>s1. Inr (q_size Q (ns_message_queue s1)))"

definition dropped_messages :: "('q, 'r) NetworkSimulator \<Rightarrow> net_error + u64" where
  "dropped_messages s = rbind (net_lock s) (\<lambda>s1. Inr (ns_dropped_count s1))"

definition delivered_messages :: "('q, 'r) NetworkSimulator \<Rightarrow> net_error + u64" where
  "delivered_messages s = rbind (net_lock s) (\<lambda>s1. Inr (ns_delivered_count s1))"

partial_function (option) clear_queue :: "'q queue_ops \<Rightarrow> 'q \<Rightarrow> 'q option" where
  "clear_queue Q q = (if q_empty Q q then Some q else clear_queue Q (q_pop Q q))"

definition net_reset ::
  "'q queue_ops \<Rightarrow> ('q, 'r) NetworkSimulator \<Rightarrow> (net_error + ('q, 'r) NetworkSimulator) option" where
  "net_reset Q s =
     (case net_lock s of
        Inl err \<Rightarrow> Some (Inl err)
      | Inr s1 \<Rightarrow>
          (case clear_queue Q (ns_message_queue s1) of
             None \<Rightarrow> None
           | Some q \<Rightarrow> Some (Inr (net_unlock (s1\<lparr>ns_message_queue := q, ns_isolated_nodes := {}, ns_partitions := [],
               ns_delay_config := [], ns_dropped_count := 0, ns_delivered_count := 0, ns_current_time := 0\<rparr>)))))"

section \<open>The worker\<close>

primrec net_do ::
  "'q queue_ops \<Rightarrow> 'r rng_ops \<Rightarrow> net_call \<Rightarrow> ('q, 'r) NetworkSimulator
    \<Rightarrow> (net_error + ('q, 'r) NetworkSimulator) option" where
  "net_do Q R (Send from to data type) s = Some (send_message Q R from to data type s)"
| "net_do Q R (RegisterHandler node hdl) s = Some (register_handler node hdl s)"
| "net_do Q R (SetDelay from to lo hi) s = Some (set_delay from to lo hi s)"
| "net_do Q R (SetLossRate rate) s = Some (set_packet_loss_rate rate s)"
| "net_do Q R (MakePartition g1 g2) s = Some (make_partition g1 g2 s)"
| "net_do Q R Heal s = Some (net_heal s)"
| "net_do Q R (Isolate node) s = Some (isolate_node node s)"
| "net_do Q R (Reconnect node) s = Some (reconnect_node node s)"
| "net_do Q R Query s = Some (rbind (current_time s) (\<lambda>_. Inr s))"
| "net_do Q R ResetNet s = net_reset Q s"
| "net_do Q R (AdvanceTime ms) s = Some (advance_time ms s)"

text \<open>What a handler does, in order.\<close>

fun run_calls ::
  "'q queue_ops \<Rightarrow> 'r rng_ops \<Rightarrow> net_call list \<Rightarrow> ('q, 'r) NetworkSimulator
    \<Rightarrow> (net_error + ('q, 'r) NetworkSimulator) option" where
  "run_calls Q R [] s = Some (Inr s)"
| "run_calls Q R (c # cs) s =
     (case net_do Q R c s of
        None \<Rightarrow> None
      | Some (Inl err) \<Rightarrow> Some (Inl err)
      | Some (Inr s') \<Rightarrow> run_calls Q R cs s')"

text \<open>
  The inner loop of \<open>worker_loop\<close>; \<open>ds\<close> are the messages taken from the queue so far, each with whether a
  handler got it.
\<close>

partial_function (option) drain ::
  "'q queue_ops \<Rightarrow> 'r rng_ops \<Rightarrow> ('q, 'r) NetworkSimulator \<Rightarrow> (SimulatedMessage \<times> bool) list
    \<Rightarrow> (net_error + (('q, 'r) NetworkSimulator \<times> (SimulatedMessage \<times> bool) list)) option" where
  "drain Q R s ds =
     (if q_empty Q (ns_message_queue s) then Some (Inr (s, ds))
      else
        let msg = q_top Q (ns_message_queue s) in
        if sm_deliver_time msg \<le> ns_current_time s then
          let s1 = s\<lparr>ns_message_queue := q_pop Q (ns_message_queue s)\<rparr> in
          (case um_find (ns_handlers s1) (sm_to_node msg) of
             None \<Rightarrow> drain Q R s1 (ds @ [(msg, False)])
           | Some hdl \<Rightarrow>
               (case run_calls Q R (hdl (sm_from_node msg) (sm_data msg) (sm_type msg)) s1 of
                  None \<Rightarrow> None
                | Some (Inl err) \<Rightarrow> Some (Inl err)
                | Some (Inr s2) \<Rightarrow>
                    drain Q R (s2\<lparr>ns_delivered_count := ns_delivered_count s2 + 1\<rparr>) (ds @ [(msg, True)])))
        else Some (Inr (s, ds)))"

definition worker_round ::
  "'q queue_ops \<Rightarrow> 'r rng_ops \<Rightarrow> ('q, 'r) NetworkSimulator
    \<Rightarrow> (net_error + (('q, 'r) NetworkSimulator \<times> (SimulatedMessage \<times> bool) list)) option" where
  "worker_round Q R s =
     (case net_lock s of
        Inl err \<Rightarrow> Some (Inl err)
      | Inr s1 \<Rightarrow>
          (case drain Q R (s1\<lparr>ns_current_time := ns_current_time s1 + 1\<rparr>) [] of
             None \<Rightarrow> None
           | Some (Inl err) \<Rightarrow> Some (Inl err)
           | Some (Inr (s2, ds)) \<Rightarrow> Some (Inr (net_unlock s2, ds))))"

section \<open>Runs\<close>

text \<open>A run: calls from outside and rounds of the worker, with all messages taken from the queue.\<close>

datatype net_event = Call net_call | Tick

fun net_run ::
  "'q queue_ops \<Rightarrow> 'r rng_ops \<Rightarrow> net_event list \<Rightarrow> ('q, 'r) NetworkSimulator
    \<Rightarrow> (net_error + (('q, 'r) NetworkSimulator \<times> (SimulatedMessage \<times> bool) list)) option" where
  "net_run Q R [] s = Some (Inr (s, []))"
| "net_run Q R (Call c # es) s =
     (case net_do Q R c s of
        None \<Rightarrow> None
      | Some (Inl err) \<Rightarrow> Some (Inl err)
      | Some (Inr s') \<Rightarrow> net_run Q R es s')"
| "net_run Q R (Tick # es) s =
     (case worker_round Q R s of
        None \<Rightarrow> None
      | Some (Inl err) \<Rightarrow> Some (Inl err)
      | Some (Inr (s', ds)) \<Rightarrow>
          (case net_run Q R es s' of
             None \<Rightarrow> None
           | Some (Inl err) \<Rightarrow> Some (Inl err)
           | Some (Inr (s'', ds')) \<Rightarrow> Some (Inr (s'', ds @ ds'))))"

fun is_send :: "net_event \<Rightarrow> bool" where
  "is_send (Call (Send from to data type)) = True"
| "is_send e = False"

section \<open>The contract of the queue\<close>

text \<open>Handlers that make no call on the simulator, and messages whose time has come.\<close>

definition calls_back :: "('q, 'r) NetworkSimulator \<Rightarrow> SimulatedMessage \<Rightarrow> bool" where
  "calls_back s m \<longleftrightarrow>
     (case um_find (ns_handlers s) (sm_to_node m) of
        None \<Rightarrow> False
      | Some hdl \<Rightarrow> hdl (sm_from_node m) (sm_data m) (sm_type m) \<noteq> [])"

abbreviation is_due :: "u64 \<Rightarrow> SimulatedMessage \<Rightarrow> bool" where
  "is_due now m \<equiv> sm_deliver_time m \<le> now"

text \<open>Every method that takes the mutex blocks while the worker has it.\<close>

lemma net_do_locked: "ns_mtx s \<Longrightarrow> net_do Q R c s = Some (Inl NetDeadlock)"
  by (cases c)
    (simp_all add: net_lock_def send_message_def register_handler_def set_delay_def set_packet_loss_rate_def
      make_partition_def net_heal_def isolate_node_def reconnect_node_def current_time_def net_reset_def advance_time_def)

lemma run_calls_locked:
  "ns_mtx s \<Longrightarrow> run_calls Q R cs s = (if cs = [] then Some (Inr s) else Some (Inl NetDeadlock))"
  by (cases cs) (simp_all add: net_do_locked)

lemma should_drop_frame: "should_drop R a b s = (x, s') \<Longrightarrow> s' = s\<lparr>ns_rng := ns_rng s'\<rparr>"
  by (auto simp: should_drop_def split: if_splits prod.splits)

lemma get_delay_frame: "get_delay R a b s = Inr (d, s') \<Longrightarrow> s' = s\<lparr>ns_rng := ns_rng s'\<rparr>"
  by (auto simp: get_delay_def draw_delay_def split: if_splits prod.splits option.splits)

locale message_queue =
  fixes Q :: "'q queue_ops" and good :: "'q \<Rightarrow> bool" and msgs :: "'q \<Rightarrow> SimulatedMessage multiset"
  assumes new_queue: "good (q_new Q)" "msgs (q_new Q) = {#}"
    and empty_queue: "good q \<Longrightarrow> q_empty Q q \<longleftrightarrow> msgs q = {#}"
    and push_queue: "good q \<Longrightarrow> good (q_push Q m q)" "good q \<Longrightarrow> msgs (q_push Q m q) = add_mset m (msgs q)"
    and top_queue: "good q \<Longrightarrow> msgs q \<noteq> {#} \<Longrightarrow> q_top Q q \<in># msgs q"
      "good q \<Longrightarrow> m \<in># msgs q \<Longrightarrow> sm_deliver_time (q_top Q q) \<le> sm_deliver_time m"
    and pop_queue: "good q \<Longrightarrow> msgs q \<noteq> {#} \<Longrightarrow> good (q_pop Q q)"
      "good q \<Longrightarrow> msgs q \<noteq> {#} \<Longrightarrow> msgs (q_pop Q q) = msgs q - {#q_top Q q#}"
    and size_queue: "good q \<Longrightarrow> q_size Q q = size (msgs q)"
begin

lemma clear_queue_empties:
  assumes "good q"
  shows "\<exists>q'. clear_queue Q q = Some q' \<and> good q' \<and> msgs q' = {#}"
  using assms
proof (induction "size (msgs q)" arbitrary: q)
  case 0
  then show ?case by (subst clear_queue.simps) (simp add: empty_queue)
next
  case (Suc n)
  then have ne: "msgs q \<noteq> {#}" by auto
  have "size (msgs (q_pop Q q)) = n"
    using Suc.hyps(2) Suc.prems ne top_queue(1) [of q] by (simp add: pop_queue size_Diff_singleton)
  from Suc.hyps(1) [OF this [symmetric]] Suc.prems ne show ?case
    by (subst clear_queue.simps) (simp add: empty_queue pop_queue)
qed

text \<open>Splitting the earliest message off the messages that are due.\<close>

lemma due_split:
  assumes "good q" and "msgs q \<noteq> {#}" and "is_due now (q_top Q q)"
  shows "filter_mset (is_due now) (msgs q) = add_mset (q_top Q q) (filter_mset (is_due now) (msgs (q_pop Q q)))"
    and "filter_mset (\<lambda>m. \<not> is_due now m) (msgs q) = filter_mset (\<lambda>m. \<not> is_due now m) (msgs (q_pop Q q))"
proof -
  have "msgs q = add_mset (q_top Q q) (msgs (q_pop Q q))"
    using assms(1,2) top_queue(1) [of q] by (simp add: pop_queue)
  with assms(3) show "filter_mset (is_due now) (msgs q) = add_mset (q_top Q q) (filter_mset (is_due now) (msgs (q_pop Q q)))"
    "filter_mset (\<lambda>m. \<not> is_due now m) (msgs q) = filter_mset (\<lambda>m. \<not> is_due now m) (msgs (q_pop Q q))"
    by simp_all
qed

lemma due_none:
  assumes "good q" and "q_empty Q q \<or> \<not> is_due now (q_top Q q)"
  shows "filter_mset (is_due now) (msgs q) = {#}" and "filter_mset (\<lambda>m. \<not> is_due now m) (msgs q) = msgs q"
proof -
  have late: "is_due now m \<longleftrightarrow> False" if "m \<in># msgs q" for m
    using assms top_queue(2) [OF assms(1) that] that empty_queue [OF assms(1)] by auto
  have "filter_mset (is_due now) (msgs q) = filter_mset (\<lambda>_. False) (msgs q)"
    by (rule filter_mset_cong) (use late in simp_all)
  then show "filter_mset (is_due now) (msgs q) = {#}" by simp
  have "filter_mset (\<lambda>m. \<not> is_due now m) (msgs q) = filter_mset (\<lambda>_. True) (msgs q)"
    by (rule filter_mset_cong) (use late in simp_all)
  then show "filter_mset (\<lambda>m. \<not> is_due now m) (msgs q) = msgs q" by simp
qed

lemma drain_blocks:
  assumes "good (ns_message_queue s)" and "ns_mtx s"
    and "\<exists>m \<in># msgs (ns_message_queue s). is_due (ns_current_time s) m \<and> calls_back s m"
  shows "drain Q R s ds = Some (Inl NetDeadlock)"
  using assms
proof (induction "size (msgs (ns_message_queue s))" arbitrary: s ds)
  case (Suc n)
  let ?q = "ns_message_queue s"
  have ne: "msgs ?q \<noteq> {#}" using Suc.prems(3) by auto
  let ?top = "q_top Q ?q" and ?s1 = "s\<lparr>ns_message_queue := q_pop Q ?q\<rparr>"
  have due: "is_due (ns_current_time s) ?top"
    using Suc.prems(1,3) top_queue(2) [of ?q] by (meson order_trans)
  have split: "msgs ?q = add_mset ?top (msgs (q_pop Q ?q))"
    using Suc.prems(1) ne top_queue(1) [of ?q] by (simp add: pop_queue)
  have size: "n = size (msgs (q_pop Q ?q))" using Suc.hyps(2) split by simp
  have good: "good (q_pop Q ?q)" using Suc.prems(1) ne by (rule pop_queue)
  show ?case
  proof (cases "calls_back s ?top")
    case True
    then show ?thesis using Suc.prems(1,2) ne due
      by (subst drain.simps) (auto simp: empty_queue calls_back_def run_calls_locked split: option.splits)
  next
    case False
    then have rest: "\<exists>m \<in># msgs (q_pop Q ?q). is_due (ns_current_time s) m \<and> calls_back s m"
      using Suc.prems(3) by (subst (asm) split) auto
    have IH: "drain Q R (?s1\<lparr>ns_delivered_count := k\<rparr>) ds' = Some (Inl NetDeadlock)" for k ds'
      by (rule Suc.hyps(1)) (use size good Suc.prems(2) rest in \<open>simp_all add: calls_back_def\<close>)
    from IH [of "ns_delivered_count s"] have "drain Q R ?s1 ds' = Some (Inl NetDeadlock)" for ds' by simp
    with IH False Suc.prems(1,2) ne due show ?thesis
      by (subst drain.simps) (auto simp: empty_queue calls_back_def run_calls_locked Let_def split: option.splits)
  qed
qed auto

lemma drain_delivers:
  assumes "good (ns_message_queue s)" and "ns_mtx s"
    and "\<forall>m \<in># msgs (ns_message_queue s). is_due (ns_current_time s) m \<longrightarrow> \<not> calls_back s m"
  shows "\<exists>q ds'. drain Q R s ds =
      Some (Inr (s\<lparr>ns_message_queue := q,
        ns_delivered_count := ns_delivered_count s + of_nat (length (filter snd ds'))\<rparr>, ds @ ds'))
    \<and> good q \<and> msgs q = filter_mset (\<lambda>m. \<not> is_due (ns_current_time s) m) (msgs (ns_message_queue s))
    \<and> mset (map fst ds') = filter_mset (is_due (ns_current_time s)) (msgs (ns_message_queue s))
    \<and> sorted (map (sm_deliver_time \<circ> fst) ds')
    \<and> (\<forall>(m, handled) \<in> set ds'. handled \<longleftrightarrow> um_find (ns_handlers s) (sm_to_node m) \<noteq> None)"
  using assms
proof (induction "size (msgs (ns_message_queue s))" arbitrary: s ds rule: less_induct)
  case less
  let ?q = "ns_message_queue s" and ?now = "ns_current_time s"
  let ?top = "q_top Q ?q" and ?s1 = "s\<lparr>ns_message_queue := q_pop Q ?q\<rparr>"
  show ?case
  proof (cases "q_empty Q ?q \<or> \<not> is_due ?now ?top")
    case True
    then have "drain Q R s ds = Some (Inr (s, ds))" by (subst drain.simps) auto
    with less.prems(1) due_none [OF less.prems(1) True]
    show ?thesis by (intro exI [of _ ?q] exI [of _ "[]"]) simp
  next
    case False
    then have ne: "msgs ?q \<noteq> {#}" and due: "is_due ?now ?top" using less.prems(1) by (simp_all add: empty_queue)
    note split = due_split [OF less.prems(1) ne due]
    have top: "?top \<in># msgs ?q" using less.prems(1) ne by (rule top_queue)
    have pop: "msgs (q_pop Q ?q) = msgs ?q - {#?top#}" "good (q_pop Q ?q)" using less.prems(1) ne by (simp_all add: pop_queue)
    have size: "size (msgs (q_pop Q ?q)) < size (msgs ?q)" using top pop by (simp add: size_Diff1_less)
    let ?handled = "um_find (ns_handlers s) (sm_to_node ?top) \<noteq> None"
    let ?s2 = "?s1\<lparr>ns_delivered_count := ns_delivered_count s + (if ?handled then 1 else 0)\<rparr>"
    have silent: "\<forall>m \<in># msgs (q_pop Q ?q). is_due ?now m \<longrightarrow> \<not> calls_back ?s2 m"
      using less.prems(3) pop(1) by (auto simp: calls_back_def dest: in_diffD)
    have step: "drain Q R s ds = drain Q R ?s2 (ds @ [(?top, ?handled)])"
      using False less.prems(2) bspec [OF less.prems(3) top] due
      by (subst drain.simps) (auto simp: calls_back_def run_calls_locked Let_def split: option.splits)
    from less.hyps [of ?s2 "ds @ [(?top, ?handled)]"] size pop(2) less.prems(2) silent
    obtain q ds' where IH: "drain Q R ?s2 (ds @ [(?top, ?handled)]) =
        Some (Inr (?s2\<lparr>ns_message_queue := q,
          ns_delivered_count := ns_delivered_count ?s2 + of_nat (length (filter snd ds'))\<rparr>, (ds @ [(?top, ?handled)]) @ ds'))"
      "good q" "msgs q = filter_mset (\<lambda>m. \<not> is_due ?now m) (msgs (q_pop Q ?q))"
      "mset (map fst ds') = filter_mset (is_due ?now) (msgs (q_pop Q ?q))"
      "sorted (map (sm_deliver_time \<circ> fst) ds')"
      "\<forall>(m, handled) \<in> set ds'. handled \<longleftrightarrow> um_find (ns_handlers s) (sm_to_node m) \<noteq> None"
      by auto
    have first: "sm_deliver_time ?top \<le> sm_deliver_time (fst d)" if "d \<in> set ds'" for d
    proof -
      from that have "fst d \<in># mset (map fst ds')" by simp
      then have "fst d \<in># msgs ?q" unfolding IH(4) pop(1) by (auto dest: in_diffD)
      then show ?thesis by (rule top_queue(2) [OF less.prems(1)])
    qed
    show ?thesis
      unfolding step IH(1) split using IH(2-6) first
      by (intro exI [of _ q] exI [of _ "(?top, ?handled) # ds'"]) (auto simp: add.assoc)
  qed
qed

lemma worker_round_blocks:
  assumes "good (ns_message_queue s)" and "\<not> ns_mtx s"
    and "\<exists>m \<in># msgs (ns_message_queue s). is_due (ns_current_time s + 1) m \<and> calls_back s m"
  shows "worker_round Q R s = Some (Inl NetDeadlock)"
proof -
  let ?s = "s\<lparr>ns_mtx := True, ns_current_time := ns_current_time s + 1\<rparr>"
  have "drain Q R ?s [] = Some (Inl NetDeadlock)"
    by (rule drain_blocks) (use assms in \<open>simp_all add: calls_back_def\<close>)
  then show ?thesis using assms(2) by (simp add: worker_round_def net_lock_def)
qed

lemma worker_round_delivers:
  assumes "good (ns_message_queue s)" and "\<not> ns_mtx s"
    and "\<forall>m \<in># msgs (ns_message_queue s). is_due (ns_current_time s + 1) m \<longrightarrow> \<not> calls_back s m"
  shows "\<exists>q ds. worker_round Q R s =
      Some (Inr (s\<lparr>ns_current_time := ns_current_time s + 1, ns_message_queue := q,
        ns_delivered_count := ns_delivered_count s + of_nat (length (filter snd ds))\<rparr>, ds))
    \<and> good q \<and> msgs q = filter_mset (\<lambda>m. \<not> is_due (ns_current_time s + 1) m) (msgs (ns_message_queue s))
    \<and> mset (map fst ds) = filter_mset (is_due (ns_current_time s + 1)) (msgs (ns_message_queue s))
    \<and> sorted (map (sm_deliver_time \<circ> fst) ds)
    \<and> (\<forall>(m, handled) \<in> set ds. handled \<longleftrightarrow> um_find (ns_handlers s) (sm_to_node m) \<noteq> None)"
proof -
  let ?s = "s\<lparr>ns_mtx := True, ns_current_time := ns_current_time s + 1\<rparr>"
  have "\<forall>m \<in># msgs (ns_message_queue ?s). is_due (ns_current_time ?s) m \<longrightarrow> \<not> calls_back ?s m"
    using assms(3) by (simp add: calls_back_def)
  from drain_delivers [OF _ _ this, of R "[]"] assms(1)
  obtain q ds where "drain Q R ?s [] = Some (Inr (?s\<lparr>ns_message_queue := q,
        ns_delivered_count := ns_delivered_count s + of_nat (length (filter snd ds))\<rparr>, ds))"
    "good q" "msgs q = filter_mset (\<lambda>m. \<not> is_due (ns_current_time s + 1) m) (msgs (ns_message_queue s))"
    "mset (map fst ds) = filter_mset (is_due (ns_current_time s + 1)) (msgs (ns_message_queue s))"
    "sorted (map (sm_deliver_time \<circ> fst) ds)"
    "\<forall>(m, handled) \<in> set ds. handled \<longleftrightarrow> um_find (ns_handlers s) (sm_to_node m) \<noteq> None" by auto
  then show ?thesis using assms(2)
    by (intro exI [of _ q] exI [of _ ds]) (simp add: worker_round_def net_lock_def net_unlock_def)
qed

text \<open>What a round and a call do to the messages and the counters.\<close>

lemma round_effect:
  assumes "good (ns_message_queue s)" and "worker_round Q R s = Some (Inr (s', ds))"
  shows "good (ns_message_queue s')" and "ns_partitions s' = ns_partitions s"
    and "ns_dropped_count s' = ns_dropped_count s"
    and "ns_delivered_count s' = ns_delivered_count s + of_nat (length (filter snd ds))"
    and "msgs (ns_message_queue s) = mset (map fst ds) + msgs (ns_message_queue s')"
proof -
  have free: "\<not> ns_mtx s" using assms(2) by (auto simp: worker_round_def net_lock_def split: if_splits)
  have "\<forall>m \<in># msgs (ns_message_queue s). is_due (ns_current_time s + 1) m \<longrightarrow> \<not> calls_back s m"
    using worker_round_blocks [OF assms(1) free, of R] assms(2) by auto
  from worker_round_delivers [OF assms(1) free this, of R] assms(2)
  show "good (ns_message_queue s')" "ns_partitions s' = ns_partitions s" "ns_dropped_count s' = ns_dropped_count s"
    "ns_delivered_count s' = ns_delivered_count s + of_nat (length (filter snd ds))"
    "msgs (ns_message_queue s) = mset (map fst ds) + msgs (ns_message_queue s')"
    by (auto simp: multiset_partition [symmetric])
qed

lemma send_effect:
  assumes "send_message Q R from to data type s = Inr s'"
  shows "ns_partitions s' = ns_partitions s \<and> ns_delivered_count s' = ns_delivered_count s \<and>
    (ns_message_queue s' = ns_message_queue s \<and> ns_dropped_count s' = ns_dropped_count s + 1 \<or>
     ns_dropped_count s' = ns_dropped_count s \<and> can_deliver from to s \<and>
     (\<exists>m. sm_from_node m = from \<and> sm_to_node m = to \<and> ns_message_queue s' = q_push Q m (ns_message_queue s)))"
proof -
  define s0 where "s0 = s\<lparr>ns_mtx := True\<rparr>"
  obtain drop s1 where d: "should_drop R from to s0 = (drop, s1)" by fastforce
  have s1: "s1 = s0\<lparr>ns_rng := ns_rng s1\<rparr>" by (rule should_drop_frame [OF d])
  have run: "(if drop \<or> \<not> can_deliver from to s1 then Inr (net_unlock (count_drop s1))
      else rbind (get_delay R from to (s1\<lparr>ns_next_message_id := ns_next_message_id s1 + 1\<rparr>)) (\<lambda>(delay, s3).
        Inr (net_unlock (s3\<lparr>ns_message_queue := q_push Q
          \<lparr>sm_id = ns_next_message_id s1, sm_from_node = from, sm_to_node = to, sm_data = data,
           sm_send_time = ns_current_time s3, sm_deliver_time = ns_current_time s3 + delay, sm_type = type\<rparr>
          (ns_message_queue s3)\<rparr>)))) = Inr s'"
    using assms d by (auto simp: send_message_def net_lock_def s0_def Let_def split: if_splits)
  show ?thesis
  proof (cases "drop \<or> \<not> can_deliver from to s1")
    case True
    with run have "s' = net_unlock (count_drop s1)" by simp
    moreover have "ns_partitions s1 = ns_partitions s" "ns_delivered_count s1 = ns_delivered_count s"
      "ns_dropped_count s1 = ns_dropped_count s" "ns_message_queue s1 = ns_message_queue s"
      by (subst s1, simp add: s0_def)+
    ultimately show ?thesis by (simp add: net_unlock_def count_drop_def)
  next
    case False
    with run obtain delay s3 where g: "get_delay R from to (s1\<lparr>ns_next_message_id := ns_next_message_id s1 + 1\<rparr>) = Inr (delay, s3)"
      and s': "s' = net_unlock (s3\<lparr>ns_message_queue := q_push Q
          \<lparr>sm_id = ns_next_message_id s1, sm_from_node = from, sm_to_node = to, sm_data = data,
           sm_send_time = ns_current_time s3, sm_deliver_time = ns_current_time s3 + delay, sm_type = type\<rparr>
          (ns_message_queue s3)\<rparr>)" by (auto simp: rbind_Inr_iff)
    have same: "ns_partitions s3 = ns_partitions s" "ns_delivered_count s3 = ns_delivered_count s"
      "ns_dropped_count s3 = ns_dropped_count s" "ns_message_queue s3 = ns_message_queue s"
      by (subst get_delay_frame [OF g], subst s1, simp add: s0_def)+
    have "can_deliver from to s1 = can_deliver from to s" by (subst s1) (simp add: can_deliver_def s0_def)
    with False have "can_deliver from to s" by simp
    let ?msg = "\<lparr>sm_id = ns_next_message_id s1, sm_from_node = from, sm_to_node = to, sm_data = data,
      sm_send_time = ns_current_time s3, sm_deliver_time = ns_current_time s3 + delay, sm_type = type\<rparr>"
    have "\<exists>m. sm_from_node m = from \<and> sm_to_node m = to \<and> ns_message_queue s' = q_push Q m (ns_message_queue s)"
      by (intro exI [of _ ?msg]) (simp add: s' same(4) net_unlock_def)
    with same \<open>can_deliver from to s\<close> show ?thesis by (simp add: s' net_unlock_def)
  qed
qed

lemma call_effect:
  assumes "good (ns_message_queue s)" and "net_do Q R c s = Some (Inr s')" and "c \<noteq> ResetNet"
  shows "good (ns_message_queue s')" and "ns_delivered_count s' = ns_delivered_count s"
    and "ns_dropped_count s' + of_nat (size (msgs (ns_message_queue s'))) =
      ns_dropped_count s + of_nat (size (msgs (ns_message_queue s))) + (if is_send (Call c) then 1 else 0)"
    and "c \<noteq> Heal \<Longrightarrow> set (ns_partitions s) \<subseteq> set (ns_partitions s')"
    and "p \<in> set (ns_partitions s) \<Longrightarrow>
      filter_mset (\<lambda>m. crosses (sm_from_node m) (sm_to_node m) p) (msgs (ns_message_queue s')) =
      filter_mset (\<lambda>m. crosses (sm_from_node m) (sm_to_node m) p) (msgs (ns_message_queue s))"
proof -
  have "good (ns_message_queue s') \<and> ns_delivered_count s' = ns_delivered_count s \<and>
      ns_dropped_count s' + of_nat (size (msgs (ns_message_queue s'))) =
        ns_dropped_count s + of_nat (size (msgs (ns_message_queue s))) + (if is_send (Call c) then 1 else 0) \<and>
      (c \<noteq> Heal \<longrightarrow> set (ns_partitions s) \<subseteq> set (ns_partitions s')) \<and>
      (p \<in> set (ns_partitions s) \<longrightarrow>
        filter_mset (\<lambda>m. crosses (sm_from_node m) (sm_to_node m) p) (msgs (ns_message_queue s')) =
        filter_mset (\<lambda>m. crosses (sm_from_node m) (sm_to_node m) p) (msgs (ns_message_queue s)))"
  proof (cases c)
    case (Send a b d ty)
    with assms(2) have "send_message Q R a b d ty s = Inr s'" by simp
    from send_effect [OF this] assms(1) Send show ?thesis
      by (auto simp: push_queue can_deliver_def list_ex_iff split: if_splits)
  qed (use assms in \<open>auto simp: net_lock_def net_unlock_def register_handler_def set_delay_def set_packet_loss_rate_def
      make_partition_def net_heal_def isolate_node_def reconnect_node_def current_time_def advance_time_def split: if_splits\<close>)
  then show "good (ns_message_queue s')" "ns_delivered_count s' = ns_delivered_count s"
    "ns_dropped_count s' + of_nat (size (msgs (ns_message_queue s'))) =
      ns_dropped_count s + of_nat (size (msgs (ns_message_queue s))) + (if is_send (Call c) then 1 else 0)"
    "c \<noteq> Heal \<Longrightarrow> set (ns_partitions s) \<subseteq> set (ns_partitions s')"
    "p \<in> set (ns_partitions s) \<Longrightarrow>
      filter_mset (\<lambda>m. crosses (sm_from_node m) (sm_to_node m) p) (msgs (ns_message_queue s')) =
      filter_mset (\<lambda>m. crosses (sm_from_node m) (sm_to_node m) p) (msgs (ns_message_queue s))"
    by blast+
qed


lemma run_conserves:
  "net_run Q R es s = Some (Inr (s', ds)) \<Longrightarrow> good (ns_message_queue s) \<Longrightarrow> Call ResetNet \<notin> set es \<Longrightarrow>
    good (ns_message_queue s')
    \<and> ns_delivered_count s' = ns_delivered_count s + of_nat (length (filter snd ds))
    \<and> ns_dropped_count s + of_nat (size (msgs (ns_message_queue s))) + of_nat (length (filter is_send es)) =
      ns_dropped_count s' + of_nat (size (msgs (ns_message_queue s'))) + of_nat (length ds)"
proof (induction es arbitrary: s ds)
  case (Cons e es)
  show ?case
  proof (cases e)
    case (Call c)
    with Cons.prems obtain s1 where c: "net_do Q R c s = Some (Inr s1)" "net_run Q R es s1 = Some (Inr (s', ds))"
      by (auto split: option.splits sum.splits)
    have "c \<noteq> ResetNet" "Call ResetNet \<notin> set es" using Cons.prems(3) Call by auto
    note eff = call_effect [OF Cons.prems(2) c(1) this(1)] and rest = Cons.IH [OF c(2) _ this(2)]
    from rest [OF eff(1)] eff(2,3) show ?thesis unfolding Call by (auto simp: algebra_simps split: if_splits)
  next
    case Tick
    with Cons.prems obtain s1 ds1 ds2 where c: "worker_round Q R s = Some (Inr (s1, ds1))"
      "net_run Q R es s1 = Some (Inr (s', ds2))" "ds = ds1 @ ds2"
      by (auto split: option.splits sum.splits prod.splits)
    note eff = round_effect [OF Cons.prems(2) c(1)]
    have "Call ResetNet \<notin> set es" using Cons.prems(3) by simp
    from Cons.IH [OF c(2) eff(1) this] eff(3-5) show ?thesis unfolding Tick c(3) by (simp add: algebra_simps)
  qed
qed simp

lemma run_partitioned:
  "net_run Q R es s = Some (Inr (s', ds)) \<Longrightarrow> good (ns_message_queue s) \<Longrightarrow> Call ResetNet \<notin> set es \<Longrightarrow>
    Call Heal \<notin> set es \<Longrightarrow> p \<in> set (ns_partitions s) \<Longrightarrow>
    filter_mset (\<lambda>m. crosses (sm_from_node m) (sm_to_node m) p) (msgs (ns_message_queue s)) =
    filter_mset (\<lambda>m. crosses (sm_from_node m) (sm_to_node m) p) (mset (map fst ds) + msgs (ns_message_queue s'))"
proof (induction es arbitrary: s ds)
  case (Cons e es)
  show ?case
  proof (cases e)
    case (Call c)
    with Cons.prems obtain s1 where c: "net_do Q R c s = Some (Inr s1)" "net_run Q R es s1 = Some (Inr (s', ds))"
      by (auto split: option.splits sum.splits)
    have rs: "c \<noteq> ResetNet" "Call ResetNet \<notin> set es" "c \<noteq> Heal" "Call Heal \<notin> set es" using Cons.prems(3,4) Call by auto
    note eff = call_effect [OF Cons.prems(2) c(1) rs(1)]
    from Cons.IH [OF c(2) eff(1) rs(2,4)] eff(4) [OF rs(3)] eff(5) [OF Cons.prems(5)] Cons.prems(5)
    show ?thesis by auto
  next
    case Tick
    with Cons.prems obtain s1 ds1 ds2 where c: "worker_round Q R s = Some (Inr (s1, ds1))"
      "net_run Q R es s1 = Some (Inr (s', ds2))" "ds = ds1 @ ds2"
      by (auto split: option.splits sum.splits prod.splits)
    note eff = round_effect [OF Cons.prems(2) c(1)]
    have "Call ResetNet \<notin> set es" "Call Heal \<notin> set es" using Cons.prems(3,4) by simp_all
    from Cons.IH [OF c(2) eff(1) this] eff(2,5) Cons.prems(5) show ?thesis unfolding c(3) by simp
  qed
qed simp

end

section \<open>A queue and an engine that keep the contracts\<close>

fun enqueue :: "SimulatedMessage \<Rightarrow> SimulatedMessage list \<Rightarrow> SimulatedMessage list" where
  "enqueue m [] = [m]"
| "enqueue m (x # xs) = (if sm_deliver_time m < sm_deliver_time x then m # x # xs else x # enqueue m xs)"

definition sorted_queue :: "SimulatedMessage list queue_ops" where
  "sorted_queue = \<lparr>q_new = [], q_empty = (\<lambda>q. q = []), q_push = enqueue, q_top = hd, q_pop = tl, q_size = length\<rparr>"

lemma mset_enqueue [simp]: "mset (enqueue m q) = add_mset m (mset q)"
  by (induction m q rule: enqueue.induct) simp_all

lemma set_enqueue [simp]: "set (enqueue m q) = insert m (set q)"
  by (metis mset_enqueue set_mset_add_mset_insert set_mset_mset)

lemma sorted_enqueue: "sorted (map sm_deliver_time q) \<Longrightarrow> sorted (map sm_deliver_time (enqueue m q))"
  by (induction m q rule: enqueue.induct) auto

interpretation sq: message_queue sorted_queue "\<lambda>q. sorted (map sm_deliver_time q)" mset
proof
  fix q :: "SimulatedMessage list" and m :: SimulatedMessage
  assume q: "sorted (map sm_deliver_time q)"
  show "sorted (map sm_deliver_time (q_push sorted_queue m q))" using q by (simp add: sorted_queue_def sorted_enqueue)
  assume m: "m \<in># mset q"
  then show "sm_deliver_time (q_top sorted_queue q) \<le> sm_deliver_time m"
    using q by (cases q) (auto simp: sorted_queue_def)
next
  fix q :: "SimulatedMessage list"
  assume "sorted (map sm_deliver_time q)" "mset q \<noteq> {#}"
  then show "sorted (map sm_deliver_time (q_pop sorted_queue q))"
    "mset (q_pop sorted_queue q) = mset q - {#q_top sorted_queue q#}"
    by (cases q; simp add: sorted_queue_def)+
qed (simp_all add: sorted_queue_def)

definition constant_rng :: "unit rng_ops" where
  "constant_rng = \<lparr>r_seed = (\<lambda>_. ()), r_real = (\<lambda>_. (0, ())), r_int = (\<lambda>lo hi _. (lo, ()))\<rparr>"

section \<open>Properties\<close>

text \<open>
  C24. A round of the worker, for every priority queue. It ends. If no message that has become due goes to a
  handler that calls the simulator, it takes exactly the due messages from the queue, in the order of
  their delivery times, hands each to the handler of its target if there is one, and counts those; the
  partitions of the moment play no role. Otherwise the worker waits for ever for the mutex that
  it holds itself.
\<close>

theorem worker_round_exact:
  assumes "message_queue Q good msgs" and "good (ns_message_queue s)" and "\<not> ns_mtx s"
  shows "if \<exists>m \<in># msgs (ns_message_queue s). is_due (ns_current_time s + 1) m \<and> calls_back s m
    then worker_round Q R s = Some (Inl NetDeadlock)
    else \<exists>q ds. worker_round Q R s =
        Some (Inr (s\<lparr>ns_current_time := ns_current_time s + 1, ns_message_queue := q,
          ns_delivered_count := ns_delivered_count s + of_nat (length (filter snd ds))\<rparr>, ds))
      \<and> good q \<and> msgs q = filter_mset (\<lambda>m. \<not> is_due (ns_current_time s + 1) m) (msgs (ns_message_queue s))
      \<and> mset (map fst ds) = filter_mset (is_due (ns_current_time s + 1)) (msgs (ns_message_queue s))
      \<and> sorted (map (sm_deliver_time \<circ> fst) ds)
      \<and> (\<forall>(m, handled) \<in> set ds. handled \<longleftrightarrow> um_find (ns_handlers s) (sm_to_node m) \<noteq> None)"
proof (cases "\<exists>m \<in># msgs (ns_message_queue s). is_due (ns_current_time s + 1) m \<and> calls_back s m")
  case True
  with message_queue.worker_round_blocks [OF assms] show ?thesis by simp
next
  case False
  then have "\<forall>m \<in># msgs (ns_message_queue s). is_due (ns_current_time s + 1) m \<longrightarrow> \<not> calls_back s m" by blast
  from message_queue.worker_round_delivers [OF assms this, of R] show ?thesis by (simp only: False if_False)
qed

text \<open>A simulator with one message under way to a node whose handler answers every message.\<close>

definition answering_net :: "(SimulatedMessage list, unit) NetworkSimulator" where
  "answering_net =
     (new_NetworkSimulator sorted_queue constant_rng default_NetworkConfig)
       \<lparr>ns_handlers := [(2, \<lambda>from data type. [Send 2 from data ''reply''])],
        ns_message_queue := [\<lparr>sm_id = 1, sm_from_node = 1, sm_to_node = 2, sm_data = [7], sm_send_time = 0,
          sm_deliver_time = 1, sm_type = ''ping''\<rparr>]\<rparr>"

lemma answering_net_fields:
  "ns_mtx answering_net = False" "ns_current_time answering_net = 0"
  "ns_message_queue answering_net = [\<lparr>sm_id = 1, sm_from_node = 1, sm_to_node = 2, sm_data = [7], sm_send_time = 0,
     sm_deliver_time = 1, sm_type = ''ping''\<rparr>]"
  "ns_handlers answering_net = [(2, \<lambda>from data type. [Send 2 from data ''reply''])]"
  "ns_partitions answering_net = []" "ns_dropped_count answering_net = 0" "ns_delivered_count answering_net = 0"
  by (simp_all add: answering_net_def new_NetworkSimulator_def)

theorem worker_round_exact_witness:
  "worker_round sorted_queue constant_rng answering_net = Some (Inl NetDeadlock)"
  using worker_round_exact [OF sq.message_queue_axioms, of answering_net constant_rng]
  by (simp add: answering_net_fields calls_back_def)

text \<open>
  C23. Every run without a \<open>reset\<close>, whatever calls and rounds it is made of. No message is lost or invented: the
  messages sent and those waiting at the beginning are those dropped, those taken by the worker and those still
  waiting, and the delivered count grows by the messages that found a handler (a message to a node
  without one is in neither count); the counters are 64-bit and the equations hold with their wrap-around. And a
  partition holds until the next \<open>heal\<close>: of the messages between its two groups, those that are delivered
  or still wait are exactly those that were under way before.
\<close>

theorem network_run_exact:
  assumes "message_queue Q good msgs" and "good (ns_message_queue s)"
    and "net_run Q R es s = Some (Inr (s', ds))" and "Call ResetNet \<notin> set es"
  shows "ns_dropped_count s + of_nat (size (msgs (ns_message_queue s))) + of_nat (length (filter is_send es)) =
      ns_dropped_count s' + of_nat (size (msgs (ns_message_queue s'))) + of_nat (length ds)
    \<and> ns_delivered_count s' = ns_delivered_count s + of_nat (length (filter snd ds))
    \<and> (\<forall>p \<in> set (ns_partitions s). Call Heal \<notin> set es \<longrightarrow>
        filter_mset (\<lambda>m. crosses (sm_from_node m) (sm_to_node m) p) (mset (map fst ds) + msgs (ns_message_queue s'))
        = filter_mset (\<lambda>m. crosses (sm_from_node m) (sm_to_node m) p) (msgs (ns_message_queue s)))"
  using message_queue.run_conserves [OF assms(1,3,2,4)] message_queue.run_partitioned [OF assms(1,3,2,4)] by simp

theorem network_run_exact_witness:
  "\<exists>s' ds. net_run sorted_queue constant_rng [Call (Send 1 2 [9] ''x''), Call (Send 1 3 [] ''y'')]
        (answering_net\<lparr>ns_partitions := [([1], [2])]\<rparr>) = Some (Inr (s', ds))
    \<and> 3 = ns_dropped_count s' + of_nat (length (ns_message_queue s')) + of_nat (length ds)
    \<and> filter_mset (\<lambda>m. crosses (sm_from_node m) (sm_to_node m) ([1], [2])) (mset (map fst ds) + mset (ns_message_queue s'))
      = mset (ns_message_queue answering_net)"
proof -
  let ?es = "[Call (Send 1 2 [9] ''x''), Call (Send 1 3 [] ''y'')]" and ?s = "answering_net\<lparr>ns_partitions := [([1], [2])]\<rparr>"
  obtain s' ds where run: "net_run sorted_queue constant_rng ?es ?s = Some (Inr (s', ds))"
    by (simp add: answering_net_def new_NetworkSimulator_def default_NetworkConfig_def send_message_def
        should_drop_def can_deliver_def crosses_def count_drop_def get_delay_def draw_delay_def constant_rng_def
        net_lock_def net_unlock_def Let_def)
  have "ns_dropped_count ?s + of_nat (size (mset (ns_message_queue ?s))) + of_nat (length (filter is_send ?es)) =
      ns_dropped_count s' + of_nat (size (mset (ns_message_queue s'))) + of_nat (length ds)"
    "filter_mset (\<lambda>m. crosses (sm_from_node m) (sm_to_node m) ([1], [2])) (mset (map fst ds) + mset (ns_message_queue s'))
      = filter_mset (\<lambda>m. crosses (sm_from_node m) (sm_to_node m) ([1], [2])) (mset (ns_message_queue ?s))"
    using network_run_exact [OF sq.message_queue_axioms _ run] by (simp_all add: answering_net_fields)
  with run show ?thesis by (auto simp: answering_net_fields crosses_def)
qed

end
