(* ===== verification/Consistency_Checker.thy ===== *)
theory Consistency_Checker
  imports Prelude Complex_Main
begin

text \<open>
  The consistency checker of the test library (\<^verbatim>\<open>include/test/consistency_checker.h\<close>,
  \<^verbatim>\<open>src/test/consistency_checker.cpp\<close>): it records operations with their times and then looks for pairs
  that should not have happened. A record is made with some of its fields never assigned: such a
  field is \<open>None\<close>, copying the record keeps it, and using its value is the error \<open>Indeterminate\<close>. Every
  method holds the mutex from beginning to end and calls no other method, so a method is one
  step. The clock in milliseconds is an argument; \<open>double\<close> values are reals, with the rounding
  of the hardware as the parameter \<open>rnd\<close>.
\<close>

section \<open>Data\<close>

record OperationRecord =
  or_id :: u64
  or_client_id :: u64
  or_rpc_id :: "u64 option"
  or_key :: string
  or_value :: bytes
  or_start_time :: u64
  or_end_time :: "u64 option"
  or_success :: bool
  or_fast_path :: "bool option"
  or_rtt_count :: "int option"

record ConsistencyChecker =
  ck_enabled :: bool
  ck_operations :: "OperationRecord list"
  ck_next_op_id :: u64
  ck_op_id_to_index :: "(u64, nat) umap"
  ck_key_operations :: "(string, nat list) umap"
  ck_violations :: "(u64 \<times> u64) list"

record Statistics =
  cs_total_operations :: nat
  cs_successful_writes :: nat
  cs_successful_reads :: nat
  cs_failed_operations :: nat
  cs_fast_path_count :: nat
  cs_slow_path_count :: nat
  cs_linearizability_violations :: nat
  cs_fast_path_ratio :: real
  cs_avg_rtt_count :: real
  cs_avg_latency_ms :: real

datatype checker_error = Indeterminate | OutOfRange | SignedOverflow

definition new_ConsistencyChecker :: ConsistencyChecker where
  "new_ConsistencyChecker =
     \<lparr>ck_enabled = True, ck_operations = [], ck_next_op_id = 1, ck_op_id_to_index = [],
      ck_key_operations = [], ck_violations = []\<rparr>"

section \<open>Recording operations\<close>

text \<open>The index of a new record in the two maps; \<open>operator[]\<close> makes an empty vector for a new key.\<close>

definition push_record :: "OperationRecord \<Rightarrow> ConsistencyChecker \<Rightarrow> ConsistencyChecker" where
  "push_record r c =
     (let index = length (ck_operations c);
          old = (case um_find (ck_key_operations c) (or_key r) of None \<Rightarrow> [] | Some is \<Rightarrow> is)
      in c\<lparr>ck_operations := ck_operations c @ [r],
           ck_op_id_to_index := um_put (or_id r) index (ck_op_id_to_index c),
           ck_key_operations := um_put (or_key r) (old @ [index]) (ck_key_operations c)\<rparr>)"

definition record_write_start ::
  "u64 \<Rightarrow> u64 \<Rightarrow> u64 \<Rightarrow> string \<Rightarrow> bytes \<Rightarrow> ConsistencyChecker \<Rightarrow> u64 \<times> ConsistencyChecker" where
  "record_write_start now client_id rpc_id key value c =
     (if \<not> ck_enabled c then (0, c)
      else
        let record_id = ck_next_op_id c;
            c1 = c\<lparr>ck_next_op_id := ck_next_op_id c + 1\<rparr>
        in (record_id, push_record
              \<lparr>or_id = record_id, or_client_id = client_id, or_rpc_id = Some rpc_id, or_key = key,
               or_value = value, or_start_time = now, or_end_time = None, or_success = False,
               or_fast_path = None, or_rtt_count = None\<rparr> c1))"

definition record_write_end ::
  "u64 \<Rightarrow> u64 \<Rightarrow> bool \<Rightarrow> bool \<Rightarrow> int \<Rightarrow> ConsistencyChecker \<Rightarrow> checker_error + ConsistencyChecker" where
  "record_write_end now op_id success fast_path rtt_count c =
     (if \<not> ck_enabled c \<or> op_id = 0 then Inr c
      else (case um_find (ck_op_id_to_index c) op_id of
          None \<Rightarrow> Inr c
        | Some i \<Rightarrow>
            if i < length (ck_operations c) then
              Inr (c\<lparr>ck_operations := (ck_operations c)[i := (ck_operations c ! i)
                \<lparr>or_end_time := Some now, or_success := success, or_fast_path := Some fast_path,
                 or_rtt_count := Some rtt_count\<rparr>]\<rparr>)
            else Inl OutOfRange))"

definition record_read ::
  "u64 \<Rightarrow> u64 \<Rightarrow> string \<Rightarrow> bytes \<Rightarrow> bool \<Rightarrow> ConsistencyChecker \<Rightarrow> u64 \<times> ConsistencyChecker" where
  "record_read now client_id key value_returned success c =
     (if \<not> ck_enabled c then (0, c)
      else
        let record_id = ck_next_op_id c;
            c1 = c\<lparr>ck_next_op_id := ck_next_op_id c + 1\<rparr>
        in (record_id, push_record
              \<lparr>or_id = record_id, or_client_id = client_id, or_rpc_id = None, or_key = key,
               or_value = value_returned, or_start_time = now, or_end_time = Some now,
               or_success = success, or_fast_path = None, or_rtt_count = None\<rparr> c1))"

section \<open>Checks\<close>

definition read_field :: "'a option \<Rightarrow> checker_error + 'a" where
  "read_field x = (case x of None \<Rightarrow> Inl Indeterminate | Some v \<Rightarrow> Inr v)"

definition op_at :: "OperationRecord list \<Rightarrow> nat \<Rightarrow> checker_error + OperationRecord" where
  "op_at ops i = (if i < length ops then Inr (ops ! i) else Inl OutOfRange)"

text \<open>The body of the double loop for two records: whether they are a violation.\<close>

definition conflict :: "OperationRecord \<Rightarrow> OperationRecord \<Rightarrow> checker_error + bool" where
  "conflict op1 op2 =
     (if \<not> or_success op1 \<or> \<not> or_success op2 then Inr False
      else
        rbind (read_field (or_end_time op1)) (\<lambda>end1.
        if end1 < or_start_time op2 then Inr False
        else
          rbind (read_field (or_end_time op2)) (\<lambda>end2.
          if end2 < or_start_time op1 then Inr False
          else
            rbind (read_field (or_fast_path op1)) (\<lambda>fast1.
            if \<not> fast1 then Inr False else read_field (or_fast_path op2)))))"

fun scan_second ::
  "OperationRecord list \<Rightarrow> nat \<Rightarrow> nat list \<Rightarrow> (u64 \<times> u64) list \<Rightarrow> checker_error + (u64 \<times> u64) list" where
  "scan_second ops i [] vs = Inr vs"
| "scan_second ops i (j # js) vs =
     rbind (op_at ops i) (\<lambda>op1. rbind (op_at ops j) (\<lambda>op2.
     rbind (conflict op1 op2) (\<lambda>bad.
       scan_second ops i js (if bad then vs @ [(or_id op1, or_id op2)] else vs))))"

fun scan_first ::
  "OperationRecord list \<Rightarrow> nat list \<Rightarrow> (u64 \<times> u64) list \<Rightarrow> checker_error + (u64 \<times> u64) list" where
  "scan_first ops [] vs = Inr vs"
| "scan_first ops (i # is) vs = rbind (scan_second ops i is vs) (scan_first ops is)"

fun scan_keys ::
  "OperationRecord list \<Rightarrow> (string, nat list) umap \<Rightarrow> (u64 \<times> u64) list \<Rightarrow> checker_error + (u64 \<times> u64) list" where
  "scan_keys ops [] vs = Inr vs"
| "scan_keys ops ((key, op_indices) # rest) vs =
     (if length op_indices < 2 then scan_keys ops rest vs
      else rbind (scan_first ops op_indices vs) (scan_keys ops rest))"

definition check_linearizability :: "ConsistencyChecker \<Rightarrow> checker_error + (bool \<times> ConsistencyChecker)" where
  "check_linearizability c =
     rbind (scan_keys (ck_operations c) (ck_key_operations c) []) (\<lambda>vs.
       Inr (vs = [], c\<lparr>ck_violations := vs\<rparr>))"

definition check_data_integrity :: "ConsistencyChecker \<Rightarrow> bool" where
  "check_data_integrity c = (let successful_writes = length (filter or_success (ck_operations c)) in True)"

definition get_violations :: "ConsistencyChecker \<Rightarrow> (u64 \<times> u64) list" where
  "get_violations c = ck_violations c"

section \<open>Statistics\<close>

record stat_sums =
  ss_fast :: nat
  ss_slow :: nat
  ss_failed :: nat
  ss_latency :: u64
  ss_rtt :: int

text \<open>The loop of \<open>get_statistics\<close>: latencies are unsigned and wrap, the sum of the round trips is an \<open>int\<close>.\<close>

fun stat_loop :: "OperationRecord list \<Rightarrow> stat_sums \<Rightarrow> checker_error + stat_sums" where
  "stat_loop [] s = Inr s"
| "stat_loop (r # rs) s =
     (if or_success r then
        rbind (read_field (or_fast_path r)) (\<lambda>fast.
        let s1 = (if fast then s\<lparr>ss_fast := Suc (ss_fast s)\<rparr> else s\<lparr>ss_slow := Suc (ss_slow s)\<rparr>) in
        rbind (read_field (or_end_time r)) (\<lambda>end_time.
        let s2 = s1\<lparr>ss_latency := ss_latency s1 + (end_time - or_start_time r)\<rparr> in
        rbind (read_field (or_rtt_count r)) (\<lambda>n.
        if in_i32 (ss_rtt s2 + n) then stat_loop rs (s2\<lparr>ss_rtt := ss_rtt s2 + n\<rparr>)
        else Inl SignedOverflow)))
      else stat_loop rs (s\<lparr>ss_failed := Suc (ss_failed s)\<rparr>))"

definition get_statistics :: "(real \<Rightarrow> real) \<Rightarrow> ConsistencyChecker \<Rightarrow> checker_error + Statistics" where
  "get_statistics rnd c =
     rbind (stat_loop (ck_operations c) \<lparr>ss_fast = 0, ss_slow = 0, ss_failed = 0, ss_latency = 0, ss_rtt = 0\<rparr>)
       (\<lambda>s. let total = length (ck_operations c); writes = ss_fast s + ss_slow s in
         Inr \<lparr>cs_total_operations = total, cs_successful_writes = writes, cs_successful_reads = 0,
              cs_failed_operations = ss_failed s, cs_fast_path_count = ss_fast s, cs_slow_path_count = ss_slow s,
              cs_linearizability_violations = length (ck_violations c),
              cs_fast_path_ratio =
                (if 0 < total then rnd (rnd (real (ss_fast s)) / rnd (real total)) else 0),
              cs_avg_rtt_count =
                (if 0 < writes then rnd (rnd (real_of_int (ss_rtt s)) / rnd (real writes)) else 0),
              cs_avg_latency_ms =
                (if 0 < writes then rnd (rnd (real (unat (ss_latency s))) / rnd (real writes)) else 0)\<rparr>)"

section \<open>Control\<close>

definition checker_reset :: "ConsistencyChecker \<Rightarrow> ConsistencyChecker" where
  "checker_reset c =
     c\<lparr>ck_operations := [], ck_op_id_to_index := [], ck_key_operations := [], ck_violations := [],
       ck_next_op_id := 1\<rparr>"

definition checker_enable :: "ConsistencyChecker \<Rightarrow> ConsistencyChecker" where
  "checker_enable c = c\<lparr>ck_enabled := True\<rparr>"

definition checker_disable :: "ConsistencyChecker \<Rightarrow> ConsistencyChecker" where
  "checker_disable c = c\<lparr>ck_enabled := False\<rparr>"

section \<open>Runs of the checker\<close>

inductive checker_reachable :: "ConsistencyChecker \<Rightarrow> bool" where
  cr_new: "checker_reachable new_ConsistencyChecker"
| cr_start: "checker_reachable c \<Longrightarrow> checker_reachable (snd (record_write_start now client rpc key value c))"
| cr_end: "checker_reachable c \<Longrightarrow> record_write_end now op_id success fast n c = Inr c' \<Longrightarrow> checker_reachable c'"
| cr_read: "checker_reachable c \<Longrightarrow> checker_reachable (snd (record_read now client key value success c))"
| cr_check: "checker_reachable c \<Longrightarrow> check_linearizability c = Inr (ok, c') \<Longrightarrow> checker_reachable c'"
| cr_reset: "checker_reachable c \<Longrightarrow> checker_reachable (checker_reset c)"
| cr_enable: "checker_reachable c \<Longrightarrow> checker_reachable (checker_enable c)"
| cr_disable: "checker_reachable c \<Longrightarrow> checker_reachable (checker_disable c)"

text \<open>The operations on a key, in the order of their records.\<close>

definition ops_on :: "OperationRecord list \<Rightarrow> string \<Rightarrow> nat list" where
  "ops_on ops key = filter (\<lambda>i. or_key (ops ! i) = key) [0..<length ops]"

text \<open>Which fields a record in the checker can have unset.\<close>

definition record_ok :: "OperationRecord \<Rightarrow> bool" where
  "record_ok r \<longleftrightarrow> (or_success r \<longrightarrow> or_end_time r \<noteq> None) \<and> (or_fast_path r = None \<longleftrightarrow> or_rtt_count r = None)"

definition checker_inv :: "ConsistencyChecker \<Rightarrow> bool" where
  "checker_inv c \<longleftrightarrow>
     (\<forall>id i. um_find (ck_op_id_to_index c) id = Some i \<longrightarrow>
        i < length (ck_operations c) \<and> or_id (ck_operations c ! i) = id)
   \<and> um_ok (ck_key_operations c)
   \<and> (\<forall>key. um_find (ck_key_operations c) key =
        (if ops_on (ck_operations c) key = [] then None else Some (ops_on (ck_operations c) key)))
   \<and> (\<forall>r \<in> set (ck_operations c). record_ok r)"

lemma ops_on_push:
  "ops_on (ops @ [r]) key = ops_on ops key @ (if or_key r = key then [length ops] else [])"
proof -
  have "filter (\<lambda>i. or_key ((ops @ [r]) ! i) = key) [0..<length ops] = ops_on ops key"
    unfolding ops_on_def by (rule filter_cong) (simp_all add: nth_append)
  then show ?thesis by (simp add: ops_on_def)
qed

lemma ops_on_update:
  "or_key r = or_key (ops ! i) \<Longrightarrow> ops_on (ops[i := r]) key = ops_on ops key"
proof -
  assume key: "or_key r = or_key (ops ! i)"
  have "or_key (ops[i := r] ! x) = or_key (ops ! x)" for x
    using key by (cases "x = i"; cases "i < length ops") (simp_all add: list_update_beyond)
  then show ?thesis by (simp add: ops_on_def)
qed

lemma inv_push:
  assumes "checker_inv c" and "record_ok r"
  shows "checker_inv (push_record r (c\<lparr>ck_next_op_id := n\<rparr>))"
proof -
  have old: "(case um_find (ck_key_operations c) key of None \<Rightarrow> [] | Some is \<Rightarrow> is) = ops_on (ck_operations c) key" for key
    using assms(1) by (simp add: checker_inv_def split: option.split)
  show ?thesis
    using assms
    by (auto simp: checker_inv_def push_record_def Let_def old ops_on_push nth_append um_find_put
        intro: um_ok_put less_SucI split: if_splits)
qed

lemma checker_invariant: "checker_reachable c \<Longrightarrow> checker_inv c"
proof (induction rule: checker_reachable.induct)
  case cr_new
  show ?case by (simp add: checker_inv_def new_ConsistencyChecker_def ops_on_def)
next
  case (cr_start c now client rpc key v)
  then show ?case by (simp add: record_write_start_def Let_def inv_push record_ok_def)
next
  case (cr_read c now client key v success)
  then show ?case by (simp add: record_read_def Let_def inv_push record_ok_def)
next
  case (cr_end c now op_id success fast n c')
  show ?case
  proof (cases "c' = c")
    case False
    then obtain i where i: "um_find (ck_op_id_to_index c) op_id = Some i" "i < length (ck_operations c)"
      and c': "c' = c\<lparr>ck_operations := (ck_operations c)[i := (ck_operations c ! i)
        \<lparr>or_end_time := Some now, or_success := success, or_fast_path := Some fast, or_rtt_count := Some n\<rparr>]\<rparr>"
      using cr_end.hyps(2) by (auto simp: record_write_end_def split: if_splits option.splits)
    have "record_ok r" if "r \<in> set (ck_operations c')" for r
      using that set_update_subset_insert [of "ck_operations c" i] cr_end.IH
      by (fastforce simp: c' checker_inv_def record_ok_def)
    then show ?thesis
      using cr_end.IH i(2) by (auto simp: c' checker_inv_def ops_on_update nth_list_update)
  qed (use cr_end.IH in simp)
next
  case (cr_check c ok c')
  then show ?case by (auto simp: check_linearizability_def rbind_Inr_iff checker_inv_def)
qed (simp_all add: checker_inv_def checker_reset_def checker_enable_def checker_disable_def ops_on_def)

text \<open>The end of a write always completes: an index in the map is in range.\<close>

lemma reachable_end:
  assumes "checker_reachable c"
  shows "checker_reachable (projr (record_write_end now op_id success fast n c))"
proof -
  have "\<exists>c'. record_write_end now op_id success fast n c = Inr c'"
    using checker_invariant [OF assms] by (auto simp: record_write_end_def checker_inv_def split: option.split)
  then show ?thesis using cr_end [OF assms] by auto
qed

section \<open>The double loop\<close>

text \<open>The pairs the loops visit, and the loops as one traversal of them.\<close>

fun pairs :: "'a list \<Rightarrow> ('a \<times> 'a) list" where
  "pairs [] = []"
| "pairs (x # xs) = map (Pair x) xs @ pairs xs"

lemma set_pairs: "sorted_wrt (<) (is :: nat list) \<Longrightarrow> set (pairs is) = {(i, j). i \<in> set is \<and> j \<in> set is \<and> i < j}"
  by (induction "is") auto

fun scan_pairs ::
  "OperationRecord list \<Rightarrow> (nat \<times> nat) list \<Rightarrow> (u64 \<times> u64) list \<Rightarrow> checker_error + (u64 \<times> u64) list" where
  "scan_pairs ops [] vs = Inr vs"
| "scan_pairs ops ((i, j) # ps) vs =
     rbind (op_at ops i) (\<lambda>op1. rbind (op_at ops j) (\<lambda>op2.
     rbind (conflict op1 op2) (\<lambda>bad.
       scan_pairs ops ps (if bad then vs @ [(or_id op1, or_id op2)] else vs))))"

lemma scan_pairs_append: "scan_pairs ops (ps @ qs) vs = rbind (scan_pairs ops ps vs) (scan_pairs ops qs)"
  by (induction ops ps vs rule: scan_pairs.induct) (auto simp: rbind_def split: sum.split)

lemma scan_second_pairs: "scan_second ops i js vs = scan_pairs ops (map (Pair i) js) vs"
  by (induction ops i js vs rule: scan_second.induct) (auto simp: rbind_def split: sum.split)

lemma scan_first_pairs: "scan_first ops is vs = scan_pairs ops (pairs is) vs"
  by (induction ops "is" vs rule: scan_first.induct)
    (auto simp: scan_pairs_append scan_second_pairs rbind_def split: sum.split)

lemma scan_keys_pairs: "scan_keys ops m vs = scan_pairs ops (concat (map (pairs \<circ> snd) m)) vs"
proof (induction m arbitrary: vs)
  case (Cons p m)
  obtain key "is" where p: "p = (key, is)" by fastforce
  have "pairs is = []" if "length is < 2" using that by (cases "is") (auto simp: Suc_le_eq)
  then show ?case
    using Cons.IH by (auto simp: p scan_pairs_append scan_first_pairs rbind_def split: sum.split)
qed simp

lemma scan_pairs_result:
  assumes "\<And>i j. (i, j) \<in> set ps \<Longrightarrow> i < length ops \<and> j < length ops \<and> conflict (ops ! i) (ops ! j) = Inr (B i j)"
  shows "scan_pairs ops ps vs =
    Inr (vs @ map (\<lambda>(i, j). (or_id (ops ! i), or_id (ops ! j))) (filter (\<lambda>(i, j). B i j) ps))"
  using assms
proof (induction ps arbitrary: vs)
  case (Cons p ps)
  obtain i j where p: "p = (i, j)" by fastforce
  have "i < length ops" "j < length ops" "conflict (ops ! i) (ops ! j) = Inr (B i j)"
    using Cons.prems [of i j] by (simp_all add: p)
  moreover have "scan_pairs ops ps vs' =
      Inr (vs' @ map (\<lambda>(i, j). (or_id (ops ! i), or_id (ops ! j))) (filter (\<lambda>(i, j). B i j) ps))" for vs'
    by (rule Cons.IH, rule Cons.prems) simp
  ultimately show ?case by (simp add: p op_at_def)
qed simp

lemma scan_pairs_error:
  assumes "\<And>i j. (i, j) \<in> set ps \<Longrightarrow> i < length ops \<and> j < length ops"
    and "(i, j) \<in> set ps" and "conflict (ops ! i) (ops ! j) = Inl err"
    and "\<And>op1 op2 e. conflict op1 op2 = Inl e \<Longrightarrow> e = Indeterminate"
  shows "scan_pairs ops ps vs = Inl Indeterminate"
  using assms(1,2)
proof (induction ps arbitrary: vs)
  case (Cons p ps)
  obtain a b where p: "p = (a, b)" by fastforce
  have ab: "a < length ops" "b < length ops" using Cons.prems(1) [of a b] by (simp_all add: p)
  show ?case
  proof (cases "conflict (ops ! a) (ops ! b)")
    case (Inl e)
    with assms(4) [OF Inl] ab show ?thesis by (simp add: p op_at_def)
  next
    case (Inr bad)
    with assms(3) Cons.prems(2) p have "(i, j) \<in> set ps" by auto
    then have "scan_pairs ops ps vs' = Inl Indeterminate" for vs'
      by (rule Cons.IH [rotated], intro Cons.prems(1)) simp
    with Inr ab show ?thesis by (simp add: p op_at_def)
  qed
qed simp

lemma visited_pairs:
  assumes "checker_inv c"
  shows "set (concat (map (pairs \<circ> snd) (ck_key_operations c))) =
    {(i, j). i < j \<and> j < length (ck_operations c) \<and> or_key (ck_operations c ! i) = or_key (ck_operations c ! j)}"
    (is "?L = ?R")
proof -
  let ?ops = "ck_operations c"
  have sorted: "sorted_wrt (<) (ops_on ?ops k)" for k
    by (simp add: ops_on_def sorted_wrt_filter sorted_wrt_upt)
  have on_key: "set (pairs (ops_on ?ops k)) =
      {(i, j). i < j \<and> j < length ?ops \<and> or_key (?ops ! i) = k \<and> or_key (?ops ! j) = k}" for k
    unfolding set_pairs [OF sorted] by (auto simp: ops_on_def)
  have mem: "(k, is) \<in> set (ck_key_operations c) \<longleftrightarrow> is = ops_on ?ops k \<and> is \<noteq> []" for k "is"
    using assms map_of_eq_Some_iff [of "ck_key_operations c" k "is"] by (auto simp: checker_inv_def split: if_splits)
  have "?L = (\<Union>p \<in> set (ck_key_operations c). set (pairs (snd p)))" by simp
  also have "\<dots> = (\<Union>k. set (pairs (ops_on ?ops k)))" (is "?A = ?B")
  proof
    show "?A \<subseteq> ?B" using mem by fastforce
    have "set (pairs (ops_on ?ops k)) \<subseteq> ?A" for k
      using mem [of k "ops_on ?ops k"] by (cases "ops_on ?ops k = []") (simp_all, force)
    then show "?B \<subseteq> ?A" by blast
  qed
  also have "\<dots> = ?R" by (auto simp: on_key)
  finally show ?thesis .
qed

section \<open>What a pair of records shows\<close>

definition overlap :: "OperationRecord \<Rightarrow> OperationRecord \<Rightarrow> bool" where
  "overlap a b \<longleftrightarrow> or_success a \<and> or_success b \<and>
     (\<exists>s t. or_end_time a = Some s \<and> or_end_time b = Some t \<and> or_start_time b \<le> s \<and> or_start_time a \<le> t)"

definition race :: "OperationRecord \<Rightarrow> OperationRecord \<Rightarrow> bool" where
  "race a b \<longleftrightarrow> overlap a b \<and> or_fast_path a = Some True \<and> or_fast_path b = Some True"

definition unclear :: "OperationRecord \<Rightarrow> OperationRecord \<Rightarrow> bool" where
  "unclear a b \<longleftrightarrow> overlap a b \<and> (or_fast_path a = None \<or> or_fast_path a = Some True \<and> or_fast_path b = None)"

text \<open>Two records of one key, in the order in which they were made.\<close>

definition key_pair :: "ConsistencyChecker \<Rightarrow> nat \<Rightarrow> nat \<Rightarrow> bool" where
  "key_pair c i j \<longleftrightarrow>
     i < j \<and> j < length (ck_operations c) \<and> or_key (ck_operations c ! i) = or_key (ck_operations c ! j)"

lemma conflict_error: "conflict a b = Inl e \<Longrightarrow> e = Indeterminate"
  by (auto simp: conflict_def read_field_def split: if_splits option.splits)

lemma conflict_eq:
  assumes "record_ok a" and "record_ok b"
  shows "conflict a b = (if unclear a b then Inl Indeterminate else Inr (race a b))"
proof (cases "or_success a \<and> or_success b")
  case True
  with assms obtain s t where "or_end_time a = Some s" "or_end_time b = Some t" by (auto simp: record_ok_def)
  with True show ?thesis
    by (cases "or_fast_path a"; cases "or_fast_path b")
      (auto simp: conflict_def read_field_def unclear_def race_def overlap_def)
next
  case False
  then show ?thesis by (auto simp: conflict_def unclear_def race_def overlap_def)
qed

lemma check_cases:
  assumes "checker_inv c"
  defines "ops \<equiv> ck_operations c"
  shows "\<exists>i j. key_pair c i j \<and> unclear (ops ! i) (ops ! j) \<Longrightarrow> check_linearizability c = Inl Indeterminate"
    and "\<not> (\<exists>i j. key_pair c i j \<and> unclear (ops ! i) (ops ! j)) \<Longrightarrow>
      \<exists>vs. check_linearizability c = Inr (vs = [], c\<lparr>ck_violations := vs\<rparr>)
         \<and> set vs = {(or_id (ops ! i), or_id (ops ! j)) |i j. key_pair c i j \<and> race (ops ! i) (ops ! j)}"
proof -
  let ?ps = "concat (map (pairs \<circ> snd) (ck_key_operations c))"
  have ps: "(i, j) \<in> set ?ps \<longleftrightarrow> key_pair c i j" for i j
    unfolding visited_pairs [OF assms(1)] by (simp add: key_pair_def)
  have range: "i < length ops \<and> j < length ops" if "key_pair c i j" for i j
    using that by (auto simp: key_pair_def ops_def)
  have eq: "conflict (ops ! i) (ops ! j) = (if unclear (ops ! i) (ops ! j) then Inl Indeterminate
      else Inr (race (ops ! i) (ops ! j)))" if "key_pair c i j" for i j
    by (rule conflict_eq) (use range [OF that] assms in \<open>auto simp: checker_inv_def\<close>)
  show "check_linearizability c = Inl Indeterminate" if unclear: "\<exists>i j. key_pair c i j \<and> unclear (ops ! i) (ops ! j)"
  proof -
    from unclear obtain i j where ij: "key_pair c i j" "unclear (ops ! i) (ops ! j)" by blast
    have "scan_pairs ops ?ps [] = Inl Indeterminate"
      by (rule scan_pairs_error [of ?ps ops i j Indeterminate])
        (use range ps ij eq [OF ij(1)] conflict_error in auto)
    then show ?thesis by (simp add: check_linearizability_def scan_keys_pairs ops_def)
  qed
  show "\<exists>vs. check_linearizability c = Inr (vs = [], c\<lparr>ck_violations := vs\<rparr>)
      \<and> set vs = {(or_id (ops ! i), or_id (ops ! j)) |i j. key_pair c i j \<and> race (ops ! i) (ops ! j)}"
    if clear: "\<not> (\<exists>i j. key_pair c i j \<and> unclear (ops ! i) (ops ! j))"
  proof -
    have "scan_pairs ops ?ps [] = Inr ([] @ map (\<lambda>(i, j). (or_id (ops ! i), or_id (ops ! j)))
        (filter (\<lambda>(i, j). race (ops ! i) (ops ! j)) ?ps))"
      by (rule scan_pairs_result) (use range ps eq clear in auto)
    moreover have "set (map (\<lambda>(i, j). (or_id (ops ! i), or_id (ops ! j)))
        (filter (\<lambda>(i, j). race (ops ! i) (ops ! j)) ?ps)) =
      {(or_id (ops ! i), or_id (ops ! j)) |i j. key_pair c i j \<and> race (ops ! i) (ops ! j)}"
      unfolding set_map set_filter using ps by (auto simp del: set_concat)
    ultimately show ?thesis by (auto simp: check_linearizability_def scan_keys_pairs ops_def simp del: set_map set_filter)
  qed
qed

section \<open>Statistics are sums\<close>

definition rtt_total :: "OperationRecord list \<Rightarrow> int" where
  "rtt_total rs = (\<Sum>r\<leftarrow>filter or_success rs. case or_rtt_count r of None \<Rightarrow> 0 | Some n \<Rightarrow> n)"

definition rtt_ok :: "OperationRecord list \<Rightarrow> bool" where
  "rtt_ok rs \<longleftrightarrow> (\<forall>r \<in> set rs. \<forall>n. or_rtt_count r = Some n \<longrightarrow> 0 \<le> n) \<and> rtt_total rs < 2 ^ 31"

lemma rtt_total_nonneg: "\<forall>r \<in> set rs. \<forall>n. or_rtt_count r = Some n \<longrightarrow> 0 \<le> n \<Longrightarrow> 0 \<le> rtt_total rs"
  unfolding rtt_total_def by (rule sum_list_nonneg) (auto split: option.splits)

lemma stat_loop_result:
  assumes "\<forall>r \<in> set rs. record_ok r" and "\<forall>r \<in> set rs. \<forall>n. or_rtt_count r = Some n \<longrightarrow> 0 \<le> n"
    and "0 \<le> ss_rtt s" and "ss_rtt s + rtt_total rs < 2 ^ 31"
  shows "if \<exists>r \<in> set rs. or_success r \<and> or_fast_path r = None then stat_loop rs s = Inl Indeterminate
    else \<exists>s'. stat_loop rs s = Inr s' \<and>
      ss_fast s' + ss_slow s' + ss_failed s' = ss_fast s + ss_slow s + ss_failed s + length rs \<and>
      ss_fast s' = ss_fast s + length (filter (\<lambda>r. or_success r \<and> or_fast_path r = Some True) rs) \<and>
      ss_failed s' = ss_failed s + length (filter (\<lambda>r. \<not> or_success r) rs)"
  using assms
proof (induction rs arbitrary: s)
  case (Cons r rs)
  note prems = Cons.prems
  have nonneg: "0 \<le> rtt_total rs" by (rule rtt_total_nonneg) (use prems(2) in simp)
  show ?case
  proof (cases "or_success r")
    case False
    then show ?thesis
      using Cons.IH [of "s\<lparr>ss_failed := Suc (ss_failed s)\<rparr>"] prems by (auto simp: rtt_total_def split: if_splits)
  next
    case True
    show ?thesis
    proof (cases "or_fast_path r")
      case None
      with True show ?thesis by (simp add: read_field_def)
    next
      case (Some fast)
      with True prems(1) obtain n e where r: "or_rtt_count r = Some n" "or_end_time r = Some e"
        by (auto simp: record_ok_def)
      let ?s = "(if fast then s\<lparr>ss_fast := Suc (ss_fast s)\<rparr> else s\<lparr>ss_slow := Suc (ss_slow s)\<rparr>)
        \<lparr>ss_latency := ss_latency s + (e - or_start_time r), ss_rtt := ss_rtt s + n\<rparr>"
      have n: "0 \<le> n" using prems(2) r(1) by simp
      have total: "rtt_total (r # rs) = n + rtt_total rs" using True r(1) by (simp add: rtt_total_def)
      have "in_i32 (ss_rtt s + n)" using prems(3,4) n nonneg total by (simp add: in_i32_def)
      then have step: "stat_loop (r # rs) s = stat_loop rs ?s" using True Some r by (simp add: read_field_def Let_def)
      have "0 \<le> ss_rtt ?s" "ss_rtt ?s + rtt_total rs < 2 ^ 31" using prems(3,4) n total by simp_all
      from Cons.IH [OF _ _ this] prems(1,2) True Some show ?thesis unfolding step by (auto split: if_splits)
    qed
  qed
qed simp

section \<open>Values\<close>

text \<open>A history with other values: the check does not see the difference.\<close>

definition with_values :: "(nat \<Rightarrow> bytes) \<Rightarrow> OperationRecord list \<Rightarrow> OperationRecord list" where
  "with_values f ops = map (\<lambda>(i, r). r\<lparr>or_value := f i\<rparr>) (enumerate 0 ops)"

lemma with_values_nth: "i < length ops \<Longrightarrow> with_values f ops ! i = (ops ! i)\<lparr>or_value := f i\<rparr>"
  by (simp add: with_values_def nth_enumerate_eq)

lemma length_with_values [simp]: "length (with_values f ops) = length ops"
  by (simp add: with_values_def)

lemma conflict_values: "conflict (a\<lparr>or_value := u\<rparr>) (b\<lparr>or_value := v\<rparr>) = conflict a b"
  by (simp add: conflict_def cong: if_cong)

lemma scan_pairs_values: "scan_pairs (with_values f ops) ps vs = scan_pairs ops ps vs"
proof (induction ps arbitrary: vs)
  case (Cons p ps)
  obtain i j where p: "p = (i, j)" by fastforce
  show ?case
    using Cons.IH by (simp add: p op_at_def with_values_nth conflict_values cong: if_cong)
qed simp

lemma check_ignores_values:
  "check_linearizability (c\<lparr>ck_operations := with_values f (ck_operations c)\<rparr>) =
     rbind (check_linearizability c) (\<lambda>(ok, c'). Inr (ok, c'\<lparr>ck_operations := with_values f (ck_operations c)\<rparr>))"
  by (cases "scan_pairs (ck_operations c) (concat (map (pairs \<circ> snd) (ck_key_operations c))) []")
    (simp_all add: check_linearizability_def scan_keys_pairs scan_pairs_values)

section \<open>Properties\<close>

text \<open>
  C25. The linearizability check in every state of the checker. It reports exactly the pairs of
  successful fast-path operations on one key whose times overlap, and passes exactly when there is none.
  It has no defined result exactly when it evaluates \<open>op1.fast_path && op2.fast_path\<close> for two overlapping
  successful operations on one key and reads a field that was never assigned, as that of a read is: \<open>op1\<close>, which was
  recorded first, has no \<open>fast_path\<close>, or \<open>op1\<close> is a fast-path operation and \<open>op2\<close> has none. If \<open>op1\<close> is a
  slow-path write, \<open>op2\<close> is not looked at, and an overlapping read does no harm. The values that were written or
  returned make no difference, so a read of a value nobody wrote is not noticed.
\<close>

theorem check_exact:
  assumes "checker_reachable c"
  shows "(check_linearizability c = Inl Indeterminate \<longleftrightarrow>
      (\<exists>i j. key_pair c i j \<and> overlap (ck_operations c ! i) (ck_operations c ! j)
        \<and> (or_fast_path (ck_operations c ! i) = None
           \<or> or_fast_path (ck_operations c ! i) = Some True \<and> or_fast_path (ck_operations c ! j) = None)))
    \<and> (check_linearizability c = Inl Indeterminate \<or>
      (\<exists>c'. check_linearizability c = Inr (get_violations c' = [], c')
        \<and> ck_operations c' = ck_operations c
        \<and> set (get_violations c') = {(or_id (ck_operations c ! i), or_id (ck_operations c ! j)) |i j.
            key_pair c i j \<and> race (ck_operations c ! i) (ck_operations c ! j)}))
    \<and> check_linearizability (c\<lparr>ck_operations := with_values f (ck_operations c)\<rparr>) =
      rbind (check_linearizability c) (\<lambda>(ok, c'). Inr (ok, c'\<lparr>ck_operations := with_values f (ck_operations c)\<rparr>))"
proof (cases "\<exists>i j. key_pair c i j \<and> unclear (ck_operations c ! i) (ck_operations c ! j)")
  case True
  then have "check_linearizability c = Inl Indeterminate" by (rule check_cases(1) [OF checker_invariant [OF assms]])
  with True check_ignores_values [of f c] show ?thesis unfolding unclear_def by simp
next
  case False
  with check_cases(2) [OF checker_invariant [OF assms]] obtain vs where
    "check_linearizability c = Inr (vs = [], c\<lparr>ck_violations := vs\<rparr>)"
    "set vs = {(or_id (ck_operations c ! i), or_id (ck_operations c ! j)) |i j.
      key_pair c i j \<and> race (ck_operations c ! i) (ck_operations c ! j)}" by blast
  moreover have "get_violations (c\<lparr>ck_violations := vs\<rparr>) = vs" by (simp add: get_violations_def)
  moreover have "\<not> (\<exists>i j. key_pair c i j \<and> overlap (ck_operations c ! i) (ck_operations c ! j)
        \<and> (or_fast_path (ck_operations c ! i) = None
           \<or> or_fast_path (ck_operations c ! i) = Some True \<and> or_fast_path (ck_operations c ! j) = None))"
    using False unfolding unclear_def .
  ultimately show ?thesis
    using check_ignores_values [of f c] by (auto intro!: exI [of _ "c\<lparr>ck_violations := vs\<rparr>"])
qed

definition overlapping_writes :: ConsistencyChecker where
  "overlapping_writes =
     (let c1 = snd (record_write_start 0 1 1 ''k'' [1] new_ConsistencyChecker);
          c2 = snd (record_write_start 1 2 1 ''k'' [2] c1);
          c3 = projr (record_write_end 5 1 True True 1 c2)
      in projr (record_write_end 6 2 True True 1 c3))"

lemma overlapping_writes_eq:
  "overlapping_writes =
     \<lparr>ck_enabled = True, ck_operations =
       [\<lparr>or_id = 1, or_client_id = 1, or_rpc_id = Some 1, or_key = ''k'', or_value = [1], or_start_time = 0,
         or_end_time = Some 5, or_success = True, or_fast_path = Some True, or_rtt_count = Some 1\<rparr>,
        \<lparr>or_id = 2, or_client_id = 2, or_rpc_id = Some 1, or_key = ''k'', or_value = [2], or_start_time = 1,
         or_end_time = Some 6, or_success = True, or_fast_path = Some True, or_rtt_count = Some 1\<rparr>],
      ck_next_op_id = 3, ck_op_id_to_index = [(1, 0), (2, 1)], ck_key_operations = [(''k'', [0, 1])],
      ck_violations = []\<rparr>"
  by (simp add: overlapping_writes_def new_ConsistencyChecker_def record_write_start_def push_record_def
      record_write_end_def Let_def)

lemma overlapping_writes_reachable: "checker_reachable overlapping_writes"
  unfolding overlapping_writes_def Let_def
  by (intro reachable_end cr_start cr_new)

theorem check_exact_witness:
  "\<exists>c'. check_linearizability overlapping_writes = Inr (False, c') \<and> (1, 2) \<in> set (get_violations c')"
proof -
  have race: "key_pair overlapping_writes 0 1 \<and>
      race (ck_operations overlapping_writes ! 0) (ck_operations overlapping_writes ! 1)"
    by (simp add: overlapping_writes_eq key_pair_def race_def overlap_def)
  have "\<not> unclear (ck_operations overlapping_writes ! i) (ck_operations overlapping_writes ! j)"
    if "key_pair overlapping_writes i j" for i j
    using that by (auto simp: overlapping_writes_eq key_pair_def unclear_def less_Suc_eq numeral_2_eq_2)
  then obtain c' where c': "check_linearizability overlapping_writes = Inr (get_violations c' = [], c')"
    "set (get_violations c') = {(or_id (ck_operations overlapping_writes ! i), or_id (ck_operations overlapping_writes ! j)) |i j.
       key_pair overlapping_writes i j \<and> race (ck_operations overlapping_writes ! i) (ck_operations overlapping_writes ! j)}"
    using check_exact [OF overlapping_writes_reachable, folded unclear_def] by blast
  moreover have "(1, 2) \<in> set (get_violations c')"
    unfolding c'(2) using race by (force simp: overlapping_writes_eq)
  ultimately show ?thesis by (auto intro!: exI [of _ c'])
qed

definition rounding_ok :: "(real \<Rightarrow> real) \<Rightarrow> bool" where
  "rounding_ok rnd \<longleftrightarrow> mono rnd \<and> rnd 0 = 0 \<and> rnd 1 = 1"

lemma ratio_bounds:
  assumes "rounding_ok rnd" and "m \<le> n" and "0 < n"
  shows "0 \<le> rnd (rnd (real m) / rnd (real n)) \<and> rnd (rnd (real m) / rnd (real n)) \<le> 1"
proof -
  have mono: "x \<le> y \<Longrightarrow> rnd x \<le> rnd y" for x y using assms(1) by (auto simp: rounding_ok_def mono_def)
  have rnd: "rnd 0 = 0" "rnd 1 = 1" using assms(1) by (simp_all add: rounding_ok_def)
  have "0 \<le> rnd (real m)" "rnd (real m) \<le> rnd (real n)" "1 \<le> rnd (real n)"
    using mono [of 0 "real m"] mono [of "real m" "real n"] mono [of 1 "real n"] assms(2,3) by (simp_all add: rnd)
  then have "0 \<le> rnd (real m) / rnd (real n)" "rnd (real m) / rnd (real n) \<le> 1" by simp_all
  then show ?thesis using mono [of 0] mono [of _ 1] by (fastforce simp: rnd)
qed

text \<open>
  C26. Statistics over any recorded history whose round trips add up to an \<open>int\<close>. They are undefined as soon
  as one successful read was recorded. Otherwise the fast-path count is the number of successful fast-path
  operations, the failure count that of the failed ones, the three counts add up to the number of operations, no read is ever counted, and the fast-path ratio is between 0 and 1, for every rounding that is monotone
  and exact on 0 and 1.
\<close>

theorem statistics_exact:
  assumes "checker_reachable c" and "rtt_ok (ck_operations c)" and "rounding_ok rnd"
  shows "if \<exists>r \<in> set (ck_operations c). or_success r \<and> or_fast_path r = None
    then get_statistics rnd c = Inl Indeterminate
    else \<exists>s. get_statistics rnd c = Inr s
      \<and> cs_fast_path_count s + cs_slow_path_count s + cs_failed_operations s = cs_total_operations s
      \<and> cs_total_operations s = length (ck_operations c) \<and> cs_successful_reads s = 0
      \<and> cs_fast_path_count s = length (filter (\<lambda>r. or_success r \<and> or_fast_path r = Some True) (ck_operations c))
      \<and> cs_failed_operations s = length (filter (\<lambda>r. \<not> or_success r) (ck_operations c))
      \<and> 0 \<le> cs_fast_path_ratio s \<and> cs_fast_path_ratio s \<le> 1"
proof -
  let ?s = "\<lparr>ss_fast = 0, ss_slow = 0, ss_failed = 0, ss_latency = 0, ss_rtt = 0\<rparr>"
  have "\<forall>r \<in> set (ck_operations c). record_ok r" using checker_invariant [OF assms(1)] by (simp add: checker_inv_def)
  with stat_loop_result [of "ck_operations c" ?s] assms(2)
  have loop: "if \<exists>r \<in> set (ck_operations c). or_success r \<and> or_fast_path r = None
    then stat_loop (ck_operations c) ?s = Inl Indeterminate
    else \<exists>s'. stat_loop (ck_operations c) ?s = Inr s' \<and> ss_fast s' + ss_slow s' + ss_failed s' = length (ck_operations c)
      \<and> ss_fast s' = length (filter (\<lambda>r. or_success r \<and> or_fast_path r = Some True) (ck_operations c))
      \<and> ss_failed s' = length (filter (\<lambda>r. \<not> or_success r) (ck_operations c))"
    by (auto simp: rtt_ok_def split: if_splits)
  show ?thesis
  proof (cases "\<exists>r \<in> set (ck_operations c). or_success r \<and> or_fast_path r = None")
    case True
    with loop show ?thesis by (simp add: get_statistics_def)
  next
    case False
    with loop obtain s' where s': "stat_loop (ck_operations c) ?s = Inr s'"
      and sum: "ss_fast s' + ss_slow s' + ss_failed s' = length (ck_operations c)"
      and counts: "ss_fast s' = length (filter (\<lambda>r. or_success r \<and> or_fast_path r = Some True) (ck_operations c))"
        "ss_failed s' = length (filter (\<lambda>r. \<not> or_success r) (ck_operations c))" by auto
    have "0 \<le> rnd (rnd (real (ss_fast s')) / rnd (real (length (ck_operations c)))) \<and>
        rnd (rnd (real (ss_fast s')) / rnd (real (length (ck_operations c)))) \<le> 1" if "0 < length (ck_operations c)"
      by (rule ratio_bounds [OF assms(3) _ that]) (use sum in simp)
    then have "\<exists>s. get_statistics rnd c = Inr s
      \<and> cs_fast_path_count s + cs_slow_path_count s + cs_failed_operations s = cs_total_operations s
      \<and> cs_total_operations s = length (ck_operations c) \<and> cs_successful_reads s = 0
      \<and> cs_fast_path_count s = length (filter (\<lambda>r. or_success r \<and> or_fast_path r = Some True) (ck_operations c))
      \<and> cs_failed_operations s = length (filter (\<lambda>r. \<not> or_success r) (ck_operations c))
      \<and> 0 \<le> cs_fast_path_ratio s \<and> cs_fast_path_ratio s \<le> 1"
      using s' sum counts [symmetric] by (simp add: get_statistics_def Let_def)
    then show ?thesis by (simp only: False if_False)
  qed
qed

theorem statistics_exact_witness:
  "get_statistics id (snd (record_read 9 3 ''k'' [7] True overlapping_writes)) = Inl Indeterminate"
proof -
  let ?c = "snd (record_read 9 3 ''k'' [7] True overlapping_writes)"
  have "checker_reachable ?c" by (rule cr_read [OF overlapping_writes_reachable])
  moreover have "rtt_ok (ck_operations ?c)"
    by (simp add: rtt_ok_def rtt_total_def record_read_def push_record_def overlapping_writes_eq Let_def)
  moreover have "rounding_ok id" by (simp add: rounding_ok_def mono_def)
  moreover have "\<exists>r \<in> set (ck_operations ?c). or_success r \<and> or_fast_path r = None"
    by (simp add: record_read_def push_record_def overlapping_writes_eq Let_def)
  ultimately show ?thesis using statistics_exact [of ?c id] by presburger
qed

end
