(* ===== verification/Spec2Isabelle.thy ===== *)
theory Spec2Isabelle
  imports Witness_Service Master_Trace Client_Trace Raft_Restart Raft_Service Node_Service Node_Controller
    Network_Simulator Consistency_Checker
begin

text \<open>
  \<^bold>\<open>tiny-distributed-kv\<close>: a key-value store that combines the CURP protocol (clients write to a master
  and to witnesses in one round trip) with Raft (the master's log).

  \<^bold>\<open>Parts of the program and how they interact.\<close>
  A client (\<^verbatim>\<open>src/curp/curp_client.cpp\<close>) sends every write to the master and records it on all
  witnesses. A witness (\<^verbatim>\<open>src/curp/witness.cpp\<close>) stores requests without ordering them, at most one per
  key, and is reached through a gRPC service and stub (\<^verbatim>\<open>src/grpc/witness_service_impl.cpp\<close>). The
  master (\<^verbatim>\<open>src/curp/curp_master.cpp\<close>) executes a request at once if its key has no unsynchronised
  request, synchronises in the background, and after a crash replays what a witness has saved. The
  master is a Raft node (\<^verbatim>\<open>src/raft/raft.cpp\<close>, \<^verbatim>\<open>src/raft/raft_rpc.cpp\<close>), whose log is a pair of files
  (\<^verbatim>\<open>src/storage/log_vec.cpp\<close>) of protobuf messages, and whose elections are driven by timers
  (\<^verbatim>\<open>src/utils/timer.cpp\<close>). A node is reached through its own service object, which it creates and
  registers when it starts. Client, witness and master report what they do to spans
  (\<^verbatim>\<open>src/tracing/tracing.cpp\<close>). A separate node service (\<^verbatim>\<open>src/grpc/node_service_impl.cpp\<close>) answers pings.
  A test library (\<^verbatim>\<open>src/test/\<close>) puts masters, witnesses and clients under one controller, simulates a
  network, and checks recorded histories.

  \<^bold>\<open>Theories, in the order of their imports.\<close>
  \<^item> \<open>Prelude\<close>: machine integers with the C++ conversions (\<open>to_i32\<close>, \<open>to_u64\<close>), failing computations (\<open>rbind\<close>),
    little-endian bytes, decimal strings, \<open>std::unordered_map\<close> as an association list.
  \<^item> \<open>Witness\<close>: the record \<open>Witness\<close> and one function per method of the class; a step relation with one
    rule per method; the invariant \<open>witness_inv\<close>; the locale \<open>request_store\<close>, the contract that clients and
    masters rely on, interpreted on the witness.
  \<^item> \<open>Witness_Service\<close>: the RPC messages, the six service methods and the six stub methods; a call is
    lost, loses its reply, or is delivered; \<open>request_store\<close> is interpreted again on the stub.
  \<^item> \<open>Entry_Codec\<close>: the serialisation and the parse loop of the generated class \<open>raft::Entry\<close>; the protobuf
    runtime is the parameter \<open>wire_ops\<close> with its promises \<open>wire_ok\<close>, and a varint implementation that keeps
    them. The parse loop has one unit of fuel per input byte, which is enough because each round
    consumes a tag (\<open>entry_parse_fuel\<close>).
  \<^item> \<open>LogVec\<close>: the persistent log and its iterators; the file object of the tiny-lsm submodule is the
    parameter \<open>store_env\<close> with its promises \<open>file_ok\<close>. \<open>logvec_rep\<close> relates the two files to a list of entries, and
    the locale \<open>entry_log\<close> is the contract Raft uses.
  \<^item> \<open>Timer\<close>: timers, constants, the random election timeout. A thread in \<open>wait\<close> and what happens around it are
    the relation \<open>timer_step\<close>; \<open>stop\<close>, which takes no mutex, can fall between any two accesses of the thread.
  \<^item> \<open>Raft_Node\<close>: the record \<open>RaftNode\<close> and every section of the node that runs under its mutex. The
    loops over log indices are recursive functions with termination proofs.
  \<^item> \<open>Raft_Vote\<close>: what \<open>RequestVote\<close> answers; the locale \<open>vote_register\<close> and the vote of a term.
  \<^item> \<open>Raft_Replication\<close>: what a heartbeat round sends, the follower's merge against the list function
    \<open>merge_spec\<close>, the commit rule, the rollback of \<open>nextIndex\<close>, and the exchange of the two until success.
  \<^item> \<open>Raft_Cluster\<close>: nodes and threads of a cluster with lost messages and any interleaving, as the relation
    \<open>cluster_step\<close>; majorities as the locale \<open>quorum_system\<close>; Election Safety.
  \<^item> \<open>Raft_Cluster_Log\<close>: the logs of a running cluster. The invariant \<open>log_inv\<close> says of every node that its log is
    one of the logs the cluster started with, of every message in flight from which of them and under
    which leadership it was sent, and of every reply that its numbers are in range.
  \<^item> \<open>Raft_Restart\<close>: nodes that restart inside a run, as the relation \<open>restart_step\<close>: the threads of the node end
    and its constructor runs again on the files of its log.
  \<^item> \<open>Raft_Service\<close>: the stub cache, the registry of services and \<open>RaftNode::Create\<close>, with the reference counts
    of the shared pointers between node and service; the locale \<open>get_or_create\<close> is the contract of cache and
    registry, interpreted on both.
  \<^item> \<open>Tracing\<close>: spans and the tracer; programs over spans are sequences of \<open>trace_op\<close>.
  \<^item> \<open>Witness_Trace\<close>: the calls every operation of the witness makes on its span.
  \<^item> \<open>Node_Service\<close>: the ping service, its client and the start of its server.
  \<^item> \<open>Curp_Master\<close>: the master with its mutex as part of the state, so that taking it twice is the error
    \<open>Deadlock\<close>; witnesses in a heap of shared objects; the invariant \<open>master_inv\<close>.
  \<^item> \<open>Master_Trace\<close>: the operations of the master with their spans, as code that collects messages and may
    block; the predicate \<open>tracks\<close> says that it has the outcome of the untraced code and which spans it leaves open.
  \<^item> \<open>Curp_Client\<close>: identifiers, the format of saved requests, writes, deletes and reads.
  \<^item> \<open>Client_Trace\<close>: the operations of the client with their spans; the two tasks of a write log in any interleaving.
  \<^item> \<open>Node_Controller\<close>: the controller of the test library over the models of master, witness and client, with
    a step relation for what a test and the threads of the masters do.
  \<^item> \<open>Network_Simulator\<close>: the simulated network. The priority queue is a parameter with the locale \<open>message_queue\<close>
    as its contract, interpreted on a sorted list; loops over it are partial functions that the theorems show to end.
  \<^item> \<open>Consistency_Checker\<close>: recorded histories; a field the code never assigns is \<open>None\<close> and reading it an error.
  \<^item> This theory: properties that need the client, the witness and the master together.

  \<^bold>\<open>What the theorems show.\<close> Witness: accepted requests are recoverable, recovery data commutes, garbage
  collection and status are exact. Service: the stub is transparent and its failures are exact, acceptance over RPC is durable. Log:
  the files refine a list, reopening keeps it, traversals are exact. Raft: at most one leader per term in
  every run without restarts; one vote per term; a vote is granted exactly under Raft's conditions; \<open>AppendEntries\<close> keeps the
  matching prefix and replaces the rest by the new entries; a commit needs a majority in the current term; a
  lagging follower is repaired in at most \<open>nextIndex\<close> rounds; heartbeats never fail; in every run the logs
  match, a leader keeps its log for its term, and no handler fails. Objects: a node has one
  service, dropping pointers terminates. Tracing: every span that starts ends once, the status of
  a traced \<open>record\<close> tells acceptance, and tracing changes no outcome of the master and the client. Test library: the controller's counts add up
  and its masters keep their invariant, the simulator loses and invents no message, delivers exactly what is due and
  keeps partitions, the checker reports exactly the overlapping fast-path operations. Master: each request
  has one of three outcomes, requests are executed at most once, unsynchronised requests commute in runs without
  replays, replay does not depend on the order. Client: which identifiers are equal, a fast-path write is on all
  witnesses, the result of a write is determined by the states of the witnesses. Timer: \<open>wait\<close> returns only
  after the deadline or a stop.
  Several theorems state what the code does where it differs from its intent: \<open>do_sync\<close> stores nothing,
  \<open>recover\<close> deadlocks when there is something to recover and leaves two spans open, the client's name for the master
  is never a node's own name, a simulated crash loses nothing, the checker reads fields that were never
  assigned, a handler that answers blocks the simulator, a restart of one node can give a term two leaders and logs that no longer
  match, a created node is never freed, the outcome
  attribute of a traced request is always \<open>true\<close>, client identifiers collide modulo \<open>2 ^ 16\<close>, a replay can leave two
  unsynchronised requests on one key, a \<open>stop\<close> can be missed until the deadline.

  \<^bold>\<open>Bounds.\<close> Log lengths, terms and cluster sizes stay below \<open>2 ^ 31\<close>, the range of the
  32-bit fields that carry them (\<open>node_ok\<close>, \<open>args_ok\<close>); the data file stays below \<open>2 ^ 64\<close> bytes (\<open>logvec_room\<close>),
  for which \<open>start_logs\<close> asks that any two of the initial logs fit together. Terms are not assumed
  bounded in runs: the election that would pass the range is the step that fails.

  \<^bold>\<open>Not modelled.\<close> gRPC itself and the server loop, which are parameters; log lines other than those of the
  tracing component; snapshots, persistence of the Raft state and the application of entries, which
  the code leaves open. The generated code of the other messages
  (only the codec of \<open>raft::Entry\<close> touches the disk) and the class skeleton \<^verbatim>\<open>include/curp/curp.h\<close>, which nothing
  uses. Rounding of \<open>double\<close> values is a parameter and loss rates are finite. The test programs themselves are
  not modelled; \<open>test_setup\<close> follows one of them.
\<close>

section \<open>Recovery across components\<close>

text \<open>
  C13. A request that a witness accepted under the master's own name survives the loss of the master: after
  any further recorded requests, a replay from that witness succeeds and the master has executed the
  request.
\<close>

theorem accepted_request_replayed:
  assumes "witness_reachable w" and "witness_record t w (node_name m) i k d c = (ACCEPTED, w1)"
    and "h a = fold (\<lambda>(t, n, i, k, d, c) w. snd (witness_record t w n i k d c)) ts w1"
    and "w_master_id (h a) = node_name m" and "\<not> curp_mtx m"
  shows "\<exists>n m' h'. replay_from_local_witness a m h = Inr (n, m', h') \<and> is_executed m' i
    \<and> (\<forall>j. is_executed m j \<longrightarrow> is_executed m' j)"
proof -
  obtain records w' where data: "witness_get_recovery_data (h a) (node_name m) = (records, w')" by fastforce
  have "i \<in> wr_rpc_id ` set (fst (witness_get_recovery_data (wit.traffic ts w1) (node_name m)))"
    by (rule wit.accepted_recoverable [OF reachable_inv [OF assms(1)] assms(2)])
      (use assms(3,4) in \<open>simp add: wit.traffic_def\<close>)
  then have "i \<in> wr_rpc_id ` set records" using assms(3) data by (simp add: wit.traffic_def)
  then show ?thesis
    using data assms(5) by (auto simp: replay_from_local_witness_def replay_ops_eq fold_replay_executed)
qed

theorem accepted_request_replayed_witness:
  "\<exists>n m' h'. replay_from_local_witness 0 sample_master (\<lambda>_. saved_witness) = Inr (n, m', h') \<and> is_executed m' 7"
proof -
  have "witness_record 1 (new_Witness []) (node_name sample_master) 7 ''a'' [5] 3 = (ACCEPTED, saved_witness)"
    by (simp add: saved_witness_def sample_name witness_record_def new_Witness_def kMaxRecords_def)
  moreover have "w_master_id saved_witness = node_name sample_master"
    by (simp add: saved_witness_def sample_name witness_record_def new_Witness_def kMaxRecords_def)
  ultimately show ?thesis
    using accepted_request_replayed [OF witness_reachable.wr_start, of 1 "[]" sample_master 7 "''a''" "[5]" 3
        saved_witness "\<lambda>_. saved_witness" 0 "[]"] master_invD(1) [OF sample_master_inv] by auto
qed

text \<open>
  C34. The client records its requests under the name \<open>master\<close>, not under the name the master
  recovers with: after a fast-path write of a new request, every witness of the client holds the request,
  and yet no master can recover it, since the replay finds no records.
\<close>

theorem fast_path_write_not_recovered:
  assumes "client_write clk outs c key value h = (res, c', h')" and "wres_fast_path res"
    and "length (cc_witnesses c) < 2 ^ 31" and "a \<in> set (cc_witnesses c)"
    and "fst (next_rpc_id c) \<notin> w_rpc_ids (h a)" and "\<not> curp_mtx m"
  shows "fst (next_rpc_id c) \<in> w_rpc_ids (h' a) \<and> replay_from_local_witness a m h' = Inr (0, m, h')"
proof -
  let ?i = "fst (next_rpc_id c)" and ?cid = "cf_client_id (cc_config c)"
  let ?op = "\<lparr>op_rpc_id = ?i, op_client_id = ?cid, op_type = PUT, op_key = key, op_value = value\<rparr>"
  obtain n where loop: "record_loop clk outs ?cid ?i key (serialize_request ?op) 0 (cc_witnesses c) 0 h = (n, h')"
      and n: "n = 0 + int (length (cc_witnesses c))"
    using fast_path_loop [OF assms(1-3)] by blast
  have saved: "?i \<in> w_rpc_ids (h' a)" and bound: "w_master_id (h' a) = ''master''"
    using record_loop_saves [OF loop] record_loop_bound [OF loop] n assms(4,5)
    by (auto simp: saved_on_def)
  have "node_name m \<noteq> ''master''" by (rule node_name_not_master)
  then have "witness_get_recovery_data (h' a) (node_name m) = ([], h' a)"
    using bound by (simp add: witness_get_recovery_data_def)
  then have "replay_from_local_witness a m h' = Inr (0, m, h'(a := h' a))"
    using assms(6) by (simp add: replay_from_local_witness_def replay_ops_eq)
  with saved show ?thesis by simp
qed

theorem fast_path_write_not_recovered_witness:
  "\<exists>res c' h'. client_write 1 (\<lambda>_. Delivered) (sample_client 3) ''k'' [1] (\<lambda>_. new_Witness []) = (res, c', h')
    \<and> fst (next_rpc_id (sample_client 3)) \<in> w_rpc_ids (h' 1)
    \<and> replay_from_local_witness 1 sample_master h' = Inr (0, sample_master, h')"
proof -
  obtain res c' h' where run: "client_write 1 (\<lambda>_. Delivered) (sample_client 3) ''k'' [1] (\<lambda>_. new_Witness []) = (res, c', h')"
      and fast: "wres_fast_path res"
    using sample_write by blast
  have cw: "cc_witnesses (sample_client 3) = [1, 2]" by (simp add: sample_client_def new_CurpClient_def)
  have "fst (next_rpc_id (sample_client 3)) \<in> w_rpc_ids (h' 1)
      \<and> replay_from_local_witness 1 sample_master h' = Inr (0, sample_master, h')"
    by (rule fast_path_write_not_recovered [OF run fast])
      (use cw master_invD(1) [OF sample_master_inv] in \<open>simp_all add: new_Witness_def\<close>)
  with run show ?thesis by blast
qed

end
